(* ===== verification/Prelude.thy ===== *)
theory Prelude
  imports
    Main
    "HOL-Library.Word"
    "HOL-Library.List_Lexorder"
    "HOL-Library.Sublist"
begin

text \<open>
  Shared vocabulary of the development: machine integers, byte strings and their
  lexicographic order, fallible computations, the big-endian conversions of the Rust
  standard library, and the generic lemmas on lists that several components use.

  Machine integers are words of their width.  The development models a 64-bit target,
  so \<open>usize\<close> and \<open>u64\<close> coincide; a vector length is a \<^typ>\<open>nat\<close> and is cast with
  \<open>of_nat\<close> where the code writes \<open>as u64\<close>.  A fallible Rust function of type
  \<open>Result<T, E>\<close> is a function into \<open>'e + 't\<close>, with \<^const>\<open>Inl\<close> for the error, and the
  \<open>?\<close> operator is \<open>and_then\<close>.
\<close>

unbundle bit_operations_syntax

type_synonym u8 = "8 word"
type_synonym u16 = "16 word"
type_synonym u32 = "32 word"
type_synonym u64 = "64 word"
type_synonym u128 = "128 word"
type_synonym bytes = "u8 list"
type_synonym entry = "bytes \<times> bytes"

section \<open>Results\<close>

definition and_then :: "'e + 'a \<Rightarrow> ('a \<Rightarrow> 'e + 'b) \<Rightarrow> 'e + 'b" where
  "and_then r f = (case r of Inl e \<Rightarrow> Inl e | Inr x \<Rightarrow> f x)"

definition ok_or :: "'a option \<Rightarrow> 'e \<Rightarrow> 'e + 'a" where
  "ok_or x e = (case x of None \<Rightarrow> Inl e | Some y \<Rightarrow> Inr y)"

lemma and_then_simps [simp]:
  "and_then (Inl e) f = Inl e"
  "and_then (Inr x) f = f x"
  by (simp_all add: and_then_def)

lemma ok_or_simps [simp]:
  "ok_or None e = Inl e"
  "ok_or (Some y) e = Inr y"
  by (simp_all add: ok_or_def)

lemma and_then_Inr_iff: "and_then r f = Inr y \<longleftrightarrow> (\<exists>x. r = Inr x \<and> f x = Inr y)"
  by (cases r) auto

definition map_ok :: "('a \<Rightarrow> 'b) \<Rightarrow> 'e + 'a \<Rightarrow> 'e + 'b" where
  "map_ok g r = and_then r (\<lambda>x. Inr (g x))"

lemma map_ok_simps [simp]:
  "map_ok g (Inl e) = Inl e" "map_ok g (Inr x) = Inr (g x)"
  "map_ok g (and_then r h) = and_then r (\<lambda>x. map_ok g (h x))"
  "and_then (map_ok g r) k = and_then r (\<lambda>x. k (g x))"
  by (cases r; simp add: map_ok_def)+

lemma map_ok_Inr_iff: "map_ok g r = Inr y \<longleftrightarrow> (\<exists>x. r = Inr x \<and> y = g x)"
  by (cases r) auto

lemma map_ok_map_ok [simp]: "map_ok g (map_ok h r) = map_ok (\<lambda>x. g (h x)) r"
  by (cases r) simp_all

lemma and_then_InrE:
  assumes "and_then r f = Inr y"
  obtains x where "r = Inr x" "f x = Inr y"
  using assms by (auto simp: and_then_Inr_iff)

lemma and_then_assoc: "and_then (and_then r f) g = and_then r (\<lambda>x. and_then (f x) g)"
  by (cases r) auto

lemma and_then_cong [fundef_cong]:
  "r = r' \<Longrightarrow> (\<And>x. r' = Inr x \<Longrightarrow> f x = f' x) \<Longrightarrow> and_then r f = and_then r' f'"
  by (cases r') auto

lemma ok_or_Inr_iff: "ok_or x e = Inr y \<longleftrightarrow> x = Some y"
  by (cases x) auto

section \<open>Checked and saturating arithmetic\<close>

text \<open>
  Arithmetic of Rust's unsigned integers, on the value of a word.  The checked
  operations return \<^const>\<open>None\<close> where the mathematical result does not fit.
\<close>

definition checked_add :: "u64 \<Rightarrow> u64 \<Rightarrow> u64 option" where
  "checked_add a b = (if unat a + unat b < 2 ^ 64 then Some (a + b) else None)"

definition checked_sub :: "u64 \<Rightarrow> u64 \<Rightarrow> u64 option" where
  "checked_sub a b = (if b \<le> a then Some (a - b) else None)"

definition saturating_add :: "u64 \<Rightarrow> u64 \<Rightarrow> u64" where
  "saturating_add a b = (if unat a + unat b < 2 ^ 64 then a + b else - 1)"

definition saturating_sub :: "u64 \<Rightarrow> u64 \<Rightarrow> u64" where
  "saturating_sub a b = (if b \<le> a then a - b else 0)"

definition saturating_mul :: "u64 \<Rightarrow> u64 \<Rightarrow> u64" where
  "saturating_mul a b = (if unat a * unat b < 2 ^ 64 then a * b else - 1)"

abbreviation u64_max :: u64 where
  "u64_max \<equiv> - 1"

lemma unat_u64_lt: "unat (w :: u64) < 2 ^ 64"
  using unsigned_less [of w, where 'a = nat] by simp

lemma unat_u64_max: "unat (u64_max) = 2 ^ 64 - 1"
  by (simp add: unsigned_minus_1_eq_mask mask_eq_exp_minus_1)

lemma unat_of_nat_u64: "n < 2 ^ 64 \<Longrightarrow> unat (of_nat n :: u64) = n"
  by (simp add: unat_of_nat take_bit_eq_mod)

lemma checked_add_Some: "checked_add a b = Some c \<Longrightarrow> unat c = unat a + unat b"
  by (auto simp: checked_add_def unat_word_ariths split: if_splits)

lemma checked_add_eq_Some: "unat a + unat b < 2 ^ 64 \<Longrightarrow> checked_add a b = Some (a + b)"
  by (simp add: checked_add_def)

lemma checked_sub_Some: "checked_sub a b = Some c \<Longrightarrow> unat c = unat a - unat b \<and> unat b \<le> unat a"
  by (auto simp: checked_sub_def unat_sub word_le_nat_alt split: if_splits)

lemma unat_saturating_add: "unat (saturating_add a b) = min (unat a + unat b) (2 ^ 64 - 1)"
  by (auto simp: saturating_add_def unat_word_ariths unsigned_minus_1_eq_mask mask_eq_exp_minus_1 min_def)

lemma unat_saturating_sub: "unat (saturating_sub a b) = unat a - unat b"
  by (auto simp: saturating_sub_def unat_sub word_le_nat_alt)

lemma unat_saturating_mul: "unat (saturating_mul a b) = min (unat a * unat b) (2 ^ 64 - 1)"
  by (auto simp: saturating_mul_def unat_word_ariths unsigned_minus_1_eq_mask mask_eq_exp_minus_1 min_def)

section \<open>Big-endian bytes\<close>

text \<open>
  \<open>to_be_bytes\<close> and \<open>from_be_bytes\<close> of the standard library, for an integer of
  \<open>n\<close> bytes given by its value.
\<close>

fun nat_be :: "nat \<Rightarrow> nat \<Rightarrow> bytes" where
  "nat_be 0 x = []"
| "nat_be (Suc n) x = nat_be n (x div 256) @ [of_nat (x mod 256)]"

definition be_nat :: "bytes \<Rightarrow> nat" where
  "be_nat bs = foldl (\<lambda>a b. a * 256 + unat b) 0 bs"

definition to_be_bytes64 :: "u64 \<Rightarrow> bytes" where
  "to_be_bytes64 w = nat_be 8 (unat w)"

definition to_be_bytes128 :: "u128 \<Rightarrow> bytes" where
  "to_be_bytes128 w = nat_be 16 (unat w)"

definition to_be_bytes32 :: "u32 \<Rightarrow> bytes" where
  "to_be_bytes32 w = nat_be 4 (unat w)"

definition to_be_bytes16 :: "u16 \<Rightarrow> bytes" where
  "to_be_bytes16 w = nat_be 2 (unat w)"

lemma length_nat_be [simp]: "length (nat_be n x) = n"
  by (induction n arbitrary: x) auto

lemma be_nat_snoc [simp]: "be_nat (bs @ [b]) = be_nat bs * 256 + unat b"
  by (simp add: be_nat_def)

lemma be_nat_Nil [simp]: "be_nat [] = 0"
  by (simp add: be_nat_def)

lemma unat_byte_lt: "unat (b :: u8) < 256"
  using unsigned_less [of b, where 'a = nat] by simp

lemma unat_byte_of_mod [simp]: "unat (of_nat (x mod 256) :: u8) = x mod 256"
  by (simp add: unat_of_nat take_bit_eq_mod)

lemma be_nat_bound: "be_nat bs < 256 ^ length bs"
proof (induction bs rule: rev_induct)
  case (snoc b bs)
  have "be_nat bs * 256 + unat b < (be_nat bs + 1) * 256"
    using unat_byte_lt [of b] by simp
  also have "\<dots> \<le> 256 ^ length bs * 256"
    using snoc by (simp add: Suc_leI mult_le_mono1)
  finally show ?case by (simp add: mult.commute)
qed simp

lemma be_nat_nat_be: "be_nat (nat_be n x) = x mod 256 ^ n"
proof (induction n arbitrary: x)
  case (Suc n)
  have "be_nat (nat_be (Suc n) x) = (x div 256) mod 256 ^ n * 256 + x mod 256"
    using Suc by simp
  also have "\<dots> = x mod (256 * 256 ^ n)"
    by (simp add: mod_mult2_eq mult.commute)
  finally show ?case by simp
qed simp

lemma nat_be_be_nat: "nat_be (length bs) (be_nat bs) = bs"
proof (induction bs rule: rev_induct)
  case (snoc b bs)
  have 1: "(be_nat bs * 256 + unat b) div 256 = be_nat bs"
    using unat_byte_lt [of b] by simp
  have 2: "(be_nat bs * 256 + unat b) mod 256 = unat b"
    using unat_byte_lt [of b] by simp
  show ?case using snoc 1 2 by simp
qed simp

section \<open>Lexicographic order of byte strings\<close>

lemma append_less_append_iff: "xs @ ys < xs @ zs \<longleftrightarrow> (ys :: 'a :: order list) < zs"
  by (induction xs) auto

lemma less_append_same_length:
  fixes xs :: "'a :: linorder list"
  assumes "length xs = length ys"
  shows "xs @ us < ys @ vs \<longleftrightarrow> xs < ys \<or> (xs = ys \<and> us < vs)"
  using assms by (induction xs ys rule: list_induct2) auto

lemma be_nat_less_iff:
  assumes "length xs = length ys"
  shows "be_nat xs < be_nat ys \<longleftrightarrow> xs < ys"
  using assms
proof (induction xs arbitrary: ys rule: rev_induct)
  case Nil
  then show ?case by simp
next
  case (snoc x xs)
  then obtain y zs where ys: "ys = zs @ [y]"
    by (cases ys rule: rev_cases) auto
  with snoc.prems have len: "length xs = length zs" by simp
  have inj: "be_nat xs = be_nat zs \<longleftrightarrow> xs = zs"
    using len nat_be_be_nat [of xs] nat_be_be_nat [of zs] by metis
  have "be_nat xs * 256 + unat x < be_nat zs * 256 + unat y
      \<longleftrightarrow> be_nat xs < be_nat zs \<or> (be_nat xs = be_nat zs \<and> unat x < unat y)"
    using unat_byte_lt [of x] unat_byte_lt [of y] by linarith
  then show ?case
    using snoc.IH [OF len] inj by (simp add: ys less_append_same_length len word_less_nat_alt)
qed

lemma nat_be_less_iff:
  assumes "x < 256 ^ n" "y < 256 ^ n"
  shows "nat_be n x < nat_be n y \<longleftrightarrow> x < y"
  using be_nat_less_iff [of "nat_be n x" "nat_be n y"] assms by (simp add: be_nat_nat_be)

lemma nat_be_inject:
  assumes "x < 256 ^ n" "y < 256 ^ n"
  shows "nat_be n x = nat_be n y \<longleftrightarrow> x = y"
  using assms by (metis be_nat_nat_be mod_less)

lemma prefix_le: "prefix xs ys \<Longrightarrow> (xs :: 'a :: linorder list) \<le> ys"
proof (induction xs arbitrary: ys)
  case (Cons x xs)
  then show ?case by (cases ys) auto
qed simp

end
