(* ===== verification/Keys.thy ===== *)
theory Keys
  imports Prelude
begin

text \<open>
  Key helpers (\<^verbatim>\<open>src/src/prolly/key.rs\<close>): prefix ranges, order-preserving numeric keys,
  segment-safe composite keys and the readable rendering of a key.  The contract of the
  numeric and segment encoders is the locale \<open>ordered_key\<close>; every encoder of the file
  is an interpretation of it.
\<close>

section \<open>Definitions\<close>

subsection \<open>Prefix ranges\<close>

text \<open>
  The loop of \<open>prefix_end\<close> looks at the last byte: it drops a maximal byte and otherwise
  increments it and stops.  The recursion runs over the bytes from the last to the first.
\<close>

fun prefix_end_loop :: "bytes \<Rightarrow> bytes option" where
  "prefix_end_loop [] = None"
| "prefix_end_loop (byte # before) =
     (if byte = 0xff then prefix_end_loop before else Some (rev ((byte + 1) # before)))"

definition prefix_end :: "bytes \<Rightarrow> bytes option" where
  "prefix_end p = (if p = [] then None else prefix_end_loop (rev p))"

definition prefix_range :: "bytes \<Rightarrow> bytes \<times> bytes option" where
  "prefix_range p = (p, prefix_end p)"

subsection \<open>Numeric keys\<close>

text \<open>A signed integer is the word of its two's complement bits.\<close>

definition u64_key :: "u64 \<Rightarrow> bytes" where
  "u64_key value = to_be_bytes64 value"

definition u128_key :: "u128 \<Rightarrow> bytes" where
  "u128_key value = to_be_bytes128 value"

definition i64_key :: "u64 \<Rightarrow> bytes" where
  "i64_key value = to_be_bytes64 (value XOR push_bit 63 1)"

definition i128_key :: "u128 \<Rightarrow> bytes" where
  "i128_key value = to_be_bytes128 (value XOR push_bit 127 1)"

definition timestamp_millis_key :: "u64 \<Rightarrow> bytes" where
  "timestamp_millis_key value = u64_key value"

subsection \<open>Composite keys\<close>

fun encode_segment_prefix :: "bytes \<Rightarrow> bytes" where
  "encode_segment_prefix [] = []"
| "encode_segment_prefix (b # bs) =
     (if b = 0 then [0x00, 0xff] else [b]) @ encode_segment_prefix bs"

definition encode_segment_into :: "bytes \<Rightarrow> bytes \<Rightarrow> bytes" where
  "encode_segment_into segment out = out @ encode_segment_prefix segment @ [0x00, 0x00]"

definition encode_segment :: "bytes \<Rightarrow> bytes" where
  "encode_segment segment = encode_segment_into segment []"

datatype key_decode_error =
  UnexpectedEnd nat
| InvalidEscape nat u8

text \<open>
  The loop of \<open>decode_segments\<close>; its arguments are the bytes from \<open>offset\<close> on, the
  offset, the segment being read and the segments already read.
\<close>

fun decode_loop :: "bytes \<Rightarrow> nat \<Rightarrow> bytes \<Rightarrow> bytes list \<Rightarrow> key_decode_error + bytes list" where
  "decode_loop [] offset current segments =
     (if current = [] then Inr segments else Inl (UnexpectedEnd offset))"
| "decode_loop (byte # rest) offset current segments =
     (if byte \<noteq> 0 then decode_loop rest (offset + 1) (current @ [byte]) segments
      else case rest of
        [] \<Rightarrow> Inl (UnexpectedEnd offset)
      | marker # rest' \<Rightarrow>
          if marker = 0x00 then decode_loop rest' (offset + 2) [] (segments @ [current])
          else if marker = 0xff then decode_loop rest' (offset + 2) (current @ [0]) segments
          else Inl (InvalidEscape offset marker))"

definition decode_segments :: "bytes \<Rightarrow> key_decode_error + bytes list" where
  "decode_segments key = decode_loop key 0 [] []"

record key_builder =
  kb_bytes :: bytes

definition kb_new :: key_builder where
  "kb_new = \<lparr>kb_bytes = []\<rparr>"

definition from_prefix :: "bytes \<Rightarrow> key_builder" where
  "from_prefix p = \<lparr>kb_bytes = p\<rparr>"

definition push_raw :: "bytes \<Rightarrow> key_builder \<Rightarrow> key_builder" where
  "push_raw bs kb = kb\<lparr>kb_bytes := kb_bytes kb @ bs\<rparr>"

definition push_segment :: "bytes \<Rightarrow> key_builder \<Rightarrow> key_builder" where
  "push_segment segment kb = kb\<lparr>kb_bytes := encode_segment_into segment (kb_bytes kb)\<rparr>"

definition push_u64 :: "u64 \<Rightarrow> key_builder \<Rightarrow> key_builder" where
  "push_u64 value = push_segment (u64_key value)"

definition push_u128 :: "u128 \<Rightarrow> key_builder \<Rightarrow> key_builder" where
  "push_u128 value = push_segment (u128_key value)"

definition push_i64 :: "u64 \<Rightarrow> key_builder \<Rightarrow> key_builder" where
  "push_i64 value = push_segment (i64_key value)"

definition push_i128 :: "u128 \<Rightarrow> key_builder \<Rightarrow> key_builder" where
  "push_i128 value = push_segment (i128_key value)"

definition push_timestamp_millis :: "u64 \<Rightarrow> key_builder \<Rightarrow> key_builder" where
  "push_timestamp_millis value = push_segment (timestamp_millis_key value)"

definition kb_finish :: "key_builder \<Rightarrow> bytes" where
  "kb_finish kb = kb_bytes kb"

subsection \<open>Readable keys\<close>

definition hex_digit :: "nat \<Rightarrow> char" where
  "hex_digit n = (if n < 10 then char_of (48 + n) else char_of (87 + n))"

definition debug_byte :: "u8 \<Rightarrow> string" where
  "debug_byte b =
     (let n = unat b in
      if n = 92 then [char_of (92 :: nat), char_of (92 :: nat)]
      else if n = 34 then [char_of (92 :: nat), char_of (34 :: nat)]
      else if n = 10 then [char_of (92 :: nat), CHR ''n'']
      else if n = 13 then [char_of (92 :: nat), CHR ''r'']
      else if n = 9 then [char_of (92 :: nat), CHR ''t'']
      else if 0x20 \<le> n \<and> n \<le> 0x7e then [char_of n]
      else [char_of (92 :: nat), CHR ''x'', hex_digit (n div 16), hex_digit (n mod 16)])"

definition debug_key :: "bytes \<Rightarrow> string" where
  "debug_key key = char_of (34 :: nat) # concat (map debug_byte key) @ [char_of (34 :: nat)]"

section \<open>Prefix ranges are exact\<close>

text \<open>A key range as the range scans use it: inclusive start, optional exclusive end.\<close>

definition in_range :: "bytes \<Rightarrow> bytes option \<Rightarrow> bytes \<Rightarrow> bool" where
  "in_range start end k \<longleftrightarrow> start \<le> k \<and> (case end of None \<Rightarrow> True | Some e \<Rightarrow> k < e)"

lemma byte_le_ff: "(b :: u8) \<le> 0xff"
  using unat_byte_lt [of b] by (simp add: word_le_nat_alt)

lemma byte_less_Suc_iff: "(b :: u8) \<noteq> 0xff \<Longrightarrow> x < b + 1 \<longleftrightarrow> x \<le> b"
  using unat_byte_lt [of b]
  by (simp add: word_less_nat_alt word_le_nat_alt unat_word_ariths word_unat_eq_iff less_Suc_eq_le)

lemma ff_prefix_iff: "replicate n (0xff :: u8) \<le> k \<longleftrightarrow> prefix (replicate n 0xff) k"
proof (induction n arbitrary: k)
  case (Suc n)
  show ?case
  proof (cases k)
    case (Cons b bs)
    have "0xff < b \<longleftrightarrow> False" using byte_le_ff [of b] by (simp add: not_less)
    then show ?thesis using Suc Cons by auto
  qed simp
qed simp

lemma prefix_snoc_interval:
  fixes b :: u8
  assumes "b \<noteq> 0xff"
  shows "p @ b # replicate n 0xff \<le> k \<and> k < p @ [b + 1] \<longleftrightarrow> prefix (p @ b # replicate n 0xff) k"
proof (induction p arbitrary: k)
  case Nil
  show ?case
  proof (cases k)
    case (Cons c cs)
    have "c < b + 1 \<longleftrightarrow> c \<le> b" using assms by (rule byte_less_Suc_iff)
    then show ?thesis using Cons ff_prefix_iff [of n cs] by (auto simp: le_less)
  qed simp
next
  case (Cons x p)
  show ?case
  proof (cases k)
    case k: (Cons c cs)
    show ?thesis
    proof (cases "x = c")
      case True
      then show ?thesis using Cons.IH [of cs] k by simp
    next
      case False
      moreover have "\<not> (x < c \<and> c < x)" by (meson order_less_asym)
      ultimately show ?thesis using k by simp
    qed
  qed simp
qed

lemma prefix_end_loop_cases:
  "(prefix_end_loop r = None \<and> (\<exists>n. r = replicate n 0xff)) \<or>
   (\<exists>n b q. b \<noteq> 0xff \<and> r = replicate n 0xff @ b # q \<and> prefix_end_loop r = Some (rev q @ [b + 1]))"
proof (induction r)
  case (Cons x r)
  show ?case
  proof (cases "x = 0xff")
    case True
    from Cons show ?thesis
    proof
      assume "prefix_end_loop r = None \<and> (\<exists>n. r = replicate n 0xff)"
      with True have "prefix_end_loop (x # r) = None" "\<exists>n. x # r = replicate n 0xff"
        by (auto intro: exI [of _ "Suc _"])
      then show ?thesis by blast
    next
      assume "\<exists>n b q. b \<noteq> 0xff \<and> r = replicate n 0xff @ b # q \<and>
        prefix_end_loop r = Some (rev q @ [b + 1])"
      then obtain n b q where "b \<noteq> 0xff" "r = replicate n 0xff @ b # q"
        "prefix_end_loop r = Some (rev q @ [b + 1])" by blast
      with True have "x # r = replicate (Suc n) 0xff @ b # q"
        "prefix_end_loop (x # r) = Some (rev q @ [b + 1])" by auto
      with \<open>b \<noteq> 0xff\<close> show ?thesis by blast
    qed
  next
    case False
    then have "x # r = replicate 0 0xff @ x # r"
      "prefix_end_loop (x # r) = Some (rev r @ [x + 1])" by auto
    with False show ?thesis by blast
  qed
qed simp

lemma in_prefix_range_iff:
  "in_range (fst (prefix_range p)) (snd (prefix_range p)) k \<longleftrightarrow> prefix p k"
proof -
  consider n where "prefix_end_loop (rev p) = None" "p = replicate n 0xff"
    | n b q where "b \<noteq> 0xff" "rev p = replicate n 0xff @ b # q"
        "prefix_end_loop (rev p) = Some (rev q @ [b + 1])"
    using prefix_end_loop_cases [of "rev p"] by (auto simp: rev_swap)
  then show ?thesis
  proof cases
    case 1
    then have "prefix_end p = None" by (simp add: prefix_end_def)
    moreover have "p \<le> k \<longleftrightarrow> prefix p k"
      using ff_prefix_iff [of n k] 1(2) by simp
    ultimately show ?thesis by (simp add: prefix_range_def in_range_def)
  next
    case 2
    from 2(2) have p: "p = rev q @ b # replicate n 0xff"
      using 2(2) by (simp add: rev_swap)
    then have "prefix_end p = Some (rev q @ [b + 1])"
      using 2(3) by (simp add: prefix_end_def)
    then show ?thesis
      using prefix_snoc_interval [OF 2(1), of "rev q" n k] by (simp add: prefix_range_def in_range_def p)
  qed
qed

text \<open>
  C6 (\<open>prefix_end\<close>, \<open>prefix_range\<close>).  The half-open range computed for a prefix holds
  exactly the keys that have the prefix: no key with the prefix is outside it and no
  other key is inside, also when the upper bound is absent.
\<close>

theorem prefix_range_exact:
  "in_range (fst (prefix_range p)) (snd (prefix_range p)) k \<longleftrightarrow> prefix p k"
  by (rule in_prefix_range_iff)

section \<open>Order-preserving encodings\<close>

text \<open>
  What the store relies on when keys are built from typed values: comparing encoded keys
  compares the values.  \<open>less\<close> is the order of the value type.
\<close>

locale ordered_key =
  fixes enc :: "'a \<Rightarrow> bytes"
    and less :: "'a \<Rightarrow> 'a \<Rightarrow> bool"
  assumes enc_less_iff: "enc a < enc b \<longleftrightarrow> less a b"
    and less_total: "a \<noteq> b \<Longrightarrow> less a b \<or> less b a"
begin

lemma enc_inject: "enc a = enc b \<longleftrightarrow> a = b"
  using enc_less_iff [of a b] enc_less_iff [of b a] less_total [of a b] by auto

lemma enc_le_iff: "enc a \<le> enc b \<longleftrightarrow> less a b \<or> a = b"
  by (simp add: le_less enc_less_iff enc_inject)

lemma enc_in_range_iff:
  "in_range (enc a) (Some (enc b)) (enc x) \<longleftrightarrow> (less a x \<or> a = x) \<and> less x b"
  by (simp add: in_range_def enc_le_iff enc_less_iff)

lemma sorted_map_enc: "sorted_wrt less xs \<Longrightarrow> sorted_wrt (<) (map enc xs)"
  by (simp add: sorted_wrt_map enc_less_iff)

end

lemma unat_pow_bound:
  "unat (a :: u64) < 256 ^ 8" "unat (c :: u128) < 256 ^ 16"
  using unsigned_less [of a, where 'a = nat] unsigned_less [of c, where 'a = nat] by simp_all

lemma xor_top_bit_eq_add:
  fixes w :: "'a :: len word"
  assumes "Suc n = LENGTH('a)"
  shows "w XOR 2 ^ n = w + 2 ^ n"
proof (cases "bit w n")
  case True
  have "w XOR 2 ^ n = unset_bit n w"
    using True by (auto intro!: bit_word_eqI simp: bit_simps)
  also have "\<dots> = w - 2 ^ n"
    using True by (simp add: unset_bit_eq)
  also have "\<dots> = w + 2 ^ n"
  proof -
    have "(2 :: 'a word) ^ n + 2 ^ n = 2 ^ LENGTH('a)"
      by (simp flip: assms)
    then have "(2 :: 'a word) ^ n + 2 ^ n = 0" by simp
    then have "- ((2 :: 'a word) ^ n) = 2 ^ n"
      by (metis add_eq_0_iff minus_minus)
    then show ?thesis by (metis diff_conv_add_uminus)
  qed
  finally show ?thesis .
next
  case False
  have "w XOR 2 ^ n = set_bit n w"
    using False assms by (auto intro!: bit_word_eqI simp: bit_simps)
  also have "\<dots> = w + 2 ^ n"
    using False assms by (simp add: set_bit_eq)
  finally show ?thesis .
qed

lemma uint_add_top_bit:
  fixes w :: "'a :: len word"
  assumes "Suc n = LENGTH('a)"
  shows "uint (w + 2 ^ n) = sint w + 2 ^ n"
proof -
  have "uint (w + 2 ^ n) = take_bit LENGTH('a) (uint w + 2 ^ n)"
    by transfer (simp add: take_bit_eq_mod mod_simps)
  also have "\<dots> = take_bit (Suc n) (uint w + 2 ^ n)"
    using assms by simp
  also have "\<dots> = signed_take_bit n (uint w) + 2 ^ n"
    by (simp add: signed_take_bit_eq_take_bit_shift)
  also have "signed_take_bit n (uint w) = sint w"
    by (simp add: sint_uint flip: assms)
  finally show ?thesis .
qed

lemma sless_iff_flip_less:
  fixes a b :: "'a :: len word"
  assumes "Suc n = LENGTH('a)"
  shows "a XOR 2 ^ n < b XOR 2 ^ n \<longleftrightarrow> a <s b"
  by (simp add: xor_top_bit_eq_add [OF assms] word_less_def uint_add_top_bit [OF assms] word_sless_alt)

interpretation u64k: ordered_key u64_key "(<)"
  by unfold_locales
    (auto simp: u64_key_def to_be_bytes64_def nat_be_less_iff [OF unat_pow_bound(1) unat_pow_bound(1)]
      word_less_nat_alt word_unat_eq_iff)

interpretation u128k: ordered_key u128_key "(<)"
  by unfold_locales
    (auto simp: u128_key_def to_be_bytes128_def nat_be_less_iff [OF unat_pow_bound(2) unat_pow_bound(2)]
      word_less_nat_alt word_unat_eq_iff)

interpretation i64k: ordered_key i64_key "(<s)"
proof
  fix a b :: u64
  show "i64_key a < i64_key b \<longleftrightarrow> a <s b"
    using u64k.enc_less_iff [of "a XOR push_bit 63 1" "b XOR push_bit 63 1"]
      sless_iff_flip_less [of 63 a b] by (simp add: i64_key_def u64_key_def)
  show "a \<noteq> b \<Longrightarrow> a <s b \<or> b <s a"
    by (metis signed.neqE)
qed

interpretation i128k: ordered_key i128_key "(<s)"
proof
  fix a b :: u128
  show "i128_key a < i128_key b \<longleftrightarrow> a <s b"
    using u128k.enc_less_iff [of "a XOR push_bit 127 1" "b XOR push_bit 127 1"]
      sless_iff_flip_less [of 127 a b] by (simp add: i128_key_def u128_key_def)
  show "a \<noteq> b \<Longrightarrow> a <s b \<or> b <s a"
    by (metis signed.neqE)
qed

interpretation tsk: ordered_key timestamp_millis_key "(<)"
  by unfold_locales (auto simp: timestamp_millis_key_def u64k.enc_less_iff)

text \<open>
  C7 (\<open>u64_key\<close>, \<open>u128_key\<close>, \<open>i64_key\<close>, \<open>i128_key\<close>, \<open>timestamp_millis_key\<close>).  Byte order of the
  encoded keys is numeric order of the values, unsigned for the unsigned keys and the timestamps and
  signed for the signed ones (the sign bit is flipped before encoding), and no two values share a key.
\<close>

theorem numeric_keys_ordered:
  "(u64_key a < u64_key b \<longleftrightarrow> a < b) \<and> (u128_key c < u128_key d \<longleftrightarrow> c < d) \<and>
   (i64_key a < i64_key b \<longleftrightarrow> sint a < sint b) \<and> (i128_key c < i128_key d \<longleftrightarrow> sint c < sint d) \<and>
   (timestamp_millis_key a < timestamp_millis_key b \<longleftrightarrow> a < b) \<and>
   inj u64_key \<and> inj u128_key \<and> inj i64_key \<and> inj i128_key \<and> inj timestamp_millis_key"
  by (simp add: u64k.enc_less_iff u128k.enc_less_iff i64k.enc_less_iff i128k.enc_less_iff tsk.enc_less_iff word_sless_alt
      inj_def u64k.enc_inject u128k.enc_inject i64k.enc_inject i128k.enc_inject tsk.enc_inject)

section \<open>Composite keys\<close>

definition composite :: "bytes list \<Rightarrow> bytes" where
  "composite segments = kb_finish (fold push_segment segments kb_new)"

lemma encode_segment_simps [simp]:
  "encode_segment [] = [0, 0]"
  "encode_segment (b # bs) = (if b = 0 then [0, 0xff] else [b]) @ encode_segment bs"
  by (simp_all add: encode_segment_def encode_segment_into_def)

lemma encode_segment_eq: "encode_segment s = encode_segment_prefix s @ [0, 0]"
  by (simp add: encode_segment_def encode_segment_into_def)

lemma fold_push_segment:
  "kb_bytes (fold push_segment segs kb) = kb_bytes kb @ concat (map encode_segment segs)"
  by (induction segs arbitrary: kb)
    (simp_all add: push_segment_def encode_segment_into_def encode_segment_def)

lemma composite_eq: "composite segs = concat (map encode_segment segs)"
  by (simp add: composite_def kb_finish_def kb_new_def fold_push_segment)

lemma composite_simps [simp]:
  "composite [] = []"
  "composite (x # xs) = encode_segment x @ composite xs"
  by (simp_all add: composite_eq)

lemma encode_segment_append_less_iff:
  "encode_segment a @ u < encode_segment b @ v \<longleftrightarrow> a < b \<or> (a = b \<and> u < v)"
proof (induction a arbitrary: b)
  case Nil
  show ?case by (cases b) (auto simp: word_neq_0_conv)
next
  case (Cons x a)
  show ?case
  proof (cases b)
    case (Cons y b')
    then show ?thesis using Cons.IH [of b'] by (auto simp: word_neq_0_conv)
  qed (auto simp: word_neq_0_conv)
qed

lemma encode_segment_not_Nil [simp]: "encode_segment a \<noteq> []"
  by (cases a) auto

lemma composite_less_iff: "composite xs < composite ys \<longleftrightarrow> xs < ys"
proof (induction xs arbitrary: ys)
  case Nil
  show ?case by (cases ys) (auto simp: Nil_less_Cons neq_Nil_conv, metis Nil_less_Cons neq_Nil_conv append_Cons encode_segment_not_Nil)
next
  case (Cons x xs)
  then show ?case by (cases ys) (auto simp: encode_segment_append_less_iff)
qed

interpretation compk: ordered_key composite "(<)"
  by unfold_locales (auto simp: composite_less_iff)

lemma encode_segment_append_eq_iff:
  "encode_segment a @ u = encode_segment b @ v \<longleftrightarrow> a = b \<and> u = v"
proof -
  have "encode_segment a @ u = encode_segment b @ v \<longleftrightarrow>
      \<not> encode_segment a @ u < encode_segment b @ v \<and> \<not> encode_segment b @ v < encode_segment a @ u"
    by auto
  then show ?thesis by (auto simp: encode_segment_append_less_iff)
qed

lemma prefix_composite_iff: "prefix (composite xs) (composite ys) \<longleftrightarrow> prefix xs ys"
proof (induction xs arbitrary: ys)
  case (Cons x xs)
  show ?case
  proof (cases ys)
    case (Cons y ys')
    have "prefix (composite (x # xs)) (composite (y # ys')) \<longleftrightarrow>
        x = y \<and> prefix (composite xs) (composite ys')"
      by (auto simp: prefix_def encode_segment_append_eq_iff)
    then show ?thesis using Cons.IH [of ys'] Cons by simp
  qed simp
qed simp

text \<open>
  C8 (\<open>KeyBuilder\<close>, \<open>push_segment\<close>, \<open>prefix_range\<close>).  Composite keys are segment-safe:
  they compare as the lists of their segments do, and scanning the prefix range of a
  composite key returns exactly the keys whose leading segments are its segments, so a
  segment is never mistaken for the beginning of a longer one.
\<close>

theorem composite_keys_segment_safe:
  "(composite xs < composite ys \<longleftrightarrow> xs < ys) \<and>
   (in_range (fst (prefix_range (composite xs))) (snd (prefix_range (composite xs))) (composite ys)
      \<longleftrightarrow> prefix xs ys)"
proof -
  have "in_range (fst (prefix_range (composite xs))) (snd (prefix_range (composite xs))) (composite ys)
      \<longleftrightarrow> prefix (composite xs) (composite ys)"
    by (rule in_prefix_range_iff)
  then show ?thesis by (simp add: composite_less_iff prefix_composite_iff)
qed

lemma decode_loop_encode_segment:
  "decode_loop (encode_segment s @ rest) off cur segs =
     decode_loop rest (off + length (encode_segment s)) [] (segs @ [cur @ s])"
proof (induction s arbitrary: off cur)
  case (Cons b s)
  then show ?case by (cases "b = 0") (simp_all add: add.assoc)
qed simp

lemma decode_loop_composite:
  "decode_loop (composite segs) off [] acc = Inr (acc @ segs)"
  by (induction segs arbitrary: off acc) (simp_all add: decode_loop_encode_segment)

lemma decode_loop_Inr:
  "decode_loop key off cur acc = Inr segs \<Longrightarrow>
     \<exists>s. segs = acc @ s \<and> encode_segment_prefix cur @ key = composite s"
proof (induction key off cur acc rule: decode_loop.induct)
  case (1 off cur acc)
  then show ?case by (auto split: if_splits intro: exI [of _ "[]"])
next
  case (2 byte rest off cur acc)
  have snoc: "encode_segment_prefix (xs @ ys) = encode_segment_prefix xs @ encode_segment_prefix ys" for xs ys
    by (induction xs) auto
  show ?case
  proof (cases "byte = 0")
    case False
    with 2 show ?thesis by (fastforce simp: snoc)
  next
    case True
    show ?thesis
    proof (cases rest)
      case Nil
      with 2 True show ?thesis by simp
    next
      case (Cons m rest')
      consider "m = 0" | "m = 0xff" | "m \<noteq> 0" "m \<noteq> 0xff" by blast
      then show ?thesis
      proof cases
        case 1
        with 2 True Cons obtain s where "segs = (acc @ [cur]) @ s" "rest' = composite s" by auto
        then have "segs = acc @ (cur # s)" "encode_segment_prefix cur @ byte # rest = composite (cur # s)"
          using True Cons 1 by (simp_all add: encode_segment_eq)
        then show ?thesis by blast
      next
        case 2
        with "2.IH" "2.prems" True Cons show ?thesis by (fastforce simp: snoc)
      next
        case 3
        with "2.prems" True Cons show ?thesis by simp
      qed
    qed
  qed
qed

text \<open>
  C9 (\<open>decode_segments\<close>).  Decoding is the exact inverse of building a composite key: it
  accepts a byte string if and only if it is the encoding of some list of segments, and
  then returns that list.
\<close>

theorem decode_segments_iff: "decode_segments key = Inr segs \<longleftrightarrow> key = composite segs"
proof
  assume "decode_segments key = Inr segs"
  then show "key = composite segs"
    using decode_loop_Inr [of key 0 "[]" "[]" segs] by (auto simp: decode_segments_def)
next
  assume "key = composite segs"
  then show "decode_segments key = Inr segs"
    by (simp add: decode_segments_def decode_loop_composite)
qed

end
