(* ===== verification/Cursor.thy ===== *)
theory Cursor
  imports Prelude
begin

text \<open>
  Reading bytes in order.  The tree-format decoder (\<open>FormatCursor\<close>) and the node decoder
  (\<open>CompactCursor\<close>) both keep an immutable byte slice and a position; the model keeps the
  bytes from the position on and the position itself.  A reader takes a cursor and returns
  an error or a value with the advanced cursor; \<open>cbind\<close> runs one reader after another, as
  successive statements ending in \<open>?\<close> do.  The predicate \<open>parses f bs x\<close> says that reader
  \<open>f\<close> consumes exactly the bytes \<open>bs\<close> and yields \<open>x\<close>; it composes along \<open>cbind\<close>, which is
  how every round trip of the development is proved.
\<close>

record cursor =
  remaining :: bytes
  position :: nat

type_synonym ('e, 'a) reader = "cursor \<Rightarrow> 'e + ('a \<times> cursor)"

definition cursor_new :: "bytes \<Rightarrow> cursor" where
  "cursor_new data = \<lparr>remaining = data, position = 0\<rparr>"

definition creturn :: "'a \<Rightarrow> ('e, 'a) reader" where
  "creturn x c = Inr (x, c)"

definition cfail :: "'e \<Rightarrow> ('e, 'a) reader" where
  "cfail e c = Inl e"

definition cbind :: "('e, 'a) reader \<Rightarrow> ('a \<Rightarrow> ('e, 'b) reader) \<Rightarrow> ('e, 'b) reader" where
  "cbind f g c = (case f c of Inl e \<Rightarrow> Inl e | Inr (x, c') \<Rightarrow> g x c')"

definition cposition :: "('e, nat) reader" where
  "cposition c = Inr (position c, c)"

definition cursor_done :: "cursor \<Rightarrow> bool" where
  "cursor_done c \<longleftrightarrow> remaining c = []"

text \<open>Reading \<open>len\<close> bytes: the end of the range must not overflow and must be in the slice.\<close>

definition cursor_read :: "'e \<Rightarrow> 'e \<Rightarrow> nat \<Rightarrow> ('e, bytes) reader" where
  "cursor_read overflow truncated len c =
     (if 2 ^ 64 \<le> position c + len then Inl overflow
      else if length (remaining c) < len then Inl truncated
      else Inr (take len (remaining c),
        \<lparr>remaining = drop len (remaining c), position = position c + len\<rparr>))"

section \<open>Composing readers\<close>

definition parses :: "('e, 'a) reader \<Rightarrow> bytes \<Rightarrow> 'a \<Rightarrow> bool" where
  "parses f bs x \<longleftrightarrow>
     (\<forall>rest p. p + length bs + length rest < 2 ^ 64 \<longrightarrow>
        f \<lparr>remaining = bs @ rest, position = p\<rparr> = Inr (x, \<lparr>remaining = rest, position = p + length bs\<rparr>))"

named_theorems parses_intros

lemma parsesD:
  "parses f bs x \<Longrightarrow> p + length bs + length rest < 2 ^ 64 \<Longrightarrow>
     f \<lparr>remaining = bs @ rest, position = p\<rparr> = Inr (x, \<lparr>remaining = rest, position = p + length bs\<rparr>)"
  by (simp add: parses_def)

lemma parses_return [parses_intros]: "parses (creturn x) [] x"
  by (simp add: parses_def creturn_def)

lemma parses_return_eq: "x = y \<Longrightarrow> parses (creturn x) [] y"
  by (simp add: parses_return)

lemma parses_bind:
  assumes "parses f bs x" "parses (g x) cs y"
  shows "parses (cbind f g) (bs @ cs) y"
  unfolding parses_def
proof (intro allI impI)
  fix rest :: bytes and p :: nat
  assume b: "p + length (bs @ cs) + length rest < 2 ^ 64"
  have "f \<lparr>remaining = bs @ (cs @ rest), position = p\<rparr>
      = Inr (x, \<lparr>remaining = cs @ rest, position = p + length bs\<rparr>)"
    by (rule parsesD [OF assms(1)]) (use b in simp)
  moreover have "g x \<lparr>remaining = cs @ rest, position = p + length bs\<rparr>
      = Inr (y, \<lparr>remaining = rest, position = p + length bs + length cs\<rparr>)"
    by (rule parsesD [OF assms(2)]) (use b in simp)
  ultimately show "cbind f g \<lparr>remaining = (bs @ cs) @ rest, position = p\<rparr>
      = Inr (y, \<lparr>remaining = rest, position = p + length (bs @ cs)\<rparr>)"
    by (simp add: cbind_def add.assoc)
qed

lemma parses_bind_last:
  assumes "parses f bs x" "parses (g x) [] y"
  shows "parses (cbind f g) bs y"
  using assms parses_bind [of f bs x g "[]" y] by simp

lemma parses_bind_first:
  assumes "parses f [] x" "parses (g x) cs y"
  shows "parses (cbind f g) cs y"
  using assms parses_bind [of f "[]" x g cs y] by simp

lemma parses_Cons:
  assumes "parses f [b] x" "parses (g x) cs y"
  shows "parses (cbind f g) (b # cs) y"
  using assms parses_bind [of f "[b]" x g cs y] by simp

lemma parses_read: "length bs = len \<Longrightarrow> parses (cursor_read ov tr len) bs bs"
  by (simp add: parses_def cursor_read_def)

lemma parses_all:
  assumes "parses f bs x" "length bs < 2 ^ 64"
  shows "f (cursor_new bs) = Inr (x, \<lparr>remaining = [], position = length bs\<rparr>)"
  using parsesD [OF assms(1), of 0 "[]"] assms(2) by (simp add: cursor_new_def)

section \<open>Inverting readers\<close>

lemma cbind_InrE:
  assumes "cbind f g c = Inr (y, c'')"
  obtains x c' where "f c = Inr (x, c')" "g x c' = Inr (y, c'')"
  using assms by (auto simp: cbind_def split: sum.splits prod.splits)

lemma creturn_Inr [simp]: "creturn x c = Inr (y, c') \<longleftrightarrow> x = y \<and> c = c'"
  by (simp add: creturn_def)

lemma cfail_not_Inr [simp]: "cfail e c \<noteq> Inr r"
  by (simp add: cfail_def)

lemma cursor_read_Inr:
  assumes "cursor_read ov tr len c = Inr (bs, c')"
  shows "length bs = len" "remaining c = bs @ remaining c'" "position c' = position c + len"
    "position c' < 2 ^ 64"
  using assms by (auto simp: cursor_read_def split: if_splits)

end
