(* ===== verification/Errors.thy ===== *)
theory Errors
  imports Prelude
begin

text \<open>
  Errors, logical mutations and differences (\<^verbatim>\<open>src/src/prolly/error.rs\<close>), and content
  identifiers (\<^verbatim>\<open>src/src/prolly/cid.rs\<close>).  A content identifier is its 32 bytes; the hash
  that produces it (SHA-256 of the \<open>sha2\<close> crate) is a parameter \<open>sha256\<close> of every
  definition that uses it.  Messages interpolated with run-time values keep their fixed
  text only.  The variants of \<open>Error\<close> that only the unmodelled layers (secondary indexes,
  transactions, proximity maps) raise are left out, and \<open>Panic\<close>, which the Rust type does
  not have, is the outcome of a computation that panics.
\<close>

type_synonym cid = bytes
type_synonym hash256 = "bytes \<Rightarrow> bytes"

definition cid_from_bytes :: "hash256 \<Rightarrow> bytes \<Rightarrow> cid" where
  "cid_from_bytes sha256 data = sha256 data"

datatype mutation =
  Upsert bytes bytes
| Delete bytes

primrec mutation_key :: "mutation \<Rightarrow> bytes" where
  "mutation_key (Upsert key val) = key"
| "mutation_key (Delete key) = key"

primrec is_delete :: "mutation \<Rightarrow> bool" where
  "is_delete (Upsert key val) = False"
| "is_delete (Delete key) = True"

datatype diff =
  Added bytes bytes
| Removed bytes bytes
| Changed bytes bytes bytes

primrec diff_key :: "diff \<Rightarrow> bytes" where
  "diff_key (Added key val) = key"
| "diff_key (Removed key val) = key"
| "diff_key (Changed key old new) = key"

record conflict =
  cf_key :: bytes
  cf_base :: "bytes option"
  cf_left :: "bytes option"
  cf_right :: "bytes option"

datatype resolution =
  RValue bytes
| RDelete
| RUnresolved

type_synonym resolver = "conflict \<Rightarrow> resolution"

definition prefer_left :: resolver where
  "prefer_left c = (case cf_left c of Some v \<Rightarrow> RValue v | None \<Rightarrow> RDelete)"

definition prefer_right :: resolver where
  "prefer_right c = (case cf_right c of Some v \<Rightarrow> RValue v | None \<Rightarrow> RDelete)"

definition delete_wins :: resolver where
  "delete_wins c = (if cf_left c = None \<or> cf_right c = None then RDelete else RUnresolved)"

definition update_wins :: resolver where
  "update_wins c =
     (case (cf_left c, cf_right c) of
        (Some v, None) \<Rightarrow> RValue v
      | (None, Some v) \<Rightarrow> RValue v
      | _ \<Rightarrow> RUnresolved)"

datatype error =
  NotFound cid
| InvalidNode
| InvalidFormat string
| InvalidExecutionConfig string nat
| FormatMismatch cid cid
| EntryTooLarge u64 u64
| Deserialize string
| StoreError string
| CidMismatch cid cid
| ConflictError conflict
| BufferFull
| UnsortedInput bytes bytes
| DuplicateMutation bytes
| Panic string

end
