(* ===== verification/Tree_Format.thy ===== *)
theory Tree_Format
  imports Cursor Errors
begin

text \<open>
  The persisted tree format (\<^verbatim>\<open>src/src/prolly/format.rs\<close>, \<^verbatim>\<open>encoding.rs\<close>, \<^verbatim>\<open>chunking.rs\<close>,
  \<^verbatim>\<open>config.rs\<close>): the chunking policy, the node layout and the value encoding, their
  validation, and the canonical descriptor bytes with their decoder.  A Rust \<open>String\<close> is
  the list of its UTF-8 bytes; \<open>valid_utf8\<close> is the check of \<open>String::from_utf8\<close>.
\<close>

section \<open>Definitions\<close>

datatype encoding = Raw | Cbor | Json | CustomEncoding bytes

datatype chunk_measure = EntryCount | LogicalBytes | EncodedBytes

datatype boundary_input = Key | KeyValue

datatype hash_algorithm = XxHash64

datatype boundary_rule =
  HashThreshold u32
| Weibull u32
| RollingBuzHash u16

record chunking_spec =
  cs_measure :: chunk_measure
  cs_input :: boundary_input
  cs_hash :: hash_algorithm
  cs_rule :: boundary_rule
  cs_min :: u64
  cs_target :: u64
  cs_max :: u64
  cs_hash_seed :: u64
  cs_level_salt :: bool
  cs_hard_max_node_bytes :: u64

definition default_hash_seed :: u64 where "default_hash_seed = 0"
definition default_min_chunk_size :: u64 where "default_min_chunk_size = 4"
definition default_max_chunk_size :: u64 where "default_max_chunk_size = 1024 * 1024"
definition default_chunking_factor :: u32 where "default_chunking_factor = 128"

definition chunking_default :: chunking_spec where
  "chunking_default =
     \<lparr>cs_measure = EntryCount, cs_input = Key, cs_hash = XxHash64,
      cs_rule = HashThreshold default_chunking_factor, cs_min = default_min_chunk_size,
      cs_target = ucast default_chunking_factor, cs_max = default_max_chunk_size,
      cs_hash_seed = default_hash_seed, cs_level_salt = True,
      cs_hard_max_node_bytes = 16 * 1024 * 1024\<rparr>"

definition chunking_validate :: "chunking_spec \<Rightarrow> error + unit" where
  "chunking_validate s =
     (if cs_min s = 0 \<or> cs_min s > cs_target s \<or> cs_target s > cs_max s then
        Inl (InvalidFormat ''chunk bounds must satisfy 0 < min <= target <= max'')
      else if cs_hard_max_node_bytes s = 0 then
        Inl (InvalidFormat ''hard maximum node bytes must be nonzero'')
      else case cs_rule s of
        HashThreshold factor \<Rightarrow>
          if factor = 0 then Inl (InvalidFormat ''hash threshold factor must be nonzero'') else Inr ()
      | Weibull shape \<Rightarrow>
          if \<not> (shape = 1 \<or> shape = 2) then Inl (InvalidFormat ''Weibull shape must be 1 or 2'')
          else Inr ()
      | RollingBuzHash window \<Rightarrow>
          if window = 0 then Inl (InvalidFormat ''rolling hash window must be nonzero'') else Inr ())"

datatype node_layout_spec =
  PrefixCompressed
| Plain
| OffsetTable
| CustomLayout bytes bytes

record tree_format =
  tf_chunking :: chunking_spec
  tf_node_layout :: node_layout_spec
  tf_value_encoding :: encoding

definition tree_format_default :: tree_format where
  "tree_format_default =
     \<lparr>tf_chunking = chunking_default, tf_node_layout = PrefixCompressed, tf_value_encoding = Raw\<rparr>"

definition format_validate :: "tree_format \<Rightarrow> error + unit" where
  "format_validate f =
     and_then (chunking_validate (tf_chunking f)) (\<lambda>_.
     case tf_node_layout f of
       CustomLayout ident parameters \<Rightarrow>
         if ident = [] then Inl (InvalidFormat ''custom node layout identifier cannot be empty'')
         else Inr ()
     | _ \<Rightarrow> Inr ())"

subsection \<open>Built-in policies\<close>

definition entry_count_key_value_hash :: chunking_spec where
  "entry_count_key_value_hash =
     \<lparr>cs_measure = EntryCount, cs_input = KeyValue, cs_hash = XxHash64,
      cs_rule = HashThreshold default_chunking_factor, cs_min = default_min_chunk_size,
      cs_target = ucast default_chunking_factor, cs_max = default_max_chunk_size,
      cs_hash_seed = default_hash_seed, cs_level_salt = False,
      cs_hard_max_node_bytes = 16 * 1024 * 1024\<rparr>"

definition entry_count_key_hash :: chunking_spec where
  "entry_count_key_hash = chunking_default"

definition logical_bytes_key_weibull :: chunking_spec where
  "logical_bytes_key_weibull =
     \<lparr>cs_measure = LogicalBytes, cs_input = Key, cs_hash = XxHash64, cs_rule = Weibull 2,
      cs_min = 4 * 1024, cs_target = 16 * 1024, cs_max = 64 * 1024,
      cs_hash_seed = default_hash_seed, cs_level_salt = True,
      cs_hard_max_node_bytes = 16 * 1024 * 1024\<rparr>"

definition logical_bytes_rolling_hash :: chunking_spec where
  "logical_bytes_rolling_hash =
     \<lparr>cs_measure = LogicalBytes, cs_input = Key, cs_hash = XxHash64, cs_rule = RollingBuzHash 64,
      cs_min = 4 * 1024, cs_target = 16 * 1024, cs_max = 64 * 1024,
      cs_hash_seed = default_hash_seed, cs_level_salt = True,
      cs_hard_max_node_bytes = 16 * 1024 * 1024\<rparr>"

subsection \<open>Encoding\<close>

definition format_magic :: bytes where "format_magic = [0x43, 0x52, 0x46, 0x54]"
definition format_version :: u8 where "format_version = 1"

definition encode_rule :: "boundary_rule \<Rightarrow> bytes" where
  "encode_rule r =
     (case r of
        HashThreshold factor \<Rightarrow> 0 # to_be_bytes32 factor
      | Weibull shape \<Rightarrow> 1 # to_be_bytes32 shape
      | RollingBuzHash window \<Rightarrow> 2 # to_be_bytes16 window)"

definition encode_chunking :: "chunking_spec \<Rightarrow> bytes" where
  "encode_chunking s =
     [case cs_measure s of EntryCount \<Rightarrow> 0 | LogicalBytes \<Rightarrow> 1 | EncodedBytes \<Rightarrow> 2] @
     [case cs_input s of Key \<Rightarrow> 0 | KeyValue \<Rightarrow> 1] @
     [case cs_hash s of XxHash64 \<Rightarrow> 0] @
     encode_rule (cs_rule s) @
     to_be_bytes64 (cs_min s) @ to_be_bytes64 (cs_target s) @ to_be_bytes64 (cs_max s) @
     to_be_bytes64 (cs_hash_seed s) @
     [of_bool (cs_level_salt s)] @
     to_be_bytes64 (cs_hard_max_node_bytes s)"

definition encode_bytes :: "bytes \<Rightarrow> bytes" where
  "encode_bytes bs = to_be_bytes64 (of_nat (length bs)) @ bs"

definition encode_layout :: "node_layout_spec \<Rightarrow> bytes" where
  "encode_layout l =
     (case l of
        PrefixCompressed \<Rightarrow> [0]
      | Plain \<Rightarrow> [1]
      | OffsetTable \<Rightarrow> [2]
      | CustomLayout ident parameters \<Rightarrow> 3 # encode_bytes ident @ encode_bytes parameters)"

definition encode_value_encoding :: "encoding \<Rightarrow> bytes" where
  "encode_value_encoding e =
     (case e of
        Raw \<Rightarrow> [0]
      | Cbor \<Rightarrow> [1]
      | Json \<Rightarrow> [2]
      | CustomEncoding name \<Rightarrow> 3 # encode_bytes name)"

definition canonical_bytes :: "tree_format \<Rightarrow> error + bytes" where
  "canonical_bytes f =
     and_then (format_validate f) (\<lambda>_.
     Inr (format_magic @ [format_version] @ encode_chunking (tf_chunking f) @
       encode_layout (tf_node_layout f) @ encode_value_encoding (tf_value_encoding f)))"

definition format_digest :: "hash256 \<Rightarrow> tree_format \<Rightarrow> error + cid" where
  "format_digest sha256 f = and_then (canonical_bytes f) (\<lambda>bs. Inr (cid_from_bytes sha256 bs))"

subsection \<open>Decoding\<close>

text \<open>The well-formed UTF-8 sequences, as \<open>String::from_utf8\<close> accepts them.\<close>

definition byte_in :: "u8 \<Rightarrow> u8 \<Rightarrow> u8 \<Rightarrow> bool" where
  "byte_in lo hi b \<longleftrightarrow> lo \<le> b \<and> b \<le> hi"

fun valid_utf8 :: "bytes \<Rightarrow> bool" where
  "valid_utf8 [] = True"
| "valid_utf8 (a # r) =
     (if a \<le> 0x7f then valid_utf8 r
      else if byte_in 0xc2 0xdf a then
        (case r of b # r' \<Rightarrow> byte_in 0x80 0xbf b \<and> valid_utf8 r' | _ \<Rightarrow> False)
      else if byte_in 0xe0 0xef a then
        (case r of b # c # r' \<Rightarrow>
           byte_in (if a = 0xe0 then 0xa0 else 0x80) (if a = 0xed then 0x9f else 0xbf) b \<and>
           byte_in 0x80 0xbf c \<and> valid_utf8 r'
         | _ \<Rightarrow> False)
      else if byte_in 0xf0 0xf4 a then
        (case r of b # c # d # r' \<Rightarrow>
           byte_in (if a = 0xf0 then 0x90 else 0x80) (if a = 0xf4 then 0x8f else 0xbf) b \<and>
           byte_in 0x80 0xbf c \<and> byte_in 0x80 0xbf d \<and> valid_utf8 r'
         | _ \<Rightarrow> False)
      else False)"

definition fread :: "nat \<Rightarrow> (error, bytes) reader" where
  "fread = cursor_read (InvalidFormat ''tree format offset overflow'') (InvalidFormat ''truncated tree format'')"

definition fexpect :: "bytes \<Rightarrow> (error, unit) reader" where
  "fexpect expected = cbind (fread (length expected)) (\<lambda>bs.
     if bs \<noteq> expected then cfail (InvalidFormat ''invalid tree format magic'') else creturn ())"

definition fread_u8 :: "(error, u8) reader" where
  "fread_u8 = cbind (fread 1) (\<lambda>bs. creturn (bs ! 0))"

definition fread_u16 :: "(error, u16) reader" where
  "fread_u16 = cbind (fread 2) (\<lambda>bs. creturn (of_nat (be_nat bs)))"

definition fread_u32 :: "(error, u32) reader" where
  "fread_u32 = cbind (fread 4) (\<lambda>bs. creturn (of_nat (be_nat bs)))"

definition fread_u64 :: "(error, u64) reader" where
  "fread_u64 = cbind (fread 8) (\<lambda>bs. creturn (of_nat (be_nat bs)))"

definition fread_vec :: "(error, bytes) reader" where
  "fread_vec = cbind fread_u64 (\<lambda>len. fread (unat len))"

definition fread_string :: "(error, bytes) reader" where
  "fread_string = cbind fread_vec (\<lambda>bs.
     if valid_utf8 bs then creturn bs else cfail (InvalidFormat ''tree format string is not UTF-8''))"

definition fread_measure :: "(error, chunk_measure) reader" where
  "fread_measure = cbind fread_u8 (\<lambda>t.
     if t = 0 then creturn EntryCount
     else if t = 1 then creturn LogicalBytes
     else if t = 2 then creturn EncodedBytes
     else cfail (InvalidFormat ''invalid chunk measure''))"

definition fread_input :: "(error, boundary_input) reader" where
  "fread_input = cbind fread_u8 (\<lambda>t.
     if t = 0 then creturn Key
     else if t = 1 then creturn KeyValue
     else cfail (InvalidFormat ''invalid boundary input''))"

definition fread_hash :: "(error, hash_algorithm) reader" where
  "fread_hash = cbind fread_u8 (\<lambda>t.
     if t = 0 then creturn XxHash64 else cfail (InvalidFormat ''invalid hash algorithm''))"

definition fread_rule :: "(error, boundary_rule) reader" where
  "fread_rule = cbind fread_u8 (\<lambda>t.
     if t = 0 then cbind fread_u32 (\<lambda>factor. creturn (HashThreshold factor))
     else if t = 1 then cbind fread_u32 (\<lambda>shape. creturn (Weibull shape))
     else if t = 2 then cbind fread_u16 (\<lambda>window. creturn (RollingBuzHash window))
     else cfail (InvalidFormat ''invalid boundary rule''))"

definition fread_flag :: "(error, bool) reader" where
  "fread_flag = cbind fread_u8 (\<lambda>t.
     if t = 0 then creturn False
     else if t = 1 then creturn True
     else cfail (InvalidFormat ''invalid level salt flag''))"

definition fread_layout :: "(error, node_layout_spec) reader" where
  "fread_layout = cbind fread_u8 (\<lambda>t.
     if t = 0 then creturn PrefixCompressed
     else if t = 1 then creturn Plain
     else if t = 2 then creturn OffsetTable
     else if t = 3 then
       cbind fread_string (\<lambda>ident. cbind fread_vec (\<lambda>parameters. creturn (CustomLayout ident parameters)))
     else cfail (InvalidFormat ''invalid node layout''))"

definition fread_encoding :: "(error, encoding) reader" where
  "fread_encoding = cbind fread_u8 (\<lambda>t.
     if t = 0 then creturn Raw
     else if t = 1 then creturn Cbor
     else if t = 2 then creturn Json
     else if t = 3 then cbind fread_string (\<lambda>name. creturn (CustomEncoding name))
     else cfail (InvalidFormat ''invalid value encoding''))"

definition fread_chunking :: "(error, chunking_spec) reader" where
  "fread_chunking =
     cbind fread_measure (\<lambda>measure.
     cbind fread_input (\<lambda>input.
     cbind fread_hash (\<lambda>hash.
     cbind fread_rule (\<lambda>rule.
     cbind fread_u64 (\<lambda>mn.
     cbind fread_u64 (\<lambda>target.
     cbind fread_u64 (\<lambda>mx.
     cbind fread_u64 (\<lambda>seed.
     cbind fread_flag (\<lambda>salt.
     cbind fread_u64 (\<lambda>hard.
     creturn \<lparr>cs_measure = measure, cs_input = input, cs_hash = hash, cs_rule = rule,
       cs_min = mn, cs_target = target, cs_max = mx, cs_hash_seed = seed,
       cs_level_salt = salt, cs_hard_max_node_bytes = hard\<rparr>))))))))))"

definition fread_format :: "(error, tree_format) reader" where
  "fread_format =
     cbind (fexpect format_magic) (\<lambda>_.
     cbind fread_u8 (\<lambda>version.
     if version \<noteq> format_version then cfail (InvalidFormat ''unsupported tree format version'')
     else
       cbind fread_chunking (\<lambda>chunking.
       cbind fread_layout (\<lambda>layout.
       cbind fread_encoding (\<lambda>enc.
       creturn \<lparr>tf_chunking = chunking, tf_node_layout = layout, tf_value_encoding = enc\<rparr>)))))"

definition from_canonical_bytes :: "bytes \<Rightarrow> error + tree_format" where
  "from_canonical_bytes bs =
     and_then (fread_format (cursor_new bs)) (\<lambda>(f, c).
     if \<not> cursor_done c then Inl (InvalidFormat ''trailing tree format bytes'')
     else and_then (format_validate f) (\<lambda>_. Inr f))"

subsection \<open>Configuration\<close>

record runtime_config =
  rc_node_cache_max_nodes :: "nat option"
  rc_node_cache_max_bytes :: "nat option"
  rc_read_parallelism :: nat

record config =
  cfg_format :: tree_format
  cfg_runtime :: runtime_config

definition default_node_cache_max_bytes :: nat where
  "default_node_cache_max_bytes = 256 * 1024 * 1024"

definition default_read_parallelism :: nat where
  "default_read_parallelism = 16"

definition runtime_config_default :: runtime_config where
  "runtime_config_default =
     \<lparr>rc_node_cache_max_nodes = None, rc_node_cache_max_bytes = Some default_node_cache_max_bytes,
      rc_read_parallelism = default_read_parallelism\<rparr>"

definition config_default :: config where
  "config_default = \<lparr>cfg_format = tree_format_default, cfg_runtime = runtime_config_default\<rparr>"

definition set_chunking :: "(chunking_spec \<Rightarrow> chunking_spec) \<Rightarrow> config \<Rightarrow> config" where
  "set_chunking g cfg = cfg\<lparr>cfg_format := (cfg_format cfg)\<lparr>tf_chunking := g (tf_chunking (cfg_format cfg))\<rparr>\<rparr>"

definition config_min_chunk_size :: "u64 \<Rightarrow> config \<Rightarrow> config" where
  "config_min_chunk_size sz = set_chunking (\<lambda>s.
     s\<lparr>cs_min := sz, cs_target := max (cs_target s) sz, cs_max := max (cs_max s) sz\<rparr>)"

definition config_max_chunk_size :: "u64 \<Rightarrow> config \<Rightarrow> config" where
  "config_max_chunk_size sz = set_chunking (\<lambda>s.
     s\<lparr>cs_max := sz, cs_target := min (cs_target s) sz, cs_min := min (cs_min s) sz\<rparr>)"

definition config_chunking_factor :: "u32 \<Rightarrow> config \<Rightarrow> config" where
  "config_chunking_factor factor = set_chunking (\<lambda>s. s\<lparr>cs_rule := HashThreshold factor\<rparr>)"

definition config_hash_seed :: "u64 \<Rightarrow> config \<Rightarrow> config" where
  "config_hash_seed seed = set_chunking (\<lambda>s. s\<lparr>cs_hash_seed := seed\<rparr>)"

definition config_encoding :: "encoding \<Rightarrow> config \<Rightarrow> config" where
  "config_encoding enc cfg = cfg\<lparr>cfg_format := (cfg_format cfg)\<lparr>tf_value_encoding := enc\<rparr>\<rparr>"

definition config_chunking :: "chunking_spec \<Rightarrow> config \<Rightarrow> config" where
  "config_chunking s = set_chunking (\<lambda>_. s)"

definition config_node_layout :: "node_layout_spec \<Rightarrow> config \<Rightarrow> config" where
  "config_node_layout l cfg = cfg\<lparr>cfg_format := (cfg_format cfg)\<lparr>tf_node_layout := l\<rparr>\<rparr>"

definition config_format :: "tree_format \<Rightarrow> config \<Rightarrow> config" where
  "config_format f cfg = cfg\<lparr>cfg_format := f\<rparr>"

definition config_node_cache_max_nodes :: "nat \<Rightarrow> config \<Rightarrow> config" where
  "config_node_cache_max_nodes max_nodes cfg =
     cfg\<lparr>cfg_runtime := (cfg_runtime cfg)\<lparr>rc_node_cache_max_nodes := Some max_nodes\<rparr>\<rparr>"

definition config_node_cache_max_bytes :: "nat \<Rightarrow> config \<Rightarrow> config" where
  "config_node_cache_max_bytes max_bytes cfg =
     cfg\<lparr>cfg_runtime := (cfg_runtime cfg)\<lparr>rc_node_cache_max_bytes := Some max_bytes\<rparr>\<rparr>"

definition config_unbounded_node_cache :: "config \<Rightarrow> config" where
  "config_unbounded_node_cache cfg =
     cfg\<lparr>cfg_runtime := (cfg_runtime cfg)\<lparr>rc_node_cache_max_nodes := None, rc_node_cache_max_bytes := None\<rparr>\<rparr>"

definition config_read_parallelism :: "nat \<Rightarrow> config \<Rightarrow> config" where
  "config_read_parallelism parallelism cfg =
     cfg\<lparr>cfg_runtime := (cfg_runtime cfg)\<lparr>rc_read_parallelism := max parallelism 1\<rparr>\<rparr>"

definition chunking_factor :: "chunking_spec \<Rightarrow> u32" where
  "chunking_factor s =
     (case cs_rule s of
        HashThreshold factor \<Rightarrow> factor
      | _ \<Rightarrow> ucast (min (cs_target s) (ucast (- 1 :: u32))))"

section \<open>Reading what was written\<close>

lemma of_nat_be_nat_be:
  "of_nat (be_nat (nat_be 8 (unat (a :: u64)))) = a"
  "of_nat (be_nat (nat_be 4 (unat (b :: u32)))) = b"
  "of_nat (be_nat (nat_be 2 (unat (c :: u16)))) = c"
  using unsigned_less [of a, where 'a = nat] unsigned_less [of b, where 'a = nat]
    unsigned_less [of c, where 'a = nat]
  by (simp_all add: be_nat_nat_be)

lemma parses_fread: "length bs = n \<Longrightarrow> parses (fread n) bs bs"
  by (simp add: fread_def parses_read)

lemma parses_fread_u8: "parses fread_u8 [b] b"
  unfolding fread_u8_def by (rule parses_bind_last [OF parses_fread]) (simp_all add: parses_return)

lemma parses_fread_u16: "parses fread_u16 (to_be_bytes16 w) w"
  unfolding fread_u16_def to_be_bytes16_def
  by (rule parses_bind_last [OF parses_fread]) (simp_all add: parses_return of_nat_be_nat_be)

lemma parses_fread_u32: "parses fread_u32 (to_be_bytes32 w) w"
  unfolding fread_u32_def to_be_bytes32_def
  by (rule parses_bind_last [OF parses_fread]) (simp_all add: parses_return of_nat_be_nat_be)

lemma parses_fread_u64: "parses fread_u64 (to_be_bytes64 w) w"
  unfolding fread_u64_def to_be_bytes64_def
  by (rule parses_bind_last [OF parses_fread]) (simp_all add: parses_return of_nat_be_nat_be)

lemma parses_fexpect: "parses (fexpect bs) bs ()"
  unfolding fexpect_def by (rule parses_bind_last [OF parses_fread]) (simp_all add: parses_return)

lemma parses_fread_vec: "length bs < 2 ^ 64 \<Longrightarrow> parses fread_vec (encode_bytes bs) bs"
  unfolding fread_vec_def encode_bytes_def
  by (rule parses_bind [OF parses_fread_u64]) (simp add: parses_fread unat_of_nat_u64)

lemma parses_fread_string:
  "length bs < 2 ^ 64 \<Longrightarrow> valid_utf8 bs \<Longrightarrow> parses fread_string (encode_bytes bs) bs"
  unfolding fread_string_def
  by (rule parses_bind_last [OF parses_fread_vec]) (simp_all add: parses_return)

lemma parses_fread_measure:
  "parses fread_measure [case m of EntryCount \<Rightarrow> 0 | LogicalBytes \<Rightarrow> 1 | EncodedBytes \<Rightarrow> 2] m"
  unfolding fread_measure_def
  by (cases m) (auto intro!: parses_bind_last [OF parses_fread_u8] simp: parses_return)

lemma parses_fread_input: "parses fread_input [case i of Key \<Rightarrow> 0 | KeyValue \<Rightarrow> 1] i"
  unfolding fread_input_def
  by (cases i) (auto intro!: parses_bind_last [OF parses_fread_u8] simp: parses_return)

lemma parses_fread_hash: "parses fread_hash [case h of XxHash64 \<Rightarrow> 0] h"
  unfolding fread_hash_def
  by (cases h) (auto intro!: parses_bind_last [OF parses_fread_u8] simp: parses_return)

lemma parses_fread_flag: "parses fread_flag [of_bool b] b"
  unfolding fread_flag_def
  by (cases b) (auto intro!: parses_bind_last [OF parses_fread_u8] simp: parses_return)

lemma parses_fread_rule: "parses fread_rule (encode_rule r) r"
  unfolding fread_rule_def encode_rule_def
  by (cases r)
    (auto intro!: parses_Cons [OF parses_fread_u8] parses_bind_last [OF parses_fread_u32]
      parses_bind_last [OF parses_fread_u16] simp: parses_return)

text \<open>The strings of a format value are valid UTF-8 and every length fits an \<open>usize\<close>.\<close>

definition layout_strings_ok :: "node_layout_spec \<Rightarrow> bool" where
  "layout_strings_ok l =
     (case l of
        CustomLayout ident parameters \<Rightarrow>
          valid_utf8 ident \<and> length ident < 2 ^ 64 \<and> length parameters < 2 ^ 64
      | _ \<Rightarrow> True)"

definition encoding_strings_ok :: "encoding \<Rightarrow> bool" where
  "encoding_strings_ok e =
     (case e of CustomEncoding name \<Rightarrow> valid_utf8 name \<and> length name < 2 ^ 64 | _ \<Rightarrow> True)"

definition format_strings_ok :: "tree_format \<Rightarrow> bool" where
  "format_strings_ok f \<longleftrightarrow>
     layout_strings_ok (tf_node_layout f) \<and> encoding_strings_ok (tf_value_encoding f)"

lemma parses_fread_layout: "layout_strings_ok l \<Longrightarrow> parses fread_layout (encode_layout l) l"
  unfolding fread_layout_def encode_layout_def layout_strings_ok_def
  by (cases l)
    (auto intro!: parses_Cons [OF parses_fread_u8] parses_bind_last [OF parses_fread_u8]
      parses_bind [OF parses_fread_string] parses_bind_last [OF parses_fread_vec]
      simp: parses_return)

lemma parses_fread_encoding: "encoding_strings_ok e \<Longrightarrow> parses fread_encoding (encode_value_encoding e) e"
  unfolding fread_encoding_def encode_value_encoding_def encoding_strings_ok_def
  by (cases e)
    (auto intro!: parses_Cons [OF parses_fread_u8] parses_bind_last [OF parses_fread_u8]
      parses_bind_last [OF parses_fread_string] simp: parses_return)

lemma parses_fread_chunking: "parses fread_chunking (encode_chunking s) s"
  unfolding fread_chunking_def encode_chunking_def
  by (intro parses_bind [OF parses_fread_measure] parses_bind [OF parses_fread_input]
      parses_bind [OF parses_fread_hash] parses_bind [OF parses_fread_rule]
      parses_bind [OF parses_fread_u64] parses_bind [OF parses_fread_flag]
      parses_bind_last [OF parses_fread_u64]) (simp add: parses_def creturn_def)

lemma parses_fread_format:
  assumes "format_strings_ok f"
  shows "parses fread_format (format_magic @ [format_version] @ encode_chunking (tf_chunking f) @
    encode_layout (tf_node_layout f) @ encode_value_encoding (tf_value_encoding f)) f"
  using assms unfolding fread_format_def format_strings_ok_def
  by (intro parses_bind [OF parses_fexpect] parses_bind [OF parses_fread_u8])
    (auto intro!: parses_bind [OF parses_fread_chunking] parses_bind [OF parses_fread_layout]
      parses_bind_last [OF parses_fread_encoding] simp: parses_def [of "creturn _"] creturn_def)

section \<open>The decoder accepts canonical bytes only\<close>

text \<open>\<open>inverts f enc\<close>: whatever the reader accepts is what the writer produces for its result.\<close>

definition inverts :: "(error, 'a) reader \<Rightarrow> ('a \<Rightarrow> bytes) \<Rightarrow> ('a \<Rightarrow> bool) \<Rightarrow> bool" where
  "inverts f enc ok \<longleftrightarrow> (\<forall>c x c'. f c = Inr (x, c') \<longrightarrow> remaining c = enc x @ remaining c' \<and> ok x)"

lemma invertsD: "inverts f enc ok \<Longrightarrow> f c = Inr (x, c') \<Longrightarrow> remaining c = enc x @ remaining c' \<and> ok x"
  by (auto simp: inverts_def)

lemma be_word_be:
  "length bs = 8 \<Longrightarrow> nat_be 8 (unat (of_nat (be_nat bs) :: u64)) = bs"
  "length bs = 4 \<Longrightarrow> nat_be 4 (unat (of_nat (be_nat bs) :: u32)) = bs"
  "length bs = 2 \<Longrightarrow> nat_be 2 (unat (of_nat (be_nat bs) :: u16)) = bs"
  using be_nat_bound [of bs] nat_be_be_nat [of bs]
  by (simp_all add: unat_of_nat take_bit_eq_mod)

lemma fread_Inr:
  "fread n c = Inr (bs, c') \<Longrightarrow> length bs = n \<and> remaining c = bs @ remaining c' \<and> n < 2 ^ 64"
  by (auto simp: fread_def cursor_read_def split: if_splits)

lemma inverts_u8: "inverts fread_u8 (\<lambda>b. [b]) (\<lambda>_. True)"
  by (auto simp: inverts_def fread_u8_def length_Suc_conv elim!: cbind_InrE dest!: fread_Inr)

lemma inverts_u16: "inverts fread_u16 to_be_bytes16 (\<lambda>_. True)"
  by (auto simp: inverts_def fread_u16_def to_be_bytes16_def be_word_be elim!: cbind_InrE dest!: fread_Inr)

lemma inverts_u32: "inverts fread_u32 to_be_bytes32 (\<lambda>_. True)"
  by (auto simp: inverts_def fread_u32_def to_be_bytes32_def be_word_be elim!: cbind_InrE dest!: fread_Inr)

lemma inverts_u64: "inverts fread_u64 to_be_bytes64 (\<lambda>_. True)"
  by (auto simp: inverts_def fread_u64_def to_be_bytes64_def be_word_be elim!: cbind_InrE dest!: fread_Inr)

lemmas inverts_words =
  invertsD [OF inverts_u8] invertsD [OF inverts_u16] invertsD [OF inverts_u32] invertsD [OF inverts_u64]

lemma inverts_vec: "inverts fread_vec encode_bytes (\<lambda>bs. length bs < 2 ^ 64)"
  unfolding inverts_def fread_vec_def encode_bytes_def
  by (auto elim!: cbind_InrE dest!: invertsD [OF inverts_u64] fread_Inr)

lemma inverts_string: "inverts fread_string encode_bytes (\<lambda>bs. valid_utf8 bs \<and> length bs < 2 ^ 64)"
  unfolding inverts_def fread_string_def
  by (auto elim!: cbind_InrE dest!: invertsD [OF inverts_vec] split: if_splits)

lemma inverts_measure:
  "inverts fread_measure (\<lambda>m. [case m of EntryCount \<Rightarrow> 0 | LogicalBytes \<Rightarrow> 1 | EncodedBytes \<Rightarrow> 2]) (\<lambda>_. True)"
  unfolding inverts_def fread_measure_def
  by (auto elim!: cbind_InrE dest!: inverts_words split: if_splits)

lemma inverts_input: "inverts fread_input (\<lambda>i. [case i of Key \<Rightarrow> 0 | KeyValue \<Rightarrow> 1]) (\<lambda>_. True)"
  unfolding inverts_def fread_input_def
  by (auto elim!: cbind_InrE dest!: inverts_words split: if_splits)

lemma inverts_hash: "inverts fread_hash (\<lambda>h. [case h of XxHash64 \<Rightarrow> 0]) (\<lambda>_. True)"
  unfolding inverts_def fread_hash_def
  by (auto elim!: cbind_InrE dest!: inverts_words split: if_splits)

lemma inverts_flag: "inverts fread_flag (\<lambda>b. [of_bool b]) (\<lambda>_. True)"
  unfolding inverts_def fread_flag_def
  by (auto elim!: cbind_InrE dest!: inverts_words split: if_splits)

lemma inverts_rule: "inverts fread_rule encode_rule (\<lambda>_. True)"
  unfolding inverts_def fread_rule_def encode_rule_def
  by (auto elim!: cbind_InrE dest!: inverts_words split: if_splits)

lemma inverts_layout: "inverts fread_layout encode_layout layout_strings_ok"
  unfolding inverts_def fread_layout_def encode_layout_def layout_strings_ok_def
  by (auto elim!: cbind_InrE
      dest!: inverts_words invertsD [OF inverts_vec] invertsD [OF inverts_string] split: if_splits)

lemma inverts_encoding: "inverts fread_encoding encode_value_encoding encoding_strings_ok"
  unfolding inverts_def fread_encoding_def encode_value_encoding_def encoding_strings_ok_def
  by (auto elim!: cbind_InrE
      dest!: inverts_words invertsD [OF inverts_string] split: if_splits)

lemma inverts_chunking: "inverts fread_chunking encode_chunking (\<lambda>_. True)"
  unfolding inverts_def fread_chunking_def encode_chunking_def
  by (auto elim!: cbind_InrE dest!: invertsD [OF inverts_u64] invertsD [OF inverts_measure]
      invertsD [OF inverts_input] invertsD [OF inverts_hash] invertsD [OF inverts_rule]
      invertsD [OF inverts_flag])

lemma fexpect_Inr: "fexpect bs c = Inr (u, c') \<Longrightarrow> remaining c = bs @ remaining c'"
  by (auto simp: fexpect_def elim!: cbind_InrE dest!: fread_Inr split: if_splits)

lemma inverts_format:
  "inverts fread_format (\<lambda>f. format_magic @ [format_version] @ encode_chunking (tf_chunking f) @
     encode_layout (tf_node_layout f) @ encode_value_encoding (tf_value_encoding f)) format_strings_ok"
  unfolding inverts_def fread_format_def format_strings_ok_def
  by (auto elim!: cbind_InrE dest!: fexpect_Inr invertsD [OF inverts_u8] invertsD [OF inverts_chunking]
      invertsD [OF inverts_layout] invertsD [OF inverts_encoding] split: if_splits)

lemma from_canonical_sound:
  assumes "from_canonical_bytes bs = Inr f"
  shows "canonical_bytes f = Inr bs \<and> format_strings_ok f"
proof -
  from assms obtain c where c: "fread_format (cursor_new bs) = Inr (f, c)" "remaining c = []"
      and v: "format_validate f = Inr ()"
    by (auto simp: from_canonical_bytes_def and_then_Inr_iff cursor_done_def split: if_splits)
  from invertsD [OF inverts_format c(1)] c(2) v
  show ?thesis by (simp add: canonical_bytes_def cursor_new_def)
qed

lemma from_canonical_complete:
  assumes "canonical_bytes f = Inr bs" "format_strings_ok f" "length bs < 2 ^ 64"
  shows "from_canonical_bytes bs = Inr f"
proof -
  from assms(1) have v: "format_validate f = Inr ()"
    and bs: "bs = format_magic @ [format_version] @ encode_chunking (tf_chunking f) @
      encode_layout (tf_node_layout f) @ encode_value_encoding (tf_value_encoding f)"
    by (auto simp: canonical_bytes_def and_then_Inr_iff)
  have "fread_format (cursor_new bs) = Inr (f, \<lparr>remaining = [], position = length bs\<rparr>)"
    using parses_all [OF parses_fread_format [OF assms(2)]] assms(3) unfolding bs by blast
  then show ?thesis by (simp add: from_canonical_bytes_def cursor_done_def v)
qed

lemma canonical_bytes_valid: "canonical_bytes f = Inr bs \<Longrightarrow> format_validate f = Inr () \<and> bs \<noteq> []"
  by (auto simp: canonical_bytes_def and_then_Inr_iff format_magic_def)

lemma length_encode_rule: "length (encode_rule r) \<le> 5"
  by (cases r) (simp_all add: encode_rule_def to_be_bytes32_def to_be_bytes16_def)

lemma length_encode_chunking: "length (encode_chunking s) \<le> 49"
  using length_encode_rule [of "cs_rule s"] by (simp add: encode_chunking_def to_be_bytes64_def)

text \<open>A descriptor is at most 64 bytes (80 for a custom layout) longer than its names and parameters.\<close>

lemma length_canonical_bytes:
  assumes "canonical_bytes f = Inr bs"
  shows "length bs \<le> (case tf_node_layout f of CustomLayout _ _ \<Rightarrow> 80 | _ \<Rightarrow> 64) + (case tf_node_layout f of
     CustomLayout ident parameters \<Rightarrow> length ident + length parameters | _ \<Rightarrow> 0) +
     (case tf_value_encoding f of CustomEncoding name \<Rightarrow> length name | _ \<Rightarrow> 0)"
  using assms length_encode_chunking [of "tf_chunking f"]
  by (auto simp: canonical_bytes_def and_then_Inr_iff encode_layout_def encode_value_encoding_def
      encode_bytes_def to_be_bytes64_def format_magic_def split: node_layout_spec.splits encoding.splits)

lemma default_valid [simp]: "format_validate tree_format_default = Inr ()"
  by code_simp

lemma default_strings_ok [simp]: "format_strings_ok tree_format_default"
  by code_simp

text \<open>
  C10 (\<open>TreeFormat::canonical_bytes\<close>, \<open>from_canonical_bytes\<close>).  The persisted descriptor is
  canonical in both directions: decoding accepts a byte string exactly when it is the
  encoding of a valid format, and returns that format.  Two formats therefore share a
  descriptor (and a digest of it) only if they are equal, and no second byte string
  decodes to the same format.
\<close>

theorem canonical_format_iff:
  assumes "length bs < 2 ^ 64"
  shows "from_canonical_bytes bs = Inr f \<longleftrightarrow> canonical_bytes f = Inr bs \<and> format_strings_ok f"
  using assms from_canonical_sound from_canonical_complete by blast

theorem canonical_format_iff_witness:
  "\<exists>bs. canonical_bytes tree_format_default = Inr bs \<and> length bs < 2 ^ 64 \<and>
     from_canonical_bytes bs = Inr tree_format_default"
proof -
  obtain bs where bs: "canonical_bytes tree_format_default = Inr bs"
    by (simp add: canonical_bytes_def)
  moreover have "length bs \<le> 64"
    using length_canonical_bytes [OF bs] by (simp add: tree_format_default_def)
  ultimately show ?thesis
    using canonical_format_iff [of bs tree_format_default] default_strings_ok by simp
qed

end
