(* ===== verification/Boundary.thy ===== *)
theory Boundary
  imports Tree_Format
begin

text \<open>
  Content-defined chunk boundaries (\<^verbatim>\<open>src/src/prolly/boundary.rs\<close>): the resettable detector
  of one tree level, the rolling window and its byte-hash cache, and the fixed-point
  exponential threshold.  The hash function of the \<open>xxhash-rust\<close> crate is a parameter
  \<open>xxh64\<close> that maps a seed and the concatenation of the written bytes to 64 bits.  Arithmetic
  on \<open>u128\<close> is done on natural numbers; an operation whose exact result does not fit is a
  \<open>Panic\<close>, so that the absence of overflow is a theorem.
\<close>

type_synonym xxhash = "u64 \<Rightarrow> bytes \<Rightarrow> u64"

section \<open>Definitions\<close>

definition level_salt_const :: u64 where "level_salt_const = 0x9e3779b97f4a7c15"

subsection \<open>Byte hashes and the rolling window\<close>

definition byte_hash :: "xxhash \<Rightarrow> u64 \<Rightarrow> u8 \<Rightarrow> u64" where
  "byte_hash xxh64 seed byte = xxh64 (seed XOR 0xa0761d6478bd642f) [byte]"

record byte_hash_cache =
  bc_seed :: u64
  bc_values :: "u64 list"
  bc_initialized :: "u64 list"

definition byte_hash_cache_new :: "u64 \<Rightarrow> byte_hash_cache" where
  "byte_hash_cache_new seed =
     \<lparr>bc_seed = seed, bc_values = replicate 256 0, bc_initialized = replicate 4 0\<rparr>"

definition cache_get :: "xxhash \<Rightarrow> u8 \<Rightarrow> byte_hash_cache \<Rightarrow> u64 \<times> byte_hash_cache" where
  "cache_get xxh64 byte c =
     (let index = unat byte; word = index div 64; mask = push_bit (index mod 64) 1;
          c' = (if bc_initialized c ! word AND mask = 0 then
                  c\<lparr>bc_values := (bc_values c)[index := byte_hash xxh64 (bc_seed c) byte],
                    bc_initialized := (bc_initialized c)[word := bc_initialized c ! word OR mask]\<rparr>
                else c) in
      (bc_values c' ! index, c'))"

record rolling_window =
  rw_bytes :: bytes
  rw_capacity :: nat
  rw_next :: nat

definition rolling_window_new :: "nat \<Rightarrow> rolling_window" where
  "rolling_window_new capacity = \<lparr>rw_bytes = [], rw_capacity = capacity, rw_next = 0\<rparr>"

definition window_push :: "u8 \<Rightarrow> rolling_window \<Rightarrow> error + u8 option \<times> rolling_window" where
  "window_push byte w =
     (if length (rw_bytes w) < rw_capacity w then Inr (None, w\<lparr>rw_bytes := rw_bytes w @ [byte]\<rparr>)
      else if length (rw_bytes w) \<le> rw_next w then Inl (Panic ''index out of bounds'')
      else let old = rw_bytes w ! rw_next w; nxt = rw_next w + 1 in
        Inr (Some old, w\<lparr>rw_bytes := (rw_bytes w)[rw_next w := byte],
          rw_next := (if nxt = rw_capacity w then 0 else nxt)\<rparr>))"

definition window_clear :: "rolling_window \<Rightarrow> rolling_window" where
  "window_clear w = w\<lparr>rw_bytes := [], rw_next := 0\<rparr>"

subsection \<open>The exponential threshold\<close>

definition q62 :: nat where "q62 = 2 ^ 62"

definition u128_max :: nat where "u128_max = 2 ^ 128 - 1"

definition mul128 :: "nat \<Rightarrow> nat \<Rightarrow> error + nat" where
  "mul128 a b = (if a * b \<le> u128_max then Inr (a * b) else Inl (Panic ''attempt to multiply with overflow''))"

definition sub128 :: "nat \<Rightarrow> nat \<Rightarrow> error + nat" where
  "sub128 a b = (if b \<le> a then Inr (a - b) else Inl (Panic ''attempt to subtract with overflow''))"

definition saturating_mul128 :: "nat \<Rightarrow> nat \<Rightarrow> nat" where
  "saturating_mul128 a b = min (a * b) u128_max"

definition saturating_add128 :: "nat \<Rightarrow> nat \<Rightarrow> nat" where
  "saturating_add128 a b = min (a + b) u128_max"

primrec fractional_ratio_loop :: "nat \<Rightarrow> nat \<Rightarrow> nat \<Rightarrow> nat \<Rightarrow> error + nat" where
  "fractional_ratio_loop 0 numerator denominator quot = Inr quot"
| "fractional_ratio_loop (Suc n) numerator denominator quot =
     and_then (sub128 denominator numerator) (\<lambda>complement.
     let q = (2 * quot) mod 2 ^ 128 in
     if complement \<le> numerator then
       fractional_ratio_loop n (numerator - complement) denominator (q + 1)
     else fractional_ratio_loop n ((2 * numerator) mod 2 ^ 128) denominator q)"

definition fractional_ratio_q62 :: "nat \<Rightarrow> nat \<Rightarrow> error + nat" where
  "fractional_ratio_q62 numerator denominator =
     (if \<not> numerator < denominator then Inl (Panic ''assertion failed: numerator < denominator'')
      else fractional_ratio_loop 62 numerator denominator 0)"

definition scaled_ratio_q62 :: "nat \<Rightarrow> nat \<Rightarrow> error + nat" where
  "scaled_ratio_q62 numerator denominator =
     (if denominator = 0 then Inl (Panic ''assertion failed: denominator > 0'')
      else let whole = numerator div denominator; rest = numerator mod denominator in
      and_then (if rest \<le> u128_max div q62 then and_then (mul128 rest q62) (\<lambda>p. Inr (p div denominator))
                else fractional_ratio_q62 rest denominator) (\<lambda>fraction.
      Inr (saturating_add128 (saturating_mul128 whole q62) fraction)))"

primrec exp_neg_loop :: "nat list \<Rightarrow> nat \<Rightarrow> nat \<Rightarrow> nat \<Rightarrow> error + nat" where
  "exp_neg_loop [] exponent survival trm = Inr survival"
| "exp_neg_loop (d # ds) exponent survival trm =
     and_then (mul128 trm exponent) (\<lambda>p.
     let trm' = p div q62 div d in
     exp_neg_loop ds exponent
       (if d mod 2 = 0 then saturating_add128 survival trm' else survival - trm') trm')"

definition exp_neg_series_q62 :: "nat \<Rightarrow> error + nat" where
  "exp_neg_series_q62 exponent =
     (if q62 div 16 < exponent then Inl (Panic ''assertion failed: exponent <= Q62 / 16'')
      else exp_neg_loop [1..<9] exponent q62 q62)"

function halve_loop :: "nat \<Rightarrow> nat \<Rightarrow> nat \<times> nat" where
  "halve_loop exponent squarings =
     (if q62 div 16 < exponent then halve_loop ((exponent + 1) div 2) (squarings + 1)
      else (exponent, squarings))"
  by pat_completeness auto

termination
  by (relation "measure fst") (auto simp: q62_def)

declare halve_loop.simps [simp del]

primrec square_loop :: "nat \<Rightarrow> nat \<Rightarrow> nat" where
  "square_loop 0 survival = survival"
| "square_loop (Suc n) survival = square_loop n (saturating_mul128 survival survival div q62)"

definition deterministic_exponential_threshold :: "nat \<Rightarrow> nat \<Rightarrow> error + u64" where
  "deterministic_exponential_threshold delta scale =
     (if delta = 0 then Inr 0
      else if scale = 0 \<or> 64 \<le> delta div scale then Inr u64_max
      else and_then (scaled_ratio_q62 delta scale) (\<lambda>ratio.
        let (exponent, squarings) = halve_loop ratio 0 in
        and_then (exp_neg_series_q62 exponent) (\<lambda>survival.
        and_then (mul128 (q62 - square_loop squarings survival) (2 ^ 64 - 1)) (\<lambda>p.
        Inr (of_nat (p div q62))))))"

definition weibull_boundary :: "u64 \<Rightarrow> u64 \<Rightarrow> u64 \<Rightarrow> u64 \<Rightarrow> u32 \<Rightarrow> error + bool" where
  "weibull_boundary hsh previous current target shape =
     (if shape = 1 then
        and_then (deterministic_exponential_threshold (unat (saturating_sub current previous)) (unat (max target 1)))
          (\<lambda>t. Inr (hsh \<le> t))
      else if shape = 2 then
        and_then (mul128 (unat current) (unat current)) (\<lambda>c2.
        and_then (mul128 (unat previous) (unat previous)) (\<lambda>p2.
        and_then (sub128 c2 p2) (\<lambda>delta.
        and_then (mul128 (unat (max target 1)) (unat (max target 1))) (\<lambda>scale.
        and_then (deterministic_exponential_threshold delta scale) (\<lambda>t. Inr (hsh \<le> t))))))
      else Inr False)"

subsection \<open>The detector\<close>

record detector =
  bd_spec :: chunking_spec
  bd_seed :: u64
  bd_entries :: u64
  bd_logical_bytes :: u64
  bd_encoded_bytes :: u64
  bd_previous_measure :: u64
  bd_window :: rolling_window
  bd_cache :: "byte_hash_cache option"
  bd_rolling_hash :: u64

fun is_rolling :: "boundary_rule \<Rightarrow> bool" where
  "is_rolling (RollingBuzHash window) = True"
| "is_rolling _ = False"

definition level_seed :: "chunking_spec \<Rightarrow> u16 \<Rightarrow> u64" where
  "level_seed spec level =
     (if cs_level_salt spec then cs_hash_seed spec XOR (ucast level * level_salt_const)
      else cs_hash_seed spec)"

definition level_spec :: "chunking_spec \<Rightarrow> u16 \<Rightarrow> chunking_spec" where
  "level_spec spec level =
     (if 0 < level \<and> cs_min spec < 2
      then spec\<lparr>cs_min := 2, cs_target := max (cs_target spec) 2, cs_max := max (cs_max spec) 2\<rparr>
      else spec)"

definition detector_new :: "chunking_spec \<Rightarrow> u16 \<Rightarrow> error + detector" where
  "detector_new spec0 level =
     and_then (chunking_validate spec0) (\<lambda>_.
     let spec = level_spec spec0 level; seed = level_seed spec level in
     Inr \<lparr>bd_spec = spec, bd_seed = seed, bd_entries = 0, bd_logical_bytes = 0, bd_encoded_bytes = 0,
       bd_previous_measure = 0,
       bd_window = (case cs_rule spec of RollingBuzHash window \<Rightarrow> rolling_window_new (unat window)
                    | _ \<Rightarrow> rolling_window_new 0),
       bd_cache = (if is_rolling (cs_rule spec) then Some (byte_hash_cache_new seed) else None),
       bd_rolling_hash = 0\<rparr>)"

definition measure_of :: "detector \<Rightarrow> u64" where
  "measure_of d =
     (case cs_measure (bd_spec d) of
        EntryCount \<Rightarrow> bd_entries d
      | LogicalBytes \<Rightarrow> bd_logical_bytes d
      | EncodedBytes \<Rightarrow> bd_encoded_bytes d)"

definition detector_reset :: "detector \<Rightarrow> detector" where
  "detector_reset d =
     d\<lparr>bd_entries := 0, bd_logical_bytes := 0, bd_encoded_bytes := 0, bd_previous_measure := 0,
       bd_window := window_clear (bd_window d), bd_rolling_hash := 0\<rparr>"

definition hash_input :: "boundary_input \<Rightarrow> bytes \<Rightarrow> bytes \<Rightarrow> bytes" where
  "hash_input input key val =
     to_be_bytes64 (of_nat (length key)) @ key @
     (if input = KeyValue then to_be_bytes64 (of_nat (length val)) @ val else [])"

definition hash_entry :: "xxhash \<Rightarrow> u64 \<Rightarrow> boundary_input \<Rightarrow> bytes \<Rightarrow> bytes \<Rightarrow> u64" where
  "hash_entry xxh64 seed input key val = xxh64 seed (hash_input input key val)"

definition roll_byte :: "xxhash \<Rightarrow> u8 \<Rightarrow> detector \<Rightarrow> error + detector" where
  "roll_byte xxh64 byte d =
     (case bd_cache d of
        None \<Rightarrow> Inl (Panic ''rolling detector has byte hash cache'')
      | Some cache \<Rightarrow>
          let (incoming, cache1) = cache_get xxh64 byte cache;
              rolled = word_rotl 1 (bd_rolling_hash d) XOR incoming in
          and_then (window_push byte (bd_window d)) (\<lambda>(old, window').
          case old of
            None \<Rightarrow> Inr (d\<lparr>bd_cache := Some cache1, bd_window := window', bd_rolling_hash := rolled\<rparr>)
          | Some byte' \<Rightarrow>
              let (outgoing, cache2) = cache_get xxh64 byte' cache1 in
              Inr (d\<lparr>bd_cache := Some cache2, bd_window := window',
                bd_rolling_hash := rolled XOR word_rotl (rw_capacity window' mod 64) outgoing\<rparr>)))"

fun roll_bytes :: "xxhash \<Rightarrow> bytes \<Rightarrow> detector \<Rightarrow> error + detector" where
  "roll_bytes xxh64 [] d = Inr d"
| "roll_bytes xxh64 (b # bs) d = and_then (roll_byte xxh64 b d) (roll_bytes xxh64 bs)"

definition rolling_feed_len :: "xxhash \<Rightarrow> u64 \<Rightarrow> detector \<Rightarrow> error + detector" where
  "rolling_feed_len xxh64 len = roll_bytes xxh64 (to_be_bytes64 len)"

definition observe_rolling :: "xxhash \<Rightarrow> bytes \<Rightarrow> bytes \<Rightarrow> detector \<Rightarrow> error + detector" where
  "observe_rolling xxh64 key val d =
     (if \<not> is_rolling (cs_rule (bd_spec d)) then Inr d
      else and_then (rolling_feed_len xxh64 (of_nat (length key)) d) (\<lambda>d1.
        and_then (roll_bytes xxh64 key d1) (\<lambda>d2.
        if cs_input (bd_spec d2) = KeyValue then
          and_then (rolling_feed_len xxh64 (of_nat (length val)) d2) (roll_bytes xxh64 val)
        else Inr d2)))"

definition threshold_hit :: "u64 \<Rightarrow> u32 \<Rightarrow> error + bool" where
  "threshold_hit input_hash factor =
     (if factor = 0 then Inl (Panic ''attempt to divide by zero'')
      else Inr ((ucast input_hash :: u32) \<le> - 1 div factor))"

definition rule_boundary :: "u64 \<Rightarrow> detector \<Rightarrow> error + bool" where
  "rule_boundary input_hash d =
     (let spec = bd_spec d; current = measure_of d in
      case cs_rule spec of
        HashThreshold factor \<Rightarrow> threshold_hit input_hash factor
      | Weibull shape \<Rightarrow> weibull_boundary input_hash (bd_previous_measure d) current (cs_target spec) shape
      | RollingBuzHash window \<Rightarrow>
          let eligible_previous = max (bd_previous_measure d) (cs_min spec);
              eligible_current = max current (cs_min spec);
              delta = saturating_sub eligible_current eligible_previous;
              scale = max (saturating_sub (cs_target spec) (cs_min spec)) 1 in
          and_then (deterministic_exponential_threshold (unat delta) (unat scale)) (\<lambda>t.
          Inr (bd_rolling_hash d \<le> t)))"

definition observe_counters :: "bytes \<Rightarrow> bytes \<Rightarrow> u64 \<Rightarrow> detector \<Rightarrow> detector" where
  "observe_counters key val encoded_entry_bytes d =
     d\<lparr>bd_previous_measure := measure_of d,
       bd_entries := saturating_add (bd_entries d) 1,
       bd_logical_bytes := saturating_add (saturating_add (bd_logical_bytes d) (of_nat (length key))) (of_nat (length val)),
       bd_encoded_bytes := saturating_add (bd_encoded_bytes d) encoded_entry_bytes\<rparr>"

definition observe :: "xxhash \<Rightarrow> bytes \<Rightarrow> bytes \<Rightarrow> u64 \<Rightarrow> detector \<Rightarrow> error + bool \<times> detector" where
  "observe xxh64 key val encoded_entry_bytes d =
     (if bd_entries d = 0 \<and> cs_hard_max_node_bytes (bd_spec d) < encoded_entry_bytes
      then Inl (EntryTooLarge encoded_entry_bytes (cs_hard_max_node_bytes (bd_spec d)))
      else let d1 = observe_counters key val encoded_entry_bytes d;
               input_hash = hash_entry xxh64 (bd_seed d1) (cs_input (bd_spec d1)) key val in
        and_then (if is_rolling (cs_rule (bd_spec d1)) then observe_rolling xxh64 key val d1 else Inr d1) (\<lambda>d2.
        and_then (if cs_hard_max_node_bytes (bd_spec d2) \<le> bd_encoded_bytes d2 \<or> cs_max (bd_spec d2) \<le> measure_of d2
                  then Inr True
                  else if measure_of d2 < cs_min (bd_spec d2) then Inr False
                  else rule_boundary input_hash d2) (\<lambda>boundary.
        Inr (boundary, if boundary then detector_reset d2 else d2))))"

definition supports_independent_hashing :: "detector \<Rightarrow> bool" where
  "supports_independent_hashing d \<longleftrightarrow>
     cs_measure (bd_spec d) = EntryCount \<and>
     (case cs_rule (bd_spec d) of HashThreshold factor \<Rightarrow> True | _ \<Rightarrow> False)"

definition independent_hash_boundary :: "xxhash \<Rightarrow> bytes \<Rightarrow> bytes \<Rightarrow> detector \<Rightarrow> (error + bool) option" where
  "independent_hash_boundary xxh64 key val d =
     (case cs_rule (bd_spec d) of
        HashThreshold factor \<Rightarrow>
          if cs_measure (bd_spec d) \<noteq> EntryCount then None
          else Some (threshold_hit (hash_entry xxh64 (bd_seed d) (cs_input (bd_spec d)) key val) factor)
      | _ \<Rightarrow> None)"

definition entry_count_boundary :: "xxhash \<Rightarrow> chunking_spec \<Rightarrow> u16 \<Rightarrow> u64 \<Rightarrow> bytes \<Rightarrow> error + bool" where
  "entry_count_boundary xxh64 spec level count key =
     and_then (chunking_validate spec) (\<lambda>_.
     case cs_rule spec of
       HashThreshold factor \<Rightarrow>
         if cs_measure spec \<noteq> EntryCount \<or> cs_input spec \<noteq> Key
         then Inl (InvalidFormat ''entry-count boundary probe requires key-only entry-count chunking'')
         else if cs_max spec \<le> count then Inr True
         else if count < cs_min spec then Inr False
         else threshold_hit (hash_entry xxh64 (level_seed spec level) (cs_input spec) key []) factor
     | _ \<Rightarrow> Inl (InvalidFormat ''entry-count boundary probe requires a hash-threshold rule''))"

section \<open>Rotations\<close>

lemma word_rotr_0: "word_rotr 0 w = w"
  using word_roti_eq_word_rotr_word_rotl [of 0 w] by (simp only: word_roti_0 order_refl if_True nat_zero_as_int)

lemma word_rotl_0: "word_rotl 0 w = w"
  using word_rot_rl [of 0 w] by (simp add: word_rotr_0)

lemma word_rotl_roti: "word_rotl n w = word_roti (- int n) w"
  by (cases "n = 0") (simp_all add: word_rotr_0 word_rotl_0)

lemma word_rotl_rotl: "word_rotl m (word_rotl n w) = word_rotl (m + n) w"
  by (simp only: word_rotl_roti word_roti_add [symmetric]) simp

lemma word_rotl_mod: "word_rotl (n mod 64) w = word_rotl n (w :: u64)"
proof -
  have e: "(- int (n mod 64)) mod 64 = (- int n) mod 64"
    by (simp add: zmod_int mod_minus_eq)
  have sz: "int (size w) = 64" by (simp add: word_size)
  show ?thesis
    using word_roti_conv_mod' [of "- int n" w] word_roti_conv_mod' [of "- int (n mod 64)" w]
    by (simp only: word_rotl_roti sz e)
qed

section \<open>The byte-hash cache\<close>

definition cache_ok :: "xxhash \<Rightarrow> u64 \<Rightarrow> byte_hash_cache \<Rightarrow> bool" where
  "cache_ok xxh64 seed c \<longleftrightarrow>
     bc_seed c = seed \<and> length (bc_values c) = 256 \<and> length (bc_initialized c) = 4 \<and>
     (\<forall>b :: u8. bit (bc_initialized c ! (unat b div 64)) (unat b mod 64) \<longrightarrow>
        bc_values c ! unat b = byte_hash xxh64 seed b)"

lemma cache_ok_new: "cache_ok xxh64 seed (byte_hash_cache_new seed)"
proof -
  have "unat (b :: u8) div 64 < 4" for b using unat_byte_lt [of b] by simp
  then show ?thesis by (simp add: cache_ok_def byte_hash_cache_new_def)
qed

lemma cache_get_ok:
  assumes "cache_ok xxh64 seed c"
  shows "fst (cache_get xxh64 b c) = byte_hash xxh64 seed b \<and> cache_ok xxh64 seed (snd (cache_get xxh64 b c))"
proof -
  let ?w = "unat b div 64" and ?k = "unat b mod 64"
  have w: "?w < 4" "unat b < 256" using unat_byte_lt [of b] by auto
  show ?thesis
  proof (cases "bit (bc_initialized c ! ?w) ?k")
    case True
    then have "\<not> (bc_initialized c ! ?w AND push_bit ?k 1 = 0)"
      by (simp add: and_exp_eq_0_iff_not_bit)
    with True show ?thesis using assms by (simp add: cache_get_def cache_ok_def Let_def)
  next
    case False
    then have init: "bc_initialized c ! ?w AND push_bit ?k 1 = 0"
      by (simp add: and_exp_eq_0_iff_not_bit)
    let ?c = "snd (cache_get xxh64 b c)"
    have c: "?c = c\<lparr>bc_values := (bc_values c)[unat b := byte_hash xxh64 seed b],
        bc_initialized := (bc_initialized c)[?w := bc_initialized c ! ?w OR push_bit ?k 1]\<rparr>"
      using assms init by (simp add: cache_get_def cache_ok_def Let_def)
    have fst: "fst (cache_get xxh64 b c) = bc_values ?c ! unat b" by (simp add: cache_get_def Let_def)
    have "bc_values ?c ! unat x = byte_hash xxh64 seed x"
      if x: "bit (bc_initialized ?c ! (unat x div 64)) (unat x mod 64)" for x :: u8
    proof (cases "x = b")
      case True
      then show ?thesis using assms w by (simp add: c cache_ok_def)
    next
      case False
      then have u: "unat x \<noteq> unat b" by (metis unsigned_word_eqI)
      then have "unat x div 64 \<noteq> ?w \<or> unat x mod 64 \<noteq> ?k" by (metis div_mult_mod_eq)
      then have "bit (bc_initialized c ! (unat x div 64)) (unat x mod 64)"
        using x assms w by (auto simp: c cache_ok_def nth_list_update bit_simps split: if_splits)
      then show ?thesis using assms u by (simp add: c cache_ok_def)
    qed
    then show ?thesis using assms w fst by (simp add: c cache_ok_def)
  qed
qed

section \<open>The rolling window\<close>

text \<open>The bytes of the window, oldest first.\<close>

definition window_list :: "rolling_window \<Rightarrow> bytes" where
  "window_list w = drop (rw_next w) (rw_bytes w) @ take (rw_next w) (rw_bytes w)"

definition window_ok :: "rolling_window \<Rightarrow> bool" where
  "window_ok w \<longleftrightarrow> rw_next w < rw_capacity w \<and> length (rw_bytes w) \<le> rw_capacity w \<and>
     (length (rw_bytes w) < rw_capacity w \<longrightarrow> rw_next w = 0)"

lemma window_ok_new: "0 < n \<Longrightarrow> window_ok (rolling_window_new n)"
  by (simp add: window_ok_def rolling_window_new_def)

lemma window_clear_ok: "window_ok w \<Longrightarrow> window_ok (window_clear w)"
  by (auto simp: window_ok_def window_clear_def)

lemma length_window_list: "window_ok w \<Longrightarrow> length (window_list w) = length (rw_bytes w)"
  by (auto simp: window_list_def window_ok_def)

lemma window_push_short:
  assumes "window_ok w" "length (rw_bytes w) < rw_capacity w"
  obtains w' where "window_push b w = Inr (None, w')" "window_ok w'" "rw_capacity w' = rw_capacity w"
    "window_list w' = window_list w @ [b]"
  using assms by (auto simp: window_push_def window_ok_def window_list_def)

lemma window_push_full:
  assumes "window_ok w" "\<not> length (rw_bytes w) < rw_capacity w"
  obtains w' where "window_push b w = Inr (Some (hd (window_list w)), w')" "window_ok w'"
    "rw_capacity w' = rw_capacity w" "window_list w' = tl (window_list w) @ [b]" "window_list w \<noteq> []"
proof -
  let ?n = "rw_next w" and ?bs = "rw_bytes w"
  let ?w = "w\<lparr>rw_bytes := ?bs[?n := b], rw_next := (if ?n + 1 = rw_capacity w then 0 else ?n + 1)\<rparr>"
  have n: "?n < length ?bs" and len: "length ?bs = rw_capacity w" using assms by (auto simp: window_ok_def)
  have bs: "?bs = take ?n ?bs @ ?bs ! ?n # drop (Suc ?n) ?bs" by (simp add: n id_take_nth_drop [symmetric])
  have "window_list w = ?bs ! ?n # drop (Suc ?n) ?bs @ take ?n ?bs"
    by (simp add: window_list_def n Cons_nth_drop_Suc)
  moreover have "window_push b w = Inr (Some (?bs ! ?n), ?w)"
    using assms(2) n by (simp add: window_push_def Let_def)
  moreover have "window_list ?w = drop (Suc ?n) ?bs @ take ?n ?bs @ [b]"
    using n len upd_conv_take_nth_drop [OF n, of b]
    by (cases "?n + 1 = rw_capacity w") (simp_all add: window_list_def min_def)
  moreover have "window_ok ?w" using n len by (auto simp: window_ok_def)
  ultimately show ?thesis using that [of ?w] by simp
qed

section \<open>The rolling hash is the hash of the window\<close>

text \<open>The cyclic polynomial of a byte string, computed from scratch.\<close>

definition buzhash :: "(u8 \<Rightarrow> u64) \<Rightarrow> bytes \<Rightarrow> u64" where
  "buzhash h bs = foldl (\<lambda>acc b. word_rotl 1 acc XOR h b) 0 bs"

lemma buzhash_foldl:
  "foldl (\<lambda>acc b. word_rotl 1 acc XOR h b) acc bs = word_rotl (length bs) acc XOR buzhash h bs"
proof (induction bs arbitrary: acc)
  case (Cons b bs)
  show ?case
    using Cons [of "word_rotl 1 acc XOR h b"] Cons [of "word_rotl 1 0 XOR h b"]
    by (simp add: buzhash_def word_rot_logs word_rotl_rotl xor.assoc)
qed (simp add: buzhash_def word_rotl_0)

lemma buzhash_Cons: "buzhash h (b # bs) = word_rotl (length bs) (h b) XOR buzhash h bs"
  using buzhash_foldl [of h "h b" bs] by (simp add: buzhash_def)

lemma buzhash_snoc: "buzhash h (bs @ [b]) = word_rotl 1 (buzhash h bs) XOR h b"
  by (simp add: buzhash_def)

lemma buzhash_slide:
  "buzhash h (bs @ [b]) = (word_rotl 1 (buzhash h (a # bs)) XOR h b) XOR word_rotl (Suc (length bs) mod 64) (h a)"
  by (simp add: buzhash_snoc buzhash_Cons word_rot_logs word_rotl_rotl word_rotl_mod xor.assoc xor.left_commute xor.commute)

definition last_n :: "nat \<Rightarrow> 'a list \<Rightarrow> 'a list" where
  "last_n n xs = drop (length xs - n) xs"

definition rolling_ok :: "xxhash \<Rightarrow> detector \<Rightarrow> bytes \<Rightarrow> bool" where
  "rolling_ok xxh64 d fed \<longleftrightarrow>
     (\<exists>c. bd_cache d = Some c \<and> cache_ok xxh64 (bd_seed d) c) \<and> window_ok (bd_window d) \<and>
     window_list (bd_window d) = last_n (rw_capacity (bd_window d)) fed \<and>
     bd_rolling_hash d = buzhash (byte_hash xxh64 (bd_seed d)) (window_list (bd_window d))"

text \<open>What rolling leaves alone.\<close>

definition same_counters :: "detector \<Rightarrow> detector \<Rightarrow> bool" where
  "same_counters d d' \<longleftrightarrow>
     bd_spec d' = bd_spec d \<and> bd_seed d' = bd_seed d \<and> bd_entries d' = bd_entries d \<and>
     bd_logical_bytes d' = bd_logical_bytes d \<and> bd_encoded_bytes d' = bd_encoded_bytes d \<and>
     bd_previous_measure d' = bd_previous_measure d \<and> rw_capacity (bd_window d') = rw_capacity (bd_window d)"

lemma last_n_snoc_short: "length xs < n \<Longrightarrow> last_n n (xs @ [b]) = last_n n xs @ [b]"
  by (simp add: last_n_def)

lemma last_n_snoc_full:
  "0 < n \<Longrightarrow> n \<le> length xs \<Longrightarrow> last_n n (xs @ [b]) = tl (last_n n xs) @ [b]"
  by (simp add: last_n_def Suc_diff_le drop_Suc tl_drop)

lemma roll_byte_ok:
  assumes "rolling_ok xxh64 d fed"
  shows "\<exists>d'. roll_byte xxh64 b d = Inr d' \<and> rolling_ok xxh64 d' (fed @ [b]) \<and> same_counters d d'"
proof -
  from assms obtain c where c: "bd_cache d = Some c" "cache_ok xxh64 (bd_seed d) c"
    and w: "window_ok (bd_window d)" and l: "window_list (bd_window d) = last_n (rw_capacity (bd_window d)) fed"
    and h: "bd_rolling_hash d = buzhash (byte_hash xxh64 (bd_seed d)) (window_list (bd_window d))"
    by (auto simp: rolling_ok_def)
  let ?h = "byte_hash xxh64 (bd_seed d)" and ?n = "rw_capacity (bd_window d)"
  have n: "0 < ?n" using w by (auto simp: window_ok_def)
  obtain c1 where c1: "cache_get xxh64 b c = (?h b, c1)" "cache_ok xxh64 (bd_seed d) c1"
    using cache_get_ok [OF c(2), of b] by (metis prod.collapse)
  have len: "length (rw_bytes (bd_window d)) = min ?n (length fed)"
    using length_window_list [OF w] l by (auto simp: last_n_def min_def)
  show ?thesis
  proof (cases "length (rw_bytes (bd_window d)) < ?n")
    case True
    then obtain w' where "window_push b (bd_window d) = Inr (None, w')" "window_ok w'" "rw_capacity w' = ?n"
      "window_list w' = window_list (bd_window d) @ [b]"
      by (rule window_push_short [OF w])
    moreover have "last_n ?n (fed @ [b]) = last_n ?n fed @ [b]" using True len by (intro last_n_snoc_short) simp
    ultimately show ?thesis
      using c c1 l h by (auto simp: roll_byte_def rolling_ok_def same_counters_def buzhash_snoc)
  next
    case False
    then obtain w' where w': "window_push b (bd_window d) = Inr (Some (hd (window_list (bd_window d))), w')" "window_ok w'"
      "rw_capacity w' = ?n" "window_list w' = tl (window_list (bd_window d)) @ [b]" "window_list (bd_window d) \<noteq> []"
      by (rule window_push_full [OF w])
    let ?a = "hd (window_list (bd_window d))" and ?t = "tl (window_list (bd_window d))"
    have at: "window_list (bd_window d) = ?a # ?t" using w'(5) by simp
    have "?n \<le> length fed" using False len by (simp add: min_def split: if_splits)
    then have "last_n ?n (fed @ [b]) = ?t @ [b]" using last_n_snoc_full [OF n] l by simp
    moreover have "Suc (length ?t) = ?n"
      using length_window_list [OF w] len False w'(5) n by (simp add: min_def split: if_splits)
    moreover obtain c2 where "cache_get xxh64 ?a c1 = (?h ?a, c2)" "cache_ok xxh64 (bd_seed d) c2"
      using cache_get_ok [OF c1(2), of ?a] by (metis prod.collapse)
    ultimately show ?thesis
      using c c1 h w' n buzhash_slide [of ?h ?t b ?a] at
      by (auto simp: roll_byte_def rolling_ok_def same_counters_def)
  qed
qed

lemma same_counters_trans: "same_counters a b \<Longrightarrow> same_counters b c \<Longrightarrow> same_counters a c"
  by (simp add: same_counters_def)

lemma same_counters_refl: "same_counters d d"
  by (simp add: same_counters_def)

lemma roll_bytes_ok:
  "rolling_ok xxh64 d fed \<Longrightarrow>
     \<exists>d'. roll_bytes xxh64 bs d = Inr d' \<and> rolling_ok xxh64 d' (fed @ bs) \<and> same_counters d d'"
proof (induction bs arbitrary: d fed)
  case (Cons b bs)
  obtain d1 where d1: "roll_byte xxh64 b d = Inr d1" "rolling_ok xxh64 d1 (fed @ [b])" "same_counters d d1"
    using roll_byte_ok [OF Cons.prems] by blast
  from Cons.IH [OF d1(2)] d1 show ?case by (auto intro: same_counters_trans)
qed (simp add: same_counters_refl)

lemma observe_rolling_ok:
  assumes "rolling_ok xxh64 d fed" "is_rolling (cs_rule (bd_spec d))"
  shows "\<exists>d'. observe_rolling xxh64 key val d = Inr d' \<and>
    rolling_ok xxh64 d' (fed @ hash_input (cs_input (bd_spec d)) key val) \<and> same_counters d d'"
proof -
  let ?kl = "to_be_bytes64 (of_nat (length key))" and ?vl = "to_be_bytes64 (of_nat (length val))"
  obtain d1 where d1: "roll_bytes xxh64 ?kl d = Inr d1" "rolling_ok xxh64 d1 (fed @ ?kl)" "same_counters d d1"
    using roll_bytes_ok [OF assms(1)] by blast
  obtain d2 where d2: "roll_bytes xxh64 key d1 = Inr d2" "rolling_ok xxh64 d2 ((fed @ ?kl) @ key)" "same_counters d1 d2"
    using roll_bytes_ok [OF d1(2)] by blast
  obtain d3 where d3: "roll_bytes xxh64 ?vl d2 = Inr d3" "rolling_ok xxh64 d3 (((fed @ ?kl) @ key) @ ?vl)" "same_counters d2 d3"
    using roll_bytes_ok [OF d2(2)] by blast
  obtain d4 where d4: "roll_bytes xxh64 val d3 = Inr d4" "rolling_ok xxh64 d4 ((((fed @ ?kl) @ key) @ ?vl) @ val)" "same_counters d3 d4"
    using roll_bytes_ok [OF d3(2)] by blast
  have s: "same_counters d d2" "same_counters d d4" using d1(3) d2(3) d3(3) d4(3) same_counters_trans by blast+
  then have "bd_spec d2 = bd_spec d" by (simp add: same_counters_def)
  then show ?thesis using assms(2) d1 d2 d3 d4 s
    by (auto simp: observe_rolling_def rolling_feed_len_def hash_input_def)
qed

section \<open>The threshold never overflows\<close>

lemma fractional_ratio_loop_exact:
  assumes "numerator < denominator" "denominator \<le> u128_max" "quot < 2 ^ k" "n + k \<le> 128"
  shows "fractional_ratio_loop n numerator denominator quot = Inr (quot * 2 ^ n + numerator * 2 ^ n div denominator)"
  using assms
proof (induction n arbitrary: numerator quot k)
  case (Suc n)
  have q: "2 * quot < 2 ^ Suc k" "2 * quot + 1 < 2 ^ Suc k" using Suc.prems(3) by auto
  have "2 ^ Suc k \<le> (2 :: nat) ^ 128" using Suc.prems(4) by (intro power_increasing) auto
  then have mod: "(2 * quot) mod 2 ^ 128 = 2 * quot" using q(1) by (intro mod_less) (rule less_le_trans)
  show ?case
  proof (cases "denominator - numerator \<le> numerator")
    case True
    have e: "numerator - (denominator - numerator) = 2 * numerator - denominator" using Suc.prems(1) by simp
    have "2 * numerator = (2 * numerator - denominator) + denominator" using True by simp
    then have "numerator * 2 ^ Suc n = ((2 * numerator - denominator) + denominator) * 2 ^ n"
      by (metis mult.assoc mult.commute power_Suc)
    then have "numerator * 2 ^ Suc n = (2 * numerator - denominator) * 2 ^ n + 2 ^ n * denominator"
      by (simp add: add_mult_distrib)
    then have "numerator * 2 ^ Suc n div denominator = (2 * numerator - denominator) * 2 ^ n div denominator + 2 ^ n"
      using div_mult_self1 [of denominator "(2 * numerator - denominator) * 2 ^ n" "2 ^ n"] Suc.prems(1)
      by (simp only: add.commute)
    moreover have "fractional_ratio_loop n (2 * numerator - denominator) denominator (2 * quot + 1)
        = Inr ((2 * quot + 1) * 2 ^ n + (2 * numerator - denominator) * 2 ^ n div denominator)"
      using Suc.prems q by (intro Suc.IH [of _ _ "Suc k"]) auto
    ultimately show ?thesis using True Suc.prems(1) mod e
      by (simp add: sub128_def Let_def algebra_simps)
  next
    case False
    then have "2 * numerator < denominator" by simp
    moreover from this have "(2 * numerator) mod 2 ^ 128 = 2 * numerator"
      using Suc.prems(2) by (intro mod_less) (simp add: u128_max_def)
    moreover have "fractional_ratio_loop n (2 * numerator) denominator (2 * quot)
        = Inr ((2 * quot) * 2 ^ n + (2 * numerator) * 2 ^ n div denominator)"
      using Suc.prems q \<open>2 * numerator < denominator\<close> by (intro Suc.IH [of _ _ "Suc k"]) auto
    ultimately show ?thesis using False Suc.prems(1) mod
      by (simp add: sub128_def Let_def algebra_simps)
  qed
qed simp

lemma scaled_ratio_exact:
  assumes "0 < denominator" "denominator \<le> u128_max"
  shows "scaled_ratio_q62 numerator denominator = Inr (min (numerator * q62 div denominator) u128_max)"
proof -
  let ?w = "numerator div denominator" and ?r = "numerator mod denominator"
  have r: "?r < denominator" using assms(1) by simp
  have "numerator * q62 = ?w * denominator * q62 + ?r * q62"
    by (metis add_mult_distrib div_mult_mod_eq)
  then have "numerator * q62 = ?r * q62 + (?w * q62) * denominator" by (simp add: ac_simps)
  then have whole: "numerator * q62 div denominator = ?w * q62 + ?r * q62 div denominator"
    using assms(1) by simp
  have "fractional_ratio_q62 ?r denominator = Inr (?r * q62 div denominator)"
    using fractional_ratio_loop_exact [OF r assms(2), of 0 0 62] r by (simp add: fractional_ratio_q62_def q62_def)
  moreover have "mul128 ?r q62 = Inr (?r * q62)" if "?r \<le> u128_max div q62"
  proof -
    have "?r * q62 \<le> (u128_max div q62) * q62" using that by (rule mult_le_mono1)
    also have "\<dots> \<le> u128_max" by simp
    finally show ?thesis by (simp add: mul128_def)
  qed
  ultimately show ?thesis
    using assms(1) by (auto simp: scaled_ratio_q62_def Let_def whole saturating_add128_def saturating_mul128_def min_def)
qed

lemma halve_loop_bound: "fst (halve_loop exponent squarings) \<le> q62 div 16"
proof (induction exponent squarings rule: halve_loop.induct)
  case (1 exponent squarings)
  then show ?case by (subst halve_loop.simps) (simp del: halve_loop.simps)
qed

lemma exp_neg_loop_total:
  assumes "exponent \<le> q62 div 16" "trm \<le> q62"
  shows "\<exists>s. exp_neg_loop ds exponent survival trm = Inr s"
  using assms(2)
proof (induction ds arbitrary: survival trm)
  case (Cons d ds)
  have "trm * exponent \<le> q62 * (q62 div 16)" using Cons.prems assms(1) by (intro mult_le_mono)
  then have "trm * exponent \<le> u128_max" "trm * exponent div q62 div d \<le> q62 div 16 div d"
    by (auto simp: q62_def u128_max_def intro!: div_le_mono dest: div_le_mono [of _ _ "2 ^ 62"])
  moreover have "q62 div 16 div d \<le> q62" by (meson div_le_dividend le_trans)
  ultimately show ?case using Cons.IH by (simp add: mul128_def Let_def)
qed simp

lemma threshold_total:
  assumes "scale \<le> u128_max"
  shows "\<exists>t. deterministic_exponential_threshold delta scale = Inr t"
proof (cases "delta = 0 \<or> scale = 0 \<or> 64 \<le> delta div scale")
  case False
  then obtain ratio where r: "scaled_ratio_q62 delta scale = Inr ratio"
    using scaled_ratio_exact [of scale delta] assms by auto
  obtain exponent squarings where h: "halve_loop ratio 0 = (exponent, squarings)" by fastforce
  then have "exponent \<le> q62 div 16" using halve_loop_bound [of ratio 0] by simp
  then obtain survival where s: "exp_neg_series_q62 exponent = Inr survival"
    using exp_neg_loop_total [of exponent q62] by (auto simp: exp_neg_series_q62_def not_less [symmetric])
  have "(q62 - square_loop squarings survival) * (2 ^ 64 - 1) \<le> q62 * (2 ^ 64 - 1)" by (intro mult_le_mono1) simp
  also have "\<dots> \<le> u128_max" by (simp add: q62_def u128_max_def)
  finally show ?thesis using False r h s
    by (simp add: deterministic_exponential_threshold_def mul128_def)
qed (auto simp: deterministic_exponential_threshold_def)

lemma unat_mult_u128: "unat (a :: u64) * unat (b :: u64) \<le> u128_max"
proof -
  have "unat a * unat b \<le> (2 ^ 64 - 1) * (2 ^ 64 - 1)"
    using unat_u64_lt [of a] unat_u64_lt [of b] by (intro mult_le_mono) auto
  also have "\<dots> \<le> u128_max" by (simp add: u128_max_def)
  finally show ?thesis .
qed

lemma unat_le_u128: "unat (a :: u64) \<le> u128_max"
  using unat_u64_lt [of a] by (simp add: u128_max_def)

lemma weibull_total:
  assumes "previous \<le> current"
  shows "\<exists>b. weibull_boundary hsh previous current target shape = Inr b"
proof -
  have "unat previous * unat previous \<le> unat current * unat current"
    using assms by (intro mult_le_mono) (simp_all add: word_le_nat_alt)
  then have "sub128 (unat current * unat current) (unat previous * unat previous)
      = Inr (unat current * unat current - unat previous * unat previous)"
    by (simp add: sub128_def)
  moreover obtain t where "deterministic_exponential_threshold (unat (saturating_sub current previous)) (unat (max target 1)) = Inr t"
    using threshold_total [OF unat_le_u128] by blast
  moreover obtain t' where "deterministic_exponential_threshold (unat current * unat current - unat previous * unat previous)
      (unat (max target 1) * unat (max target 1)) = Inr t'"
    using threshold_total [OF unat_mult_u128] by blast
  ultimately show ?thesis
    by (auto simp: weibull_boundary_def mul128_def unat_mult_u128)
qed

section \<open>Observing entries\<close>

lemma chunking_validate_iff:
  "chunking_validate s = Inr () \<longleftrightarrow>
     cs_min s \<noteq> 0 \<and> cs_min s \<le> cs_target s \<and> cs_target s \<le> cs_max s \<and> cs_hard_max_node_bytes s \<noteq> 0 \<and>
     (case cs_rule s of HashThreshold factor \<Rightarrow> factor \<noteq> 0 | Weibull shape \<Rightarrow> shape = 1 \<or> shape = 2
      | RollingBuzHash window \<Rightarrow> window \<noteq> 0)"
  by (auto simp: chunking_validate_def not_less split: boundary_rule.splits)

lemma level_spec_valid: "chunking_validate s = Inr () \<Longrightarrow> chunking_validate (level_spec s level) = Inr ()"
  unfolding chunking_validate_iff
  by (auto simp: level_spec_def max_def split: boundary_rule.splits)

definition detector_ok :: "xxhash \<Rightarrow> detector \<Rightarrow> bytes \<Rightarrow> bool" where
  "detector_ok xxh64 d fed \<longleftrightarrow>
     chunking_validate (bd_spec d) = Inr () \<and>
     (case cs_rule (bd_spec d) of
        RollingBuzHash window \<Rightarrow> rolling_ok xxh64 d fed \<and> rw_capacity (bd_window d) = unat window
      | _ \<Rightarrow> True)"

lemma rolling_ok_reset: "rolling_ok xxh64 d fed \<Longrightarrow> rolling_ok xxh64 (detector_reset d) []"
  by (auto simp: rolling_ok_def detector_reset_def window_clear_ok window_list_def window_clear_def last_n_def
      buzhash_def window_ok_def)

lemma detector_ok_reset: "detector_ok xxh64 d fed \<Longrightarrow> detector_ok xxh64 (detector_reset d) []"
  using rolling_ok_reset [of xxh64 d fed]
  by (auto simp: detector_ok_def split: boundary_rule.splits) (simp_all add: detector_reset_def window_clear_def)

lemma detector_new_ok:
  assumes "detector_new spec level = Inr d"
  shows "detector_ok xxh64 d [] \<and> bd_spec d = level_spec spec level"
proof -
  have v: "chunking_validate (level_spec spec level) = Inr ()"
    using assms level_spec_valid by (auto simp: detector_new_def and_then_Inr_iff)
  have "0 < unat w" if "cs_rule (level_spec spec level) = RollingBuzHash w" for w
    using v that by (auto simp: chunking_validate_iff unat_gt_0)
  then show ?thesis
    using assms v
    by (auto simp: detector_new_def and_then_Inr_iff Let_def detector_ok_def rolling_ok_def cache_ok_new
        window_ok_new window_list_def rolling_window_new_def last_n_def buzhash_def window_ok_def
        split: boundary_rule.splits)
qed

text \<open>The decision after the counters and the rolling hash have been updated.\<close>

definition decide :: "u64 \<Rightarrow> detector \<Rightarrow> error + bool" where
  "decide input_hash d =
     (if cs_hard_max_node_bytes (bd_spec d) \<le> bd_encoded_bytes d \<or> cs_max (bd_spec d) \<le> measure_of d then Inr True
      else if measure_of d < cs_min (bd_spec d) then Inr False
      else rule_boundary input_hash d)"

lemma measure_of_mono: "measure_of d \<le> measure_of (observe_counters key val enc d)"
proof -
  have "a \<le> saturating_add a b" for a b
    using unat_u64_lt [of a] by (simp add: word_le_nat_alt unat_saturating_add)
  then show ?thesis
    by (simp add: measure_of_def observe_counters_def split: chunk_measure.splits) (meson order_trans)
qed

lemma decide_total:
  assumes "chunking_validate (bd_spec d) = Inr ()" "bd_previous_measure d \<le> measure_of d"
  shows "\<exists>b. decide input_hash d = Inr b"
proof -
  obtain t where "deterministic_exponential_threshold
      (unat (saturating_sub (max (measure_of d) (cs_min (bd_spec d))) (max (bd_previous_measure d) (cs_min (bd_spec d)))))
      (unat (max (saturating_sub (cs_target (bd_spec d)) (cs_min (bd_spec d))) 1)) = Inr t"
    using threshold_total [OF unat_le_u128] by blast
  then have "\<exists>b. rule_boundary input_hash d = Inr b"
    using assms weibull_total [OF assms(2)]
    by (auto simp: rule_boundary_def chunking_validate_iff threshold_hit_def Let_def split: boundary_rule.splits)
  then show ?thesis by (auto simp: decide_def)
qed

lemma measure_of_same: "same_counters d d' \<Longrightarrow> measure_of d' = measure_of d"
  by (simp add: same_counters_def measure_of_def split: chunk_measure.split)

lemma observe_unfold:
  assumes "\<not> (bd_entries d = 0 \<and> cs_hard_max_node_bytes (bd_spec d) < enc)"
  shows "observe xxh64 key val enc d =
    and_then (if is_rolling (cs_rule (bd_spec d)) then observe_rolling xxh64 key val (observe_counters key val enc d)
              else Inr (observe_counters key val enc d)) (\<lambda>d2.
    and_then (decide (hash_entry xxh64 (bd_seed d) (cs_input (bd_spec d)) key val) d2) (\<lambda>boundary.
    Inr (boundary, if boundary then detector_reset d2 else d2)))"
proof -
  have "bd_spec (observe_counters key val enc d) = bd_spec d" "bd_seed (observe_counters key val enc d) = bd_seed d"
    by (simp_all add: observe_counters_def)
  with assms show ?thesis by (simp only: observe_def decide_def Let_def if_False)
qed

text \<open>One observation: it succeeds unless the first entry of a chunk is too large.\<close>

lemma observe_step:
  assumes "detector_ok xxh64 d fed" "\<not> (bd_entries d = 0 \<and> cs_hard_max_node_bytes (bd_spec d) < enc)"
  obtains b d2 where
    "observe xxh64 key val enc d = Inr (b, if b then detector_reset d2 else d2)"
    "same_counters (observe_counters key val enc d) d2"
    "detector_ok xxh64 d2 (fed @ hash_input (cs_input (bd_spec d)) key val)"
    "decide (hash_entry xxh64 (bd_seed d) (cs_input (bd_spec d)) key val) d2 = Inr b"
proof -
  let ?d1 = "observe_counters key val enc d"
  have d1: "bd_spec ?d1 = bd_spec d" "bd_seed ?d1 = bd_seed d" "bd_previous_measure ?d1 = measure_of d"
    "bd_window ?d1 = bd_window d" "bd_cache ?d1 = bd_cache d" "bd_rolling_hash ?d1 = bd_rolling_hash d"
    by (simp_all add: observe_counters_def)
  have roll1: "rolling_ok xxh64 d fed \<Longrightarrow> rolling_ok xxh64 ?d1 fed" by (simp add: rolling_ok_def d1)
  obtain d2 where d2: "(if is_rolling (cs_rule (bd_spec ?d1)) then observe_rolling xxh64 key val ?d1 else Inr ?d1) = Inr d2"
    "same_counters ?d1 d2" "is_rolling (cs_rule (bd_spec d)) \<Longrightarrow> rolling_ok xxh64 d2 (fed @ hash_input (cs_input (bd_spec d)) key val)"
  proof (cases "is_rolling (cs_rule (bd_spec d))")
    case True
    then have "rolling_ok xxh64 ?d1 fed"
      using assms(1) roll1 by (auto simp: detector_ok_def split: boundary_rule.splits)
    from observe_rolling_ok [OF this, of key val] True that show ?thesis by (auto simp: d1)
  qed (use that same_counters_refl d1 in auto)
  have ok2: "detector_ok xxh64 d2 (fed @ hash_input (cs_input (bd_spec d)) key val)"
    using assms(1) d2(2,3) by (auto simp: detector_ok_def same_counters_def d1 split: boundary_rule.splits)
  have "bd_previous_measure d2 \<le> measure_of d2"
    using d2(2) measure_of_mono [of d key val enc] by (simp add: measure_of_same) (simp add: same_counters_def d1)
  then obtain b where "decide (hash_entry xxh64 (bd_seed d) (cs_input (bd_spec d)) key val) d2 = Inr b"
    using decide_total ok2 by (auto simp: detector_ok_def)
  with that [of b d2] d2 ok2 show ?thesis
    by (simp add: observe_unfold [OF assms(2)] d1)
qed

primrec observe_all :: "xxhash \<Rightarrow> (bytes \<times> bytes \<times> u64) list \<Rightarrow> detector \<Rightarrow> error + bool list \<times> detector" where
  "observe_all xxh64 [] d = Inr ([], d)"
| "observe_all xxh64 (e # es) d =
     and_then (observe xxh64 (fst e) (fst (snd e)) (snd (snd e)) d) (\<lambda>(b, d').
     and_then (observe_all xxh64 es d') (\<lambda>(bs, d''). Inr (b # bs, d'')))"

lemma observe_cases:
  assumes "detector_ok xxh64 d fed"
  shows "(\<exists>n l. observe xxh64 key val enc d = Inl (EntryTooLarge n l)) \<or>
    (\<exists>b d'. observe xxh64 key val enc d = Inr (b, d') \<and>
       detector_ok xxh64 d' (if b then [] else fed @ hash_input (cs_input (bd_spec d)) key val) \<and>
       bd_spec d' = bd_spec d \<and> bd_seed d' = bd_seed d)"
proof (cases "bd_entries d = 0 \<and> cs_hard_max_node_bytes (bd_spec d) < enc")
  case True
  then show ?thesis by (simp add: observe_def)
next
  case False
  from observe_step [OF assms False, of key val] obtain b d2 where
    o: "observe xxh64 key val enc d = Inr (b, if b then detector_reset d2 else d2)"
    and s: "same_counters (observe_counters key val enc d) d2"
    and ok: "detector_ok xxh64 d2 (fed @ hash_input (cs_input (bd_spec d)) key val)" .
  have "bd_spec d2 = bd_spec d" "bd_seed d2 = bd_seed d" using s by (auto simp: same_counters_def observe_counters_def)
  then show ?thesis using o ok detector_ok_reset [OF ok] by (auto simp: detector_reset_def)
qed

lemma observe_all_no_panic:
  "detector_ok xxh64 d fed \<Longrightarrow> observe_all xxh64 es d \<noteq> Inl (Panic m)"
proof (induction es arbitrary: d fed)
  case (Cons e es)
  show ?case
    using observe_cases [OF Cons.prems, of "fst e" "fst (snd e)" "snd (snd e)"]
  proof (elim disjE exE conjE)
    fix b d'
    assume "observe xxh64 (fst e) (fst (snd e)) (snd (snd e)) d = Inr (b, d')"
      "detector_ok xxh64 d' (if b then [] else fed @ hash_input (cs_input (bd_spec d)) (fst e) (fst (snd e)))"
    with Cons.IH show ?thesis by (cases "observe_all xxh64 es d'") auto
  qed simp
qed simp

lemma observe_decide:
  assumes "observe xxh64 key val enc d = Inr (b, d')" "detector_ok xxh64 d fed"
  obtains d2 where "same_counters (observe_counters key val enc d) d2"
    "decide (hash_entry xxh64 (bd_seed d) (cs_input (bd_spec d)) key val) d2 = Inr b"
    "d' = (if b then detector_reset d2 else d2)"
proof -
  have "\<not> (bd_entries d = 0 \<and> cs_hard_max_node_bytes (bd_spec d) < enc)"
    using assms(1) by (auto simp: observe_def)
  from observe_step [OF assms(2) this, of key val] obtain b' d2 where
    "observe xxh64 key val enc d = Inr (b', if b' then detector_reset d2 else d2)"
    "same_counters (observe_counters key val enc d) d2"
    "decide (hash_entry xxh64 (bd_seed d) (cs_input (bd_spec d)) key val) d2 = Inr b'" .
  with assms(1) that [of d2] show ?thesis by (cases b) auto
qed

text \<open>The elements after the last position that was marked.\<close>

definition since_last :: "bool list \<Rightarrow> 'a list \<Rightarrow> 'a list" where
  "since_last bs xs = map snd (rev (takeWhile (\<lambda>(b, x). \<not> b) (rev (zip bs xs))))"

lemma since_last_none: "length bs = length xs \<Longrightarrow> True \<notin> set bs \<Longrightarrow> since_last bs xs = xs"
  by (subst since_last_def, subst takeWhile_eq_all_conv [THEN iffD2]) (auto dest: set_zip_leftD)

lemma since_last_Cons:
  assumes "length bs = length xs"
  shows "since_last (b # bs) (x # xs) = (if True \<in> set bs then since_last bs xs else if b then xs else x # xs)"
proof (cases "True \<in> set bs")
  case True
  then obtain i where "i < length bs" "bs ! i" by (auto simp: in_set_conv_nth)
  then have "(True, xs ! i) \<in> set (zip bs xs)" using assms by (auto simp: in_set_zip intro: exI [of _ i])
  then show ?thesis using True by (auto simp: since_last_def takeWhile_append1 split: prod.split)
next
  case False
  then show ?thesis
    using assms since_last_none [of bs xs] since_last_none [of "b # bs" "x # xs"]
    by (cases b) (simp_all add: since_last_def takeWhile_tail)
qed

lemma observe_all_ok:
  assumes "detector_ok xxh64 d fed" "observe_all xxh64 es d = Inr (bs, d')"
  shows "bd_spec d' = bd_spec d \<and> bd_seed d' = bd_seed d \<and> length bs = length es \<and>
    detector_ok xxh64 d' ((if True \<in> set bs then [] else fed) @
      concat (map (\<lambda>(k, v, n). hash_input (cs_input (bd_spec d)) k v) (since_last bs es)))"
  using assms
proof (induction es arbitrary: d fed bs)
  case (Cons e es)
  obtain k v n where e: "e = (k, v, n)" by (cases e)
  from Cons.prems(2) obtain b d1 bs' where o: "observe xxh64 k v n d = Inr (b, d1)"
    and r: "observe_all xxh64 es d1 = Inr (bs', d')" and bs: "bs = b # bs'"
    by (auto simp: e and_then_Inr_iff)
  have d1: "detector_ok xxh64 d1 (if b then [] else fed @ hash_input (cs_input (bd_spec d)) k v)"
    "bd_spec d1 = bd_spec d" "bd_seed d1 = bd_seed d"
    using observe_cases [OF Cons.prems(1), of k v n] o by auto
  note ih = Cons.IH [OF d1(1) r]
  then have "length bs' = length es" by simp
  from since_last_Cons [OF this, of b e] since_last_none [OF this] ih d1(2,3) show ?case
    by (cases "True \<in> set bs'"; cases b) (simp_all add: bs e)
qed (simp add: since_last_def)

section \<open>Entry-count policies\<close>

text \<open>
  With an entry-count measure and a hash threshold the decision depends on the position in
  the chunk and on the entry alone, which is what the parallel builder uses.
\<close>

lemma decide_entry_count:
  assumes "cs_measure (bd_spec d) = EntryCount" "cs_rule (bd_spec d) = HashThreshold factor" "factor \<noteq> 0"
  shows "decide input_hash d = Inr (cs_hard_max_node_bytes (bd_spec d) \<le> bd_encoded_bytes d \<or>
    cs_max (bd_spec d) \<le> bd_entries d \<or>
    (cs_min (bd_spec d) \<le> bd_entries d \<and> (ucast input_hash :: u32) \<le> - 1 div factor))"
  using assms by (auto simp: decide_def measure_of_def rule_boundary_def Let_def threshold_hit_def not_less)

lemma entry_count_boundary_eq:
  assumes "chunking_validate spec = Inr ()" "cs_measure spec = EntryCount" "cs_input spec = Key"
    "cs_rule spec = HashThreshold factor"
  shows "entry_count_boundary xxh64 spec level count key = Inr (cs_max spec \<le> count \<or>
    (cs_min spec \<le> count \<and> (ucast (hash_entry xxh64 (level_seed spec level) Key key []) :: u32) \<le> - 1 div factor))"
proof -
  have "factor \<noteq> 0" using assms by (simp add: chunking_validate_iff)
  with assms show ?thesis
    by (auto simp: entry_count_boundary_def threshold_hit_def hash_entry_def hash_input_def not_less)
qed

lemma hash_entry_Key: "hash_entry xxh64 seed Key key val = hash_entry xxh64 seed Key key []"
  by (simp add: hash_entry_def hash_input_def)

definition unit_chunks :: chunking_spec where
  "unit_chunks = chunking_default\<lparr>cs_min := 1, cs_target := 1, cs_max := 1\<rparr>"

text \<open>
  C32 (\<open>entry_count_boundary\<close>).  The probe used by the mutation paths ignores the raised minimum of internal levels: with a
  minimum of one it closes a chunk where the detector leaves it open.
\<close>

theorem entry_count_probe_disagrees:
  "\<exists>d. detector_new unit_chunks 1 = Inr d \<and>
     entry_count_boundary xxh64 unit_chunks 1 1 key = Inr True \<and>
     (\<exists>d'. observe xxh64 key val 5 d = Inr (False, d'))"
proof -
  have v: "chunking_validate unit_chunks = Inr ()" by code_simp
  then obtain d where d: "detector_new unit_chunks 1 = Inr d"
    and spec: "bd_spec d = unit_chunks\<lparr>cs_min := 2, cs_target := 2, cs_max := 2\<rparr>" "bd_entries d = 0" "bd_encoded_bytes d = 0"
    by (simp add: detector_new_def Let_def level_spec_def unit_chunks_def)
  have "observe xxh64 key val 5 d = Inr (False, observe_counters key val 5 d)"
    using spec by (simp add: observe_unfold decide_def observe_counters_def measure_of_def unit_chunks_def
        chunking_default_def saturating_add_def word_le_nat_alt word_less_nat_alt)
  moreover have "entry_count_boundary xxh64 unit_chunks 1 1 key = Inr True"
    using v by (simp add: entry_count_boundary_def unit_chunks_def chunking_default_def)
  ultimately show ?thesis using d by blast
qed

section \<open>Properties\<close>

text \<open>
  C17 (\<open>BoundaryDetector::new\<close>, \<open>observe\<close>, \<open>deterministic_exponential_threshold\<close>).  No sequence of
  observations makes a detector panic: every division, subtraction, multiplication and index
  of the boundary code is in range for every persisted policy the validator accepts, every
  level, every hash function and every entry; the only error is an oversized entry.
\<close>

theorem detector_never_panics:
  assumes "detector_new spec level = Inr d"
  shows "observe_all xxh64 es d \<noteq> Inl (Panic m)"
  using observe_all_no_panic detector_new_ok [OF assms] by blast

theorem detector_never_panics_witness:
  "\<exists>d. detector_new logical_bytes_rolling_hash 3 = Inr d \<and>
     observe_all (\<lambda>seed bs. seed) [([1], [2], 5)] d \<noteq> Inl (Panic [])"
proof -
  have "chunking_validate logical_bytes_rolling_hash = Inr ()" by code_simp
  then obtain d where "detector_new logical_bytes_rolling_hash 3 = Inr d"
    by (simp add: detector_new_def Let_def)
  with detector_never_panics [OF this] show ?thesis by blast
qed

text \<open>
  C18 (\<open>BoundaryDetector::observe\<close>).  A chunk is closed after an entry exactly when the policy
  says so: never past the maximum measure or the hard byte cap, never below the minimum
  measure unless the cap forces it; an open chunk stays strictly below both maxima, and
  closing a chunk starts the next one from zero.
\<close>

theorem observe_chunk_bounds:
  assumes "detector_new spec level = Inr d0" "observe_all xxh64 es d0 = Inr (bs, d)"
    "observe xxh64 key val enc d = Inr (b, d')"
  shows "if b then
      (cs_min (bd_spec d) \<le> measure_of (observe_counters key val enc d) \<or>
       cs_hard_max_node_bytes (bd_spec d) \<le> bd_encoded_bytes (observe_counters key val enc d)) \<and>
      measure_of d' = 0 \<and> bd_encoded_bytes d' = 0
    else measure_of d' = measure_of (observe_counters key val enc d) \<and> measure_of d' < cs_max (bd_spec d) \<and>
      bd_encoded_bytes d' < cs_hard_max_node_bytes (bd_spec d)"
proof -
  obtain fed where ok: "detector_ok xxh64 d fed"
    using observe_all_ok [OF _ assms(2)] detector_new_ok [OF assms(1)] by blast
  from observe_decide [OF assms(3) ok] obtain d2 where
    s: "same_counters (observe_counters key val enc d) d2"
    and dec: "decide (hash_entry xxh64 (bd_seed d) (cs_input (bd_spec d)) key val) d2 = Inr b"
    and d': "d' = (if b then detector_reset d2 else d2)" .
  have c: "measure_of d2 = measure_of (observe_counters key val enc d)"
    "bd_encoded_bytes d2 = bd_encoded_bytes (observe_counters key val enc d)" "bd_spec d2 = bd_spec d"
    using s by (auto simp: measure_of_same) (auto simp: same_counters_def observe_counters_def)
  show ?thesis
    using dec d' ok by (auto simp: decide_def c detector_ok_def chunking_validate_iff not_le not_less split: if_splits)
      (auto simp: detector_reset_def measure_of_def split: chunk_measure.splits)
qed

theorem observe_chunk_bounds_witness:
  "\<exists>d b d'. detector_new entry_count_key_hash 0 = Inr d \<and>
     observe (\<lambda>seed bs. seed) [1] [2] 5 d = Inr (b, d') \<and> \<not> b \<and> measure_of d' < cs_max (bd_spec d)"
proof -
  have "chunking_validate entry_count_key_hash = Inr ()" by code_simp
  then obtain d where d: "detector_new entry_count_key_hash 0 = Inr d"
    and spec: "bd_spec d = entry_count_key_hash" "bd_entries d = 0" "bd_encoded_bytes d = 0"
    by (simp add: detector_new_def Let_def level_spec_def)
  have "observe (\<lambda>seed bs. seed) [1] [2] 5 d = Inr (False, observe_counters [1] [2] 5 d)"
    using spec by (simp add: observe_unfold decide_def observe_counters_def measure_of_def entry_count_key_hash_def
        chunking_default_def default_max_chunk_size_def default_min_chunk_size_def saturating_add_def
        word_le_nat_alt)
  with observe_chunk_bounds [OF d _ this, of "[]" "[]"] d show ?thesis by auto
qed

text \<open>
  C19 (\<open>BoundaryDetector::observe_rolling\<close>, \<open>roll_byte\<close>, \<open>reset\<close>, \<open>RollingWindow\<close>, \<open>ByteHashCache\<close>).  After any
  sequence of entries, across any number of chunk boundaries, the incrementally maintained rolling
  hash is the cyclic polynomial hash, computed from scratch, of the last \<open>window\<close> bytes fed since
  the last boundary; the circular buffer, the lazily filled hash cache and the resets
  change nothing.
\<close>

theorem rolling_hash_reference:
  assumes "detector_new spec level = Inr d0" "cs_rule spec = RollingBuzHash window"
    "observe_all xxh64 es d0 = Inr (bs, d)"
  shows "bd_rolling_hash d = buzhash (byte_hash xxh64 (bd_seed d0))
    (last_n (unat window) (concat (map (\<lambda>(k, v, n). hash_input (cs_input spec) k v) (since_last bs es))))"
proof -
  note ok0 = detector_new_ok [OF assms(1), of xxh64]
  have "cs_rule (bd_spec d0) = RollingBuzHash window" "cs_input (bd_spec d0) = cs_input spec"
    using ok0 assms(2) by (auto simp: level_spec_def)
  with observe_all_ok [OF conjunct1 [OF ok0] assms(3)] show ?thesis
    by (auto simp: detector_ok_def rolling_ok_def)
qed

text \<open>An entry as large as the hard cap closes its chunk, a small one after it does not.\<close>

lemma rolling_observe:
  assumes "detector_ok xxh64 d fed" "bd_spec d = logical_bytes_rolling_hash" "bd_entries d = 0" "bd_logical_bytes d = 0" "bd_encoded_bytes d = 0"
    "n \<le> cs_hard_max_node_bytes logical_bytes_rolling_hash"
  obtains d2 where "observe xxh64 [1] [2] n d = Inr (n = cs_hard_max_node_bytes logical_bytes_rolling_hash,
      if n = cs_hard_max_node_bytes logical_bytes_rolling_hash then detector_reset d2 else d2)"
    "detector_ok xxh64 d2 (fed @ hash_input (cs_input (bd_spec d)) [1] [2])" "bd_spec d2 = logical_bytes_rolling_hash"
proof -
  have "\<not> (bd_entries d = 0 \<and> cs_hard_max_node_bytes (bd_spec d) < n)" using assms(2,6) by (simp add: not_less)
  from observe_step [OF assms(1) this, of "[1]" "[2]"] obtain b d2 where
    o: "observe xxh64 [1] [2] n d = Inr (b, if b then detector_reset d2 else d2)"
    and s: "same_counters (observe_counters [1] [2] n d) d2"
    and ok: "detector_ok xxh64 d2 (fed @ hash_input (cs_input (bd_spec d)) [1] [2])"
    and dec: "decide (hash_entry xxh64 (bd_seed d) (cs_input (bd_spec d)) [1] [2]) d2 = Inr b" .
  have "measure_of d2 = 2" "bd_encoded_bytes d2 = n" and spec: "bd_spec d2 = logical_bytes_rolling_hash"
    using s assms(2-5) unat_u64_lt [of n] by (simp_all add: measure_of_same) (simp_all add: same_counters_def measure_of_def observe_counters_def
      saturating_add_def logical_bytes_rolling_hash_def)
  then have "b = (n = cs_hard_max_node_bytes logical_bytes_rolling_hash)"
    using dec assms(6) by (auto simp: decide_def logical_bytes_rolling_hash_def word_le_nat_alt word_less_nat_alt word_unat_eq_iff split: if_splits)
  with o ok spec that show thesis by blast
qed

theorem rolling_hash_reference_witness:
  "\<exists>d0 d. detector_new logical_bytes_rolling_hash 3 = Inr d0 \<and>
     observe_all (\<lambda>seed bs. seed) [([1], [2], cs_hard_max_node_bytes logical_bytes_rolling_hash), ([1], [2], 5)] d0 = Inr ([True, False], d) \<and>
     bd_rolling_hash d = buzhash (byte_hash (\<lambda>seed bs. seed) (bd_seed d0)) (last_n 64 (hash_input Key [1] [2]))"
proof -
  let ?h = "\<lambda>seed bs. seed :: u64" and ?max = "cs_hard_max_node_bytes logical_bytes_rolling_hash"
  have "chunking_validate logical_bytes_rolling_hash = Inr ()" by code_simp
  then obtain d0 where d0: "detector_new logical_bytes_rolling_hash 3 = Inr d0"
    and c: "bd_entries d0 = 0" "bd_logical_bytes d0 = 0" "bd_encoded_bytes d0 = 0" "bd_spec d0 = logical_bytes_rolling_hash"
    by (simp add: detector_new_def Let_def level_spec_def logical_bytes_rolling_hash_def)
  obtain d1 where d1: "observe ?h [1] [2] ?max d0 = Inr (True, detector_reset d1)" "detector_ok ?h (detector_reset d1) []"
    "bd_spec d1 = logical_bytes_rolling_hash"
    by (rule rolling_observe [OF conjunct1 [OF detector_new_ok [OF d0, of ?h]] c(4,1-3) order_refl]) (auto intro: detector_ok_reset)
  obtain d where d: "observe ?h [1] [2] 5 (detector_reset d1) = Inr (False, d)"
    by (rule rolling_observe [OF d1(2), of 5]) (simp_all add: detector_reset_def d1(3), simp_all add: logical_bytes_rolling_hash_def)
  have "observe_all ?h [([1], [2], ?max), ([1], [2], 5)] d0 = Inr ([True, False], d)" using d1(1) d by simp
  with rolling_hash_reference [OF d0 _ this, of 64] d0 show ?thesis
    by (auto simp: logical_bytes_rolling_hash_def since_last_def)
qed

text \<open>
  C20 (\<open>entry_count_boundary\<close>, \<open>BoundaryDetector::observe\<close>).  The stateless probe the mutation
  paths use agrees with the detector on the entry-count key-hash policies, at the leaf level
  or when the minimum is at least two, except for the hard cap on the encoded bytes, which the
  probe does not see: the detector closes the chunk exactly when the probe says so or the
  encoded bytes of the chunk have reached the cap.
\<close>

theorem entry_count_probe_agrees:
  assumes "detector_new spec level = Inr d0" "cs_measure spec = EntryCount" "cs_input spec = Key"
    "cs_rule spec = HashThreshold factor" "level = 0 \<or> 2 \<le> cs_min spec"
    and "observe_all xxh64 es d0 = Inr (bs, d)" "observe xxh64 key val enc d = Inr (b, d')"
  shows "\<exists>probe. entry_count_boundary xxh64 spec level (bd_entries (observe_counters key val enc d)) key = Inr probe \<and>
    b = (probe \<or> cs_hard_max_node_bytes spec \<le> bd_encoded_bytes (observe_counters key val enc d))"
proof -
  have spec: "bd_spec d0 = spec" "bd_seed d0 = level_seed spec level"
    and v: "chunking_validate spec = Inr ()"
    using assms(1,5) by (auto simp: detector_new_def and_then_Inr_iff Let_def level_spec_def word_le_nat_alt word_less_nat_alt)
  obtain fed where ok: "detector_ok xxh64 d fed" and d: "bd_spec d = spec" "bd_seed d = level_seed spec level"
    using observe_all_ok [OF _ assms(6)] detector_new_ok [OF assms(1)] spec by metis
  from observe_decide [OF assms(7) ok] obtain d2 where
    s: "same_counters (observe_counters key val enc d) d2"
    and dec: "decide (hash_entry xxh64 (bd_seed d) (cs_input (bd_spec d)) key val) d2 = Inr b" .
  have d2: "bd_spec d2 = spec" "bd_entries d2 = bd_entries (observe_counters key val enc d)"
    "bd_encoded_bytes d2 = bd_encoded_bytes (observe_counters key val enc d)"
    using s d by (auto simp: same_counters_def observe_counters_def)
  have "factor \<noteq> 0" using v assms(4) by (simp add: chunking_validate_iff)
  with dec decide_entry_count [of d2 factor] entry_count_boundary_eq [OF v assms(2-4)] assms(2-4) d d2 show ?thesis
    by (auto simp: hash_entry_Key [of _ _ _ val])
qed

theorem entry_count_probe_agrees_witness:
  "\<exists>d0 b d'. detector_new entry_count_key_hash 1 = Inr d0 \<and>
     observe (\<lambda>seed bs. seed) [1] [2] 5 d0 = Inr (b, d') \<and>
     entry_count_boundary (\<lambda>seed bs. seed) entry_count_key_hash 1 1 [1] = Inr b"
proof -
  let ?h = "\<lambda>seed bs. seed :: u64"
  have "chunking_validate entry_count_key_hash = Inr ()" by code_simp
  then obtain d0 where d0: "detector_new entry_count_key_hash 1 = Inr d0"
    and c: "bd_spec d0 = entry_count_key_hash" "bd_entries d0 = 0" "bd_encoded_bytes d0 = 0"
    by (simp add: detector_new_def Let_def level_spec_def entry_count_key_hash_def chunking_default_def
        default_min_chunk_size_def)
  have "observe ?h [1] [2] 5 d0 = Inr (False, observe_counters [1] [2] 5 d0)"
    using c by (simp add: observe_unfold decide_def observe_counters_def measure_of_def entry_count_key_hash_def
        chunking_default_def default_max_chunk_size_def default_min_chunk_size_def saturating_add_def word_le_nat_alt)
  with entry_count_probe_agrees [OF d0 _ _ _ _ _ this, of default_chunking_factor "[]" "[]"] c d0 show ?thesis
    by (auto simp: entry_count_key_hash_def chunking_default_def default_min_chunk_size_def observe_counters_def
        saturating_add_def)
qed

text \<open>
  C21 (\<open>scaled_ratio_q62\<close>, \<open>fractional_ratio_q62\<close>).  The fixed-point ratio is exact: whichever of
  the two code paths is taken, the result is the quotient rounded down, saturated at 128 bits.
\<close>

theorem scaled_ratio_is_division:
  assumes "0 < denominator" "denominator \<le> u128_max"
  shows "scaled_ratio_q62 numerator denominator = Inr (min (numerator * 2 ^ 62 div denominator) u128_max)"
  using scaled_ratio_exact [OF assms] by (simp add: q62_def)

theorem scaled_ratio_is_division_witness: "scaled_ratio_q62 7 2 = Inr (7 * 2 ^ 62 div 2)"
  using scaled_ratio_is_division [of 2 7] by (simp add: u128_max_def)

end
