(* ===== verification/Node_Codec.thy ===== *)
theory Node_Codec
  imports Tree_Format
begin

text \<open>
  Nodes and their compact encoding (\<^verbatim>\<open>src/src/prolly/node.rs\<close>): the node record, the
  LEB128 integers, the three entry layouts, the decoder with every check it makes, the
  exact length computation, and the structural validation.  Allocations sized by decoded
  numbers are modelled as far as Rust defines them: a capacity above \<open>isize::MAX\<close> bytes
  panics.
\<close>

section \<open>Definitions\<close>

definition compact_magic :: bytes where "compact_magic = [0x43, 0x52, 0x41, 0x42]"
definition compact_version :: u64 where "compact_version = 2"
definition init_level :: u8 where "init_level = 0"

record node =
  nd_keys :: "bytes list"
  nd_vals :: "bytes list"
  nd_child_counts :: "u64 list"
  nd_leaf :: bool
  nd_level :: u8
  nd_format :: tree_format

definition node_default :: node where
  "node_default =
     \<lparr>nd_keys = [], nd_vals = [], nd_child_counts = [], nd_leaf = True, nd_level = init_level,
      nd_format = tree_format_default\<rparr>"

definition new_leaf :: node where
  "new_leaf = node_default"

definition new_internal :: "u8 \<Rightarrow> node" where
  "new_internal level = node_default\<lparr>nd_leaf := False, nd_level := level\<rparr>"

definition node_len :: "node \<Rightarrow> nat" where
  "node_len n = length (nd_keys n)"

fun any_adjacent :: "('a \<Rightarrow> 'a \<Rightarrow> bool) \<Rightarrow> 'a list \<Rightarrow> bool" where
  "any_adjacent P (x # y # xs) = (P x y \<or> any_adjacent P (y # xs))"
| "any_adjacent P xs = False"

definition node_validate :: "node \<Rightarrow> error + unit" where
  "node_validate n =
     and_then (format_validate (nd_format n)) (\<lambda>_.
     if length (nd_keys n) \<noteq> length (nd_vals n) \<or> any_adjacent (\<ge>) (nd_keys n) then Inl InvalidNode
     else if nd_leaf n then
       (if nd_child_counts n \<noteq> [] then Inl InvalidNode else Inr ())
     else if nd_keys n = [] \<or> length (nd_child_counts n) \<noteq> length (nd_keys n) \<or>
         0 \<in> set (nd_child_counts n) then Inl InvalidNode
     else Inr ())"

definition min_chunk_size :: "node \<Rightarrow> u64" where
  "min_chunk_size n = cs_min (tf_chunking (nd_format n))"

definition max_chunk_size :: "node \<Rightarrow> u64" where
  "max_chunk_size n = cs_max (tf_chunking (nd_format n))"

definition node_chunking_factor :: "node \<Rightarrow> u32" where
  "node_chunking_factor n =
     (case cs_rule (tf_chunking (nd_format n)) of
        HashThreshold factor \<Rightarrow> factor
      | _ \<Rightarrow> (let target = cs_target (tf_chunking (nd_format n)) in
          if unat target < 2 ^ 32 then ucast target else - 1))"

subsection \<open>The builder\<close>

record node_builder =
  nb_keys :: "bytes list"
  nb_vals :: "bytes list"
  nb_child_counts :: "u64 list"
  nb_leaf :: bool
  nb_level :: u8
  nb_format :: tree_format

definition node_builder_new :: node_builder where
  "node_builder_new =
     \<lparr>nb_keys = [], nb_vals = [], nb_child_counts = [], nb_leaf = True, nb_level = init_level,
      nb_format = tree_format_default\<rparr>"

definition builder_keys :: "bytes list \<Rightarrow> node_builder \<Rightarrow> node_builder" where
  "builder_keys keys b = b\<lparr>nb_keys := keys\<rparr>"

definition builder_vals :: "bytes list \<Rightarrow> node_builder \<Rightarrow> node_builder" where
  "builder_vals vals b = b\<lparr>nb_vals := vals\<rparr>"

definition builder_child_counts :: "u64 list \<Rightarrow> node_builder \<Rightarrow> node_builder" where
  "builder_child_counts counts b = b\<lparr>nb_child_counts := counts\<rparr>"

definition builder_leaf :: "bool \<Rightarrow> node_builder \<Rightarrow> node_builder" where
  "builder_leaf leaf b = b\<lparr>nb_leaf := leaf\<rparr>"

definition builder_level :: "u8 \<Rightarrow> node_builder \<Rightarrow> node_builder" where
  "builder_level level b = b\<lparr>nb_level := level\<rparr>"

definition builder_chunking :: "(chunking_spec \<Rightarrow> chunking_spec) \<Rightarrow> node_builder \<Rightarrow> node_builder" where
  "builder_chunking g b = b\<lparr>nb_format := (nb_format b)\<lparr>tf_chunking := g (tf_chunking (nb_format b))\<rparr>\<rparr>"

definition builder_min_chunk_size :: "u64 \<Rightarrow> node_builder \<Rightarrow> node_builder" where
  "builder_min_chunk_size sz = builder_chunking (\<lambda>s.
     s\<lparr>cs_min := sz, cs_target := max (cs_target s) sz, cs_max := max (cs_max s) sz\<rparr>)"

definition builder_max_chunk_size :: "u64 \<Rightarrow> node_builder \<Rightarrow> node_builder" where
  "builder_max_chunk_size sz = builder_chunking (\<lambda>s.
     s\<lparr>cs_max := sz, cs_target := min (cs_target s) sz, cs_min := min (cs_min s) sz\<rparr>)"

definition builder_chunking_factor :: "u32 \<Rightarrow> node_builder \<Rightarrow> node_builder" where
  "builder_chunking_factor factor = builder_chunking (\<lambda>s. s\<lparr>cs_rule := HashThreshold factor\<rparr>)"

definition builder_hash_seed :: "u64 \<Rightarrow> node_builder \<Rightarrow> node_builder" where
  "builder_hash_seed seed = builder_chunking (\<lambda>s. s\<lparr>cs_hash_seed := seed\<rparr>)"

definition builder_encoding :: "encoding \<Rightarrow> node_builder \<Rightarrow> node_builder" where
  "builder_encoding enc b = b\<lparr>nb_format := (nb_format b)\<lparr>tf_value_encoding := enc\<rparr>\<rparr>"

definition builder_tree_format :: "tree_format \<Rightarrow> node_builder \<Rightarrow> node_builder" where
  "builder_tree_format f b = b\<lparr>nb_format := f\<rparr>"

definition builder_build :: "node_builder \<Rightarrow> node" where
  "builder_build b =
     \<lparr>nd_keys = nb_keys b, nd_vals = nb_vals b, nd_child_counts = nb_child_counts b,
      nd_leaf = nb_leaf b, nd_level = nb_level b, nd_format = nb_format b\<rparr>"

subsection \<open>Variable-length integers\<close>

function write_varint :: "u64 \<Rightarrow> bytes" where
  "write_varint value =
     (if 0x80 \<le> value then ((ucast value AND 0x7f) OR 0x80) # write_varint (drop_bit 7 value)
      else [ucast value])"
  by pat_completeness auto

function varint_len :: "u64 \<Rightarrow> nat" where
  "varint_len value = (if 0x80 \<le> value then varint_len (drop_bit 7 value) + 1 else 1)"
  by pat_completeness auto

lemma unat_drop_bit_7: "unat (drop_bit 7 (value :: u64)) = unat value div 128"
  by (simp add: drop_bit_eq_div unat_div)

lemma drop_bit_7_decreases: "0x80 \<le> value \<Longrightarrow> unat (drop_bit 7 (value :: u64)) < unat value"
  by (simp add: unat_drop_bit_7 word_le_nat_alt)

termination write_varint
  by (relation "measure unat") (use drop_bit_7_decreases in auto)

termination varint_len
  by (relation "measure unat") (use drop_bit_7_decreases in auto)

declare write_varint.simps [simp del] varint_len.simps [simp del]

fun common_prefix_len :: "bytes \<Rightarrow> bytes \<Rightarrow> nat" where
  "common_prefix_len (x # xs) (y # ys) = (if x = y then Suc (common_prefix_len xs ys) else 0)"
| "common_prefix_len _ _ = 0"

subsection \<open>Writing\<close>

definition count_at :: "u64 list \<Rightarrow> nat \<Rightarrow> u64" where
  "count_at counts i = (if i < length counts then counts ! i else 0)"

definition write_count :: "bool \<Rightarrow> u64 list \<Rightarrow> nat \<Rightarrow> bytes" where
  "write_count leaf counts i = (if leaf then [] else write_varint (count_at counts i))"

abbreviation write_len :: "nat \<Rightarrow> bytes" where
  "write_len n \<equiv> write_varint (of_nat n)"

fun write_prefix_entries :: "bool \<Rightarrow> u64 list \<Rightarrow> bytes \<Rightarrow> nat \<Rightarrow> entry list \<Rightarrow> bytes" where
  "write_prefix_entries leaf counts previous i [] = []"
| "write_prefix_entries leaf counts previous i ((key, val) # es) =
     (let shared = common_prefix_len previous key; suffix = drop shared key in
      write_len shared @ write_len (length suffix) @ suffix @
      write_len (length val) @ val @ write_count leaf counts i @
      write_prefix_entries leaf counts key (Suc i) es)"

fun write_plain_entries :: "bool \<Rightarrow> u64 list \<Rightarrow> nat \<Rightarrow> entry list \<Rightarrow> bytes" where
  "write_plain_entries leaf counts i [] = []"
| "write_plain_entries leaf counts i ((key, val) # es) =
     write_len (length key) @ key @ write_len (length val) @ val @ write_count leaf counts i @
     write_plain_entries leaf counts (Suc i) es"

fun write_offset_entries :: "bool \<Rightarrow> u64 list \<Rightarrow> bytes \<Rightarrow> nat \<Rightarrow> entry list \<Rightarrow> bytes" where
  "write_offset_entries leaf counts payload i [] = write_len (length payload) @ payload"
| "write_offset_entries leaf counts payload i ((key, val) # es) =
     write_len (length payload) @ write_len (length key) @
     write_len (length (payload @ key)) @ write_len (length val) @ write_count leaf counts i @
     write_offset_entries leaf counts (payload @ key @ val) (Suc i) es"

definition node_entries :: "node \<Rightarrow> entry list" where
  "node_entries n = zip (nd_keys n) (nd_vals n)"

definition write_entries :: "node \<Rightarrow> error + bytes" where
  "write_entries n =
     (case tf_node_layout (nd_format n) of
        PrefixCompressed \<Rightarrow> Inr (write_prefix_entries (nd_leaf n) (nd_child_counts n) [] 0 (node_entries n))
      | Plain \<Rightarrow> Inr (write_plain_entries (nd_leaf n) (nd_child_counts n) 0 (node_entries n))
      | OffsetTable \<Rightarrow> Inr (write_offset_entries (nd_leaf n) (nd_child_counts n) [] 0 (node_entries n))
      | CustomLayout ident parameters \<Rightarrow> Inl (InvalidFormat ''node layout has no registered codec''))"

definition node_format_bytes :: "tree_format \<Rightarrow> error + bytes" where
  "node_format_bytes f = (if f = tree_format_default then Inr [] else canonical_bytes f)"

definition write_header :: "bytes \<Rightarrow> bool \<Rightarrow> u8 \<Rightarrow> nat \<Rightarrow> bytes" where
  "write_header format_bytes leaf level count =
     compact_magic @ write_varint compact_version @ write_len (length format_bytes) @ format_bytes @
     write_varint (if leaf then 1 else 0) @ write_varint (ucast level) @ write_len count"

definition to_compact_bytes :: "node \<Rightarrow> error + bytes" where
  "to_compact_bytes n =
     and_then (node_format_bytes (nd_format n)) (\<lambda>format_bytes.
     and_then (write_entries n) (\<lambda>body.
     Inr (write_header format_bytes (nd_leaf n) (nd_level n) (length (nd_keys n)) @ body)))"

subsection \<open>Exact length\<close>

abbreviation len_len :: "nat \<Rightarrow> nat" where
  "len_len n \<equiv> varint_len (of_nat n)"

definition count_len :: "bool \<Rightarrow> u64 list \<Rightarrow> nat \<Rightarrow> nat" where
  "count_len leaf counts i = (if leaf then 0 else varint_len (count_at counts i))"

fun prefix_entries_len :: "bool \<Rightarrow> u64 list \<Rightarrow> bytes \<Rightarrow> nat \<Rightarrow> entry list \<Rightarrow> nat" where
  "prefix_entries_len leaf counts previous i [] = 0"
| "prefix_entries_len leaf counts previous i ((key, val) # es) =
     (let shared = common_prefix_len previous key; suffix_len = length key - shared in
      len_len shared + len_len suffix_len + suffix_len + len_len (length val) + length val +
      count_len leaf counts i + prefix_entries_len leaf counts key (Suc i) es)"

fun plain_entries_len :: "bool \<Rightarrow> u64 list \<Rightarrow> nat \<Rightarrow> entry list \<Rightarrow> nat" where
  "plain_entries_len leaf counts i [] = 0"
| "plain_entries_len leaf counts i ((key, val) # es) =
     len_len (length key) + length key + len_len (length val) + length val +
     count_len leaf counts i + plain_entries_len leaf counts (Suc i) es"

fun offset_entries_len :: "bool \<Rightarrow> u64 list \<Rightarrow> nat \<Rightarrow> nat \<Rightarrow> entry list \<Rightarrow> nat" where
  "offset_entries_len leaf counts payload_len i [] = len_len payload_len + payload_len"
| "offset_entries_len leaf counts payload_len i ((key, val) # es) =
     len_len payload_len + len_len (length key) + len_len (payload_len + length key) +
     len_len (length val) + count_len leaf counts i +
     offset_entries_len leaf counts (payload_len + length key + length val) (Suc i) es"

definition entries_len :: "node \<Rightarrow> error + nat" where
  "entries_len n =
     (case tf_node_layout (nd_format n) of
        PrefixCompressed \<Rightarrow> Inr (prefix_entries_len (nd_leaf n) (nd_child_counts n) [] 0 (node_entries n))
      | Plain \<Rightarrow> Inr (plain_entries_len (nd_leaf n) (nd_child_counts n) 0 (node_entries n))
      | OffsetTable \<Rightarrow> Inr (offset_entries_len (nd_leaf n) (nd_child_counts n) 0 0 (node_entries n))
      | CustomLayout ident parameters \<Rightarrow> Inl (InvalidFormat ''node layout has no registered codec''))"

definition try_encoded_len :: "node \<Rightarrow> error + nat" where
  "try_encoded_len n =
     and_then (node_format_bytes (nd_format n)) (\<lambda>format_bytes.
     and_then (entries_len n) (\<lambda>body_len.
     Inr (length compact_magic + varint_len compact_version + len_len (length format_bytes) +
       length format_bytes + varint_len (if nd_leaf n then 1 else 0) +
       varint_len (ucast (nd_level n)) + len_len (length (nd_keys n)) + body_len)))"

subsection \<open>Reading\<close>

definition compact_error :: "string \<Rightarrow> error" where
  "compact_error message = Deserialize (''compact node: '' @ message)"

definition compact_read_bytes :: "nat \<Rightarrow> (error, bytes) reader" where
  "compact_read_bytes =
     cursor_read (compact_error ''byte range overflow'') (compact_error ''unexpected end of bytes'')"

definition compact_read_byte :: "(error, u8) reader" where
  "compact_read_byte c =
     (case remaining c of
        [] \<Rightarrow> Inl (compact_error ''unexpected end of bytes'')
      | b # rest \<Rightarrow> Inr (b, \<lparr>remaining = rest, position = position c + 1\<rparr>))"

definition expect_magic :: "(error, unit) reader" where
  "expect_magic c =
     (if length (remaining c) < length compact_magic \<or>
         take (length compact_magic) (remaining c) \<noteq> compact_magic
      then Inl (compact_error ''missing compact node magic'')
      else Inr ((), \<lparr>remaining = drop (length compact_magic) (remaining c),
        position = position c + length compact_magic\<rparr>))"

text \<open>The loop over at most ten bytes; \<open>shift\<close> grows by seven per byte.\<close>

fun read_varint_loop :: "nat \<Rightarrow> u64 \<Rightarrow> nat \<Rightarrow> (error, u64) reader" where
  "read_varint_loop 0 value shift = cfail (compact_error ''varint overflow'')"
| "read_varint_loop (Suc n) value shift =
     cbind compact_read_byte (\<lambda>byte.
       let part = ucast (byte AND 0x7f); value' = value OR push_bit shift part in
       if shift = 63 \<and> 1 < part then cfail (compact_error ''varint overflow'')
       else if byte AND 0x80 = 0 then creturn value'
       else read_varint_loop n value' (shift + 7))"

declare read_varint_loop.simps [simp del]

definition read_varint :: "(error, u64) reader" where
  "read_varint = read_varint_loop 10 0 0"

definition read_usize :: "(error, nat) reader" where
  "read_usize = cbind read_varint (\<lambda>value. creturn (unat value))"

definition read_u8_varint :: "(error, u8) reader" where
  "read_u8_varint = cbind read_varint (\<lambda>value.
     if unat value < 256 then creturn (ucast value) else cfail (compact_error ''level exceeds u8''))"

definition read_compact_child_count :: "bool \<Rightarrow> (error, u64) reader" where
  "read_compact_child_count leaf =
     (if leaf then creturn 0
      else cbind read_varint (\<lambda>child_count.
        if child_count = 0 then cfail InvalidNode else creturn child_count))"

text \<open>\<open>Vec::with_capacity\<close> panics when the requested buffer exceeds \<open>isize::MAX\<close> bytes.\<close>

definition with_capacity :: "nat \<Rightarrow> nat \<Rightarrow> (error, unit) reader" where
  "with_capacity elem_size capacity =
     (if elem_size * capacity < 2 ^ 63 then creturn () else cfail (Panic ''capacity overflow''))"

type_synonym columns = "bytes list \<times> bytes list \<times> u64 list"

definition push_count :: "bool \<Rightarrow> u64 list \<Rightarrow> (error, u64 list) reader" where
  "push_count leaf counts =
     (if leaf then creturn counts
      else cbind (read_compact_child_count False) (\<lambda>count. creturn (counts @ [count])))"

definition out_of_order :: "bytes list \<Rightarrow> bytes \<Rightarrow> bool" where
  "out_of_order keys key \<longleftrightarrow> keys \<noteq> [] \<and> key \<le> last keys"

definition previous_key :: "bytes list \<Rightarrow> bytes" where
  "previous_key keys = (if keys = [] then [] else last keys)"

definition read_prefix_key :: "bytes list \<Rightarrow> (error, bytes) reader" where
  "read_prefix_key keys =
     cbind read_usize (\<lambda>shared.
     if length (previous_key keys) < shared
     then cfail (compact_error ''shared key prefix exceeds previous key'')
     else cbind read_usize (\<lambda>suffix_len.
       cbind (with_capacity 1 (min (shared + suffix_len) (2 ^ 64 - 1))) (\<lambda>_.
       cbind (compact_read_bytes suffix_len) (\<lambda>suffix.
       creturn (take shared (previous_key keys) @ suffix)))))"

definition read_plain_key :: "bytes list \<Rightarrow> (error, bytes) reader" where
  "read_plain_key keys = cbind read_usize (\<lambda>key_len. compact_read_bytes key_len)"

text \<open>The body the prefix-compressed and the plain loop share after reading the key.\<close>

definition read_row :: "(bytes list \<Rightarrow> (error, bytes) reader) \<Rightarrow> bool \<Rightarrow> columns \<Rightarrow> (error, columns) reader" where
  "read_row read_key leaf = (\<lambda>(keys, vals, counts).
     cbind (read_key keys) (\<lambda>key.
     if out_of_order keys key then cfail InvalidNode
     else cbind read_usize (\<lambda>value_len.
       cbind (compact_read_bytes value_len) (\<lambda>val.
       cbind (push_count leaf counts) (\<lambda>counts'.
       creturn (keys @ [key], vals @ [val], counts'))))))"

primrec read_rows :: "nat \<Rightarrow> (columns \<Rightarrow> (error, columns) reader) \<Rightarrow> columns \<Rightarrow> (error, columns) reader" where
  "read_rows 0 row cols = creturn cols"
| "read_rows (Suc n) row cols = cbind (row cols) (read_rows n row)"

type_synonym slot = "nat \<times> nat \<times> nat \<times> nat"

primrec read_offsets :: "nat \<Rightarrow> bool \<Rightarrow> slot list \<Rightarrow> u64 list \<Rightarrow> (error, slot list \<times> u64 list) reader" where
  "read_offsets 0 leaf offsets counts = creturn (offsets, counts)"
| "read_offsets (Suc n) leaf offsets counts =
     cbind read_usize (\<lambda>key_offset.
     cbind read_usize (\<lambda>key_len.
     cbind read_usize (\<lambda>value_offset.
     cbind read_usize (\<lambda>value_len.
     cbind (push_count leaf counts) (\<lambda>counts'.
     read_offsets n leaf (offsets @ [(key_offset, key_len, value_offset, value_len)]) counts')))))"

definition slice_payload :: "bytes \<Rightarrow> nat \<Rightarrow> nat \<Rightarrow> error + bytes" where
  "slice_payload payload offset len =
     (if 2 ^ 64 \<le> offset + len then Inl (compact_error ''offset overflow'')
      else if length payload < offset + len then Inl (compact_error ''offset outside payload'')
      else Inr (take len (drop offset payload)))"

fun slice_rows :: "bytes \<Rightarrow> slot list \<Rightarrow> bytes list \<Rightarrow> bytes list \<Rightarrow> error + (bytes list \<times> bytes list)" where
  "slice_rows payload [] keys vals = Inr (keys, vals)"
| "slice_rows payload ((key_offset, key_len, value_offset, value_len) # offsets) keys vals =
     and_then (slice_payload payload key_offset key_len) (\<lambda>key.
     if out_of_order keys key then Inl InvalidNode
     else and_then (slice_payload payload value_offset value_len) (\<lambda>val.
       slice_rows payload offsets (keys @ [key]) (vals @ [val])))"

definition clift :: "'e + 'a \<Rightarrow> ('e, 'a) reader" where
  "clift r = (case r of Inl e \<Rightarrow> cfail e | Inr x \<Rightarrow> creturn x)"

definition read_offset_table :: "nat \<Rightarrow> bool \<Rightarrow> (error, columns) reader" where
  "read_offset_table entry_count leaf =
     cbind (with_capacity 32 entry_count) (\<lambda>_.
     cbind (read_offsets entry_count leaf [] []) (\<lambda>(offsets, counts).
     cbind read_usize (\<lambda>payload_len.
     cbind (compact_read_bytes payload_len) (\<lambda>payload.
     cbind (clift (slice_rows payload offsets [] [])) (\<lambda>(keys, vals).
     creturn (keys, vals, counts))))))"

definition read_columns :: "node_layout_spec \<Rightarrow> nat \<Rightarrow> bool \<Rightarrow> (error, columns) reader" where
  "read_columns layout entry_count leaf =
     (case layout of
        PrefixCompressed \<Rightarrow> read_rows entry_count (read_row read_prefix_key leaf) ([], [], [])
      | Plain \<Rightarrow> read_rows entry_count (read_row read_plain_key leaf) ([], [], [])
      | OffsetTable \<Rightarrow> read_offset_table entry_count leaf
      | CustomLayout ident parameters \<Rightarrow> cfail (InvalidFormat ''node layout has no registered codec''))"

text \<open>The header up to and including the entry count, as both decoders read it.\<close>

definition read_format :: "(error, tree_format) reader" where
  "read_format =
     cbind read_usize (\<lambda>format_len.
     if format_len = 0 then creturn tree_format_default
     else cbind (compact_read_bytes format_len) (\<lambda>bs. clift (from_canonical_bytes bs)))"

definition read_header :: "(error, tree_format \<times> bool \<times> u8 \<times> nat) reader" where
  "read_header =
     cbind expect_magic (\<lambda>_.
     cbind read_varint (\<lambda>version.
     if version \<noteq> compact_version then cfail (compact_error ''unsupported compact node version'')
     else cbind read_format (\<lambda>fmt.
       cbind (clift (format_validate fmt)) (\<lambda>_.
       cbind read_varint (\<lambda>flag.
       if flag \<noteq> 0 \<and> flag \<noteq> 1 then cfail (compact_error ''invalid leaf flag'')
       else cbind read_u8_varint (\<lambda>level.
         cbind read_usize (\<lambda>entry_count.
         creturn (fmt, flag = 1, level, entry_count))))))))"

definition read_compact_node :: "(error, node) reader" where
  "read_compact_node =
     cbind read_header (\<lambda>(fmt, leaf, level, entry_count).
     if \<not> leaf \<and> entry_count = 0 then cfail InvalidNode
     else cbind (with_capacity 24 entry_count) (\<lambda>_.
       cbind (read_columns (tf_node_layout fmt) entry_count leaf) (\<lambda>(keys, vals, counts).
       creturn \<lparr>nd_keys = keys, nd_vals = vals, nd_child_counts = counts, nd_leaf = leaf,
         nd_level = level, nd_format = fmt\<rparr>)))"

definition from_compact_bytes :: "bytes \<Rightarrow> error + node" where
  "from_compact_bytes data =
     and_then (read_compact_node (cursor_new data)) (\<lambda>(n, c).
     if cursor_done c then Inr n else Inl (compact_error ''trailing bytes in compact node''))"

definition from_bytes_with_format :: "hash256 \<Rightarrow> bytes \<Rightarrow> tree_format \<Rightarrow> error + node" where
  "from_bytes_with_format sha256 data expected =
     and_then (from_compact_bytes data) (\<lambda>n.
     if nd_format n \<noteq> expected then
       and_then (format_digest sha256 expected) (\<lambda>e.
       and_then (format_digest sha256 (nd_format n)) (\<lambda>a. Inl (FormatMismatch e a)))
     else Inr n)"

text \<open>\<open>to_bytes\<close> and \<open>encoded_len\<close> unwrap the fallible forms with \<open>expect\<close>.\<close>

definition expect_ok :: "error + 'a \<Rightarrow> error + 'a" where
  "expect_ok r = (case r of Inl e \<Rightarrow> Inl (Panic ''node uses a registered, valid persisted format'') | Inr x \<Rightarrow> Inr x)"

definition to_bytes :: "node \<Rightarrow> error + bytes" where
  "to_bytes n = expect_ok (to_compact_bytes n)"

definition encoded_len :: "node \<Rightarrow> error + nat" where
  "encoded_len n = expect_ok (try_encoded_len n)"

definition node_cid :: "hash256 \<Rightarrow> node \<Rightarrow> error + cid" where
  "node_cid sha256 n = and_then (to_bytes n) (\<lambda>bs. Inr (cid_from_bytes sha256 bs))"

section \<open>Variable-length integers\<close>

lemma bit_0x7f: "bit (0x7f :: int) n \<longleftrightarrow> n < 7"
  using bit_mask_iff [of 7 n, where 'a = int] by (simp add: mask_eq_exp_minus_1)

lemma bit_0x80: "bit (0x80 :: int) n \<longleftrightarrow> n = 7"
  using bit_exp_iff [of 7 n, where 'a = int] by simp

lemmas byte_bits = bit_0x7f bit_0x80 bit_simps

lemma cont_byte_part:
  "ucast (((ucast (w :: u64) AND 0x7f) OR 0x80) AND 0x7f :: u8) = w AND mask 7"
  by (rule bit_word_eqI) (auto simp: byte_bits)

lemma cont_byte_flag: "((ucast (w :: u64) AND 0x7f) OR 0x80) AND 0x80 \<noteq> (0 :: u8)"
proof
  assume "((ucast (w :: u64) AND 0x7f) OR 0x80) AND 0x80 = (0 :: u8)"
  then have "bit (((ucast w AND 0x7f) OR 0x80) AND 0x80 :: u8) 7 = bit (0 :: u8) 7" by simp
  then show False by (simp add: byte_bits)
qed

lemma small_word_bit:
  assumes "\<not> 0x80 \<le> (w :: u64)" "bit w n"
  shows "n < 7"
proof (rule ccontr)
  assume "\<not> n < 7"
  then have "(2 :: nat) ^ 7 \<le> 2 ^ n" by (intro power_increasing) auto
  moreover have "bit (unat w) n" using assms(2) by (simp add: bit_unsigned_iff)
  then have "odd (unat w div 2 ^ n)" by (simp add: bit_iff_odd)
  moreover have "unat w < 128" using assms(1) by (simp add: word_le_nat_alt)
  ultimately show False by (cases "unat w < 2 ^ n") auto
qed

lemma last_byte_part: "\<not> 0x80 \<le> w \<Longrightarrow> ucast ((ucast w AND 0x7f) :: u8) = (w :: u64)"
  by (rule bit_word_eqI) (auto simp: byte_bits dest: small_word_bit)

lemma last_byte_flag: "\<not> 0x80 \<le> w \<Longrightarrow> (ucast w AND 0x80) = (0 :: u8)" for w :: u64
  by (rule bit_word_eqI) (auto simp: byte_bits dest: small_word_bit)

lemma push_low_high:
  "push_bit s (w AND mask 7) OR push_bit (s + 7) (drop_bit 7 w) = push_bit s (w :: u64)"
  by (rule bit_word_eqI) (auto simp: bit_simps not_less, metis add.commute diff_diff_left le_add_diff_inverse2 less_diff_conv2 not_less)

lemma parses_read_byte: "parses compact_read_byte [b] b"
  by (simp add: parses_def compact_read_byte_def)

lemma parses_varint_cont:
  assumes "parses (read_varint_loop n (acc OR push_bit s (w AND mask 7)) (s + 7)) cs y" "s \<noteq> 63"
  shows "parses (read_varint_loop (Suc n) acc s) (((ucast (w :: u64) AND 0x7f) OR 0x80) # cs) y"
  unfolding read_varint_loop.simps
  by (rule parses_Cons [OF parses_read_byte])
    (use assms in \<open>simp only: Let_def cont_byte_part cont_byte_flag if_False simp_thms\<close>)

lemma parses_varint_last:
  assumes "\<not> 0x80 \<le> w" "\<not> (s = 63 \<and> 1 < w)"
  shows "parses (read_varint_loop (Suc n) acc s) [ucast (w :: u64)] (acc OR push_bit s w)"
  unfolding read_varint_loop.simps
  by (rule parses_Cons [OF parses_read_byte])
    (use assms in \<open>simp only: Let_def last_byte_part last_byte_flag if_True if_False simp_thms parses_return\<close>)

lemma parses_read_varint_loop:
  assumes "n = 10 - k" "k < 10" "unat w < 2 ^ (64 - 7 * k)"
  shows "parses (read_varint_loop n acc (7 * k)) (write_varint w) (acc OR push_bit (7 * k) w)"
  using assms
proof (induction n arbitrary: k w acc)
  case 0
  then show ?case by simp
next
  case (Suc n)
  show ?case
  proof (cases "0x80 \<le> w")
    case True
    then have big: "128 \<le> unat w" by (simp add: word_le_nat_alt)
    then have "(2 :: nat) ^ 7 < 2 ^ (64 - 7 * k)" using Suc.prems(3) by simp
    then have k: "7 < 64 - 7 * k" by (rule power_less_imp_less_exp [rotated]) simp
    have "64 - 7 * k = (64 - 7 * Suc k) + 7" using k by simp
    then have "unat w < 2 ^ ((64 - 7 * Suc k) + 7)" using Suc.prems(3) by metis
    then have "unat w < 2 ^ (64 - 7 * Suc k) * 128" by (simp add: power_add)
    then have "unat (drop_bit 7 w) < 2 ^ (64 - 7 * Suc k)"
      by (simp add: unat_drop_bit_7 less_mult_imp_div_less)
    then have IH: "parses (read_varint_loop n (acc OR push_bit (7 * k) (w AND mask 7)) (7 * Suc k))
        (write_varint (drop_bit 7 w))
        ((acc OR push_bit (7 * k) (w AND mask 7)) OR push_bit (7 * Suc k) (drop_bit 7 w))"
      using Suc.prems k by (intro Suc.IH) auto
    have "(acc OR push_bit (7 * k) (w AND mask 7)) OR push_bit (7 * Suc k) (drop_bit 7 w)
        = acc OR push_bit (7 * k) w"
      using push_low_high [of "7 * k" w] by (simp add: or.assoc add.commute)
    with IH have "parses (read_varint_loop n (acc OR push_bit (7 * k) (w AND mask 7)) (7 * k + 7))
        (write_varint (drop_bit 7 w)) (acc OR push_bit (7 * k) w)"
      by (metis mult_Suc_right add.commute)
    then have "parses (read_varint_loop (Suc n) acc (7 * k))
        (((ucast w AND 0x7f) OR 0x80) # write_varint (drop_bit 7 w)) (acc OR push_bit (7 * k) w)"
      by (rule parses_varint_cont) (use k in simp)
    with True show ?thesis by (metis write_varint.simps)
  next
    case False
    have "\<not> (7 * k = 63 \<and> 1 < w)" using Suc.prems(3) by (auto simp: word_less_nat_alt)
    with False show ?thesis by (metis parses_varint_last write_varint.simps)
  qed
qed

lemma ucast_ucast_byte: "ucast (ucast (b :: u8) :: u64) = b"
  by (rule bit_word_eqI) (simp add: bit_simps)

lemma unat_ucast_byte: "unat (ucast (b :: u8) :: u64) = unat b"
  by (simp add: unsigned_ucast_eq take_bit_eq_mod less_trans [OF unat_byte_lt])

lemma parses_read_varint: "parses read_varint (write_varint w) w"
  using parses_read_varint_loop [of 10 0 w 0] unat_u64_lt [of w] by (simp add: read_varint_def)

lemma parses_read_usize: "n < 2 ^ 64 \<Longrightarrow> parses read_usize (write_len n) n"
  unfolding read_usize_def
  by (rule parses_bind_last [OF parses_read_varint]) (simp add: parses_def creturn_def unat_of_nat_u64)

lemma parses_read_u8_varint: "parses read_u8_varint (write_varint (ucast b)) b"
  unfolding read_u8_varint_def
  by (rule parses_bind_last [OF parses_read_varint])
    (simp add: unat_ucast_byte unat_byte_lt ucast_ucast_byte parses_return)

lemma parses_read_bytes: "length bs = n \<Longrightarrow> parses (compact_read_bytes n) bs bs"
  by (simp add: compact_read_bytes_def parses_read)

lemma length_write_varint: "length (write_varint w) = varint_len w"
  by (induction w rule: write_varint.induct) (subst write_varint.simps, subst varint_len.simps, simp)

lemma varint_len_pos: "0 < varint_len w"
  by (subst varint_len.simps) simp

section \<open>Round trip of the entries\<close>

lemma common_prefix_len_le: "common_prefix_len xs ys \<le> length xs" "common_prefix_len xs ys \<le> length ys"
  by (induction xs ys rule: common_prefix_len.induct) auto

lemma take_common_prefix: "take (common_prefix_len xs ys) xs = take (common_prefix_len xs ys) ys"
  by (induction xs ys rule: common_prefix_len.induct) auto

lemma take_common_prefix_drop: "take (common_prefix_len xs ys) xs @ drop (common_prefix_len xs ys) ys = ys"
  by (metis append_take_drop_id take_common_prefix)

lemma parses_with_capacity: "e * n < 2 ^ 63 \<Longrightarrow> parses (with_capacity e n) [] ()"
  by (simp add: with_capacity_def parses_return)

lemma parses_clift: "parses (clift (Inr x)) [] x"
  by (simp add: clift_def parses_return)

lemma parses_push_count:
  assumes "\<not> leaf \<Longrightarrow> i < length counts \<and> counts ! i \<noteq> 0"
  shows "parses (push_count leaf acc) (write_count leaf counts i)
     (if leaf then acc else acc @ [counts ! i])"
proof (cases leaf)
  case False
  then have "parses (read_compact_child_count False) (write_varint (counts ! i)) (counts ! i)"
    using assms unfolding read_compact_child_count_def
    by (simp, intro parses_bind_last [OF parses_read_varint]) (simp add: parses_return)
  then show ?thesis using False assms unfolding push_count_def write_count_def count_at_def
    by (simp add: parses_bind_last parses_return)
qed (simp add: push_count_def write_count_def parses_return)

text \<open>A row of the prefix-compressed and of the plain layout.\<close>

lemma parses_row:
  assumes "parses (read_key keys) kbs key" "\<not> out_of_order keys key" "length val < 2 ^ 64"
    and "parses (push_count leaf acc) cbs acc'"
  shows "parses (read_row read_key leaf (keys, vals, acc)) (kbs @ write_len (length val) @ val @ cbs)
     (keys @ [key], vals @ [val], acc')"
  unfolding read_row_def
  by (simp, rule parses_bind [OF assms(1)])
    (use assms in \<open>simp, intro parses_bind [OF parses_read_usize] parses_bind [OF parses_read_bytes]
       parses_bind_last [OF assms(4)] parses_return, auto\<close>)

lemma parses_prefix_key:
  assumes "length key < 2 ^ 63" "length (previous_key keys) < 2 ^ 63"
    "shared = common_prefix_len (previous_key keys) key"
  shows "parses (read_prefix_key keys)
     (write_len shared @ write_len (length (drop shared key)) @ drop shared key) key"
proof -
  have le: "shared \<le> length (previous_key keys)" "shared \<le> length key"
    using assms(3) common_prefix_len_le by auto
  have key: "take shared (previous_key keys) @ drop shared key = key"
    using assms(3) take_common_prefix_drop by simp
  define suffix where "suffix = drop shared key"
  have len: "shared + length suffix = length key" using le by (simp add: suffix_def)
  have "parses (compact_read_bytes (length suffix)) suffix suffix" by (simp add: parses_read_bytes)
  then have "parses (cbind (compact_read_bytes (length suffix)) (\<lambda>bs. creturn (take shared (previous_key keys) @ bs)))
      suffix key"
    by (rule parses_bind_last) (rule parses_return_eq, use key in \<open>simp only: suffix_def\<close>)
  moreover have "parses (with_capacity 1 (min (shared + length suffix) (2 ^ 64 - 1))) [] ()"
    using assms(1) len by (intro parses_with_capacity) simp
  moreover have "parses read_usize (write_len (length suffix)) (length suffix)"
    "parses read_usize (write_len shared) shared"
    using assms(1) len by (auto intro!: parses_read_usize)
  ultimately show ?thesis
    using le unfolding read_prefix_key_def suffix_def [symmetric]
    by (auto simp: not_less intro!: parses_bind intro: parses_bind_first)
qed

lemma parses_plain_key:
  "length key < 2 ^ 63 \<Longrightarrow> parses (read_plain_key keys) (write_len (length key) @ key) key"
  unfolding read_plain_key_def
  by (rule parses_bind [OF parses_read_usize parses_read_bytes]) auto

lemma drop_Suc_nth_snoc: "i < length xs \<Longrightarrow> acc @ drop i xs = (acc @ [xs ! i]) @ drop (Suc i) xs"
  by (simp add: Cons_nth_drop_Suc)

text \<open>The child counts a node's rows append, from row \<open>i\<close> on.\<close>

definition counts_from :: "bool \<Rightarrow> u64 list \<Rightarrow> nat \<Rightarrow> u64 list" where
  "counts_from leaf counts i = (if leaf then [] else drop i counts)"

definition counts_ok :: "bool \<Rightarrow> u64 list \<Rightarrow> nat \<Rightarrow> nat \<Rightarrow> bool" where
  "counts_ok leaf counts i n \<longleftrightarrow> leaf \<or> length counts = i + n \<and> 0 \<notin> set counts"

lemma counts_ok_Suc: "counts_ok leaf counts i (Suc n) \<Longrightarrow> counts_ok leaf counts (Suc i) n"
  by (simp add: counts_ok_def)

lemma counts_ok_nth: "counts_ok leaf counts i (Suc n) \<Longrightarrow> \<not> leaf \<Longrightarrow> i < length counts \<and> counts ! i \<noteq> 0"
  by (auto simp: counts_ok_def) (metis less_add_Suc1 nth_mem)

lemma counts_from_step:
  "counts_ok leaf counts i (Suc n) \<Longrightarrow>
     (if leaf then acc else acc @ [counts ! i]) @ counts_from leaf counts (Suc i) = acc @ counts_from leaf counts i"
  by (auto simp: counts_from_def counts_ok_def Cons_nth_drop_Suc)

lemma counts_from_end: "counts_ok leaf counts i 0 \<Longrightarrow> counts_from leaf counts i = []"
  by (auto simp: counts_from_def counts_ok_def)

text \<open>Keys that continue a strictly increasing column.\<close>

definition keys_ok :: "bytes list \<Rightarrow> entry list \<Rightarrow> bool" where
  "keys_ok keys es \<longleftrightarrow> sorted_wrt (<) (keys @ map fst es) \<and>
     (\<forall>(k, v) \<in> set es. length k < 2 ^ 63 \<and> length v < 2 ^ 63)"

lemma keys_ok_Cons:
  "keys_ok keys ((k, v) # es) \<Longrightarrow> keys_ok (keys @ [k]) es \<and> \<not> out_of_order keys k \<and>
     length k < 2 ^ 63 \<and> length v < 2 ^ 63"
  by (auto simp: keys_ok_def out_of_order_def sorted_wrt_append not_le) (metis last_in_set)

text \<open>Both row layouts write a row as some encoding of the key followed by the same fields.\<close>

primrec write_rows :: "(bytes \<Rightarrow> bytes \<Rightarrow> bytes) \<Rightarrow> bool \<Rightarrow> u64 list \<Rightarrow> bytes \<Rightarrow> nat \<Rightarrow> entry list \<Rightarrow> bytes" where
  "write_rows write_key leaf counts previous i [] = []"
| "write_rows write_key leaf counts previous i (e # es) =
     (write_key previous (fst e) @ write_len (length (snd e)) @ snd e @ write_count leaf counts i) @
     write_rows write_key leaf counts (fst e) (Suc i) es"

definition write_prefix_key :: "bytes \<Rightarrow> bytes \<Rightarrow> bytes" where
  "write_prefix_key previous key =
     (let shared = common_prefix_len previous key in
      write_len shared @ write_len (length (drop shared key)) @ drop shared key)"

definition write_plain_key :: "bytes \<Rightarrow> bytes \<Rightarrow> bytes" where
  "write_plain_key previous key = write_len (length key) @ key"

lemma write_prefix_entries_rows:
  "write_prefix_entries leaf counts previous i es = write_rows write_prefix_key leaf counts previous i es"
  by (induction es arbitrary: previous i) (auto simp: write_prefix_key_def Let_def)

lemma write_plain_entries_rows:
  "write_plain_entries leaf counts i es = write_rows write_plain_key leaf counts previous i es"
  by (induction es arbitrary: previous i) (auto simp: write_plain_key_def)

lemma parses_rows:
  assumes key: "\<And>keys k. length k < 2 ^ 63 \<Longrightarrow> length (previous_key keys) < 2 ^ 63 \<Longrightarrow>
      parses (read_key keys) (write_key (previous_key keys) k) k"
    and "keys_ok keys es" "counts_ok leaf counts i (length es)" "length (previous_key keys) < 2 ^ 63"
  shows "parses (read_rows (length es) (read_row read_key leaf) (keys, vals, acc))
     (write_rows write_key leaf counts (previous_key keys) i es)
     (keys @ map fst es, vals @ map snd es, acc @ counts_from leaf counts i)"
  using assms(2-)
proof (induction es arbitrary: keys vals acc i)
  case Nil
  then show ?case by (simp add: parses_return counts_from_end)
next
  case (Cons e es)
  obtain k v where e: "e = (k, v)" by fastforce
  note ok = keys_ok_Cons [OF Cons.prems(1) [unfolded e]]
  let ?acc = "if leaf then acc else acc @ [counts ! i]"
  have row: "parses (read_row read_key leaf (keys, vals, acc))
      (write_key (previous_key keys) k @ write_len (length v) @ v @ write_count leaf counts i)
      (keys @ [k], vals @ [v], ?acc)"
    using ok Cons.prems counts_ok_nth by (intro parses_row key parses_push_count) auto
  have "parses (read_rows (length es) (read_row read_key leaf) (keys @ [k], vals @ [v], ?acc))
      (write_rows write_key leaf counts (previous_key (keys @ [k])) (Suc i) es)
      ((keys @ [k]) @ map fst es, (vals @ [v]) @ map snd es, ?acc @ counts_from leaf counts (Suc i))"
    using ok Cons.prems(2) by (intro Cons.IH) (auto simp: counts_ok_Suc previous_key_def)
  from parses_bind [where g = "read_rows (length es) (read_row read_key leaf)", OF row this] show ?case
    using counts_from_step [of leaf counts i "length es" acc] Cons.prems(2)
    by (simp add: e previous_key_def)
qed

lemma parses_prefix_rows:
  assumes "keys_ok [] es" "counts_ok leaf counts 0 (length es)"
  shows "parses (read_rows (length es) (read_row read_prefix_key leaf) ([], [], []))
     (write_prefix_entries leaf counts [] 0 es) (map fst es, map snd es, counts_from leaf counts 0)"
  using parses_rows [of read_prefix_key write_prefix_key "[]" es leaf counts 0 "[]" "[]"] assms
    parses_prefix_key
  by (simp add: write_prefix_entries_rows write_prefix_key_def previous_key_def Let_def)

lemma parses_plain_rows:
  assumes "keys_ok [] es" "counts_ok leaf counts 0 (length es)"
  shows "parses (read_rows (length es) (read_row read_plain_key leaf) ([], [], []))
     (write_plain_entries leaf counts 0 es) (map fst es, map snd es, counts_from leaf counts 0)"
  using parses_rows [of read_plain_key write_plain_key "[]" es leaf counts 0 "[]" "[]"] assms
    parses_plain_key
  by (simp add: write_plain_entries_rows [of _ _ _ _ "[]"] write_plain_key_def previous_key_def)

text \<open>The offset table: the slots, their encoding, and the payload they index.\<close>

fun slots_of :: "nat \<Rightarrow> entry list \<Rightarrow> slot list" where
  "slots_of base [] = []"
| "slots_of base ((key, val) # es) =
     (base, length key, base + length key, length val) # slots_of (base + length key + length val) es"

fun write_slots :: "bool \<Rightarrow> u64 list \<Rightarrow> nat \<Rightarrow> nat \<Rightarrow> entry list \<Rightarrow> bytes" where
  "write_slots leaf counts base i [] = []"
| "write_slots leaf counts base i ((key, val) # es) =
     write_len base @ write_len (length key) @ write_len (base + length key) @ write_len (length val) @
     write_count leaf counts i @ write_slots leaf counts (base + length key + length val) (Suc i) es"

definition payload_of :: "entry list \<Rightarrow> bytes" where
  "payload_of es = concat (map (\<lambda>(key, val). key @ val) es)"

lemma payload_of_simps [simp]:
  "payload_of [] = []" "payload_of ((key, val) # es) = key @ val @ payload_of es"
  by (simp_all add: payload_of_def)

lemma write_offset_entries_slots:
  "write_offset_entries leaf counts payload i es =
     write_slots leaf counts (length payload) i es @
     write_len (length (payload @ payload_of es)) @ payload @ payload_of es"
  by (induction es arbitrary: payload i rule: slots_of.induct) (simp_all add: add.assoc)

lemma parses_read_offsets:
  assumes "base + length (payload_of es) < 2 ^ 63" "counts_ok leaf counts i (length es)"
  shows "parses (read_offsets (length es) leaf offsets acc) (write_slots leaf counts base i es)
     (offsets @ slots_of base es, acc @ counts_from leaf counts i)"
  using assms
proof (induction base es arbitrary: offsets acc i rule: slots_of.induct)
  case (1 base)
  then show ?case by (simp add: parses_return counts_from_end)
next
  case (2 base key val es)
  let ?acc = "if leaf then acc else acc @ [counts ! i]"
  have "parses (read_offsets (length es) leaf (offsets @ [(base, length key, base + length key, length val)]) ?acc)
      (write_slots leaf counts (base + length key + length val) (Suc i) es)
      ((offsets @ [(base, length key, base + length key, length val)]) @
         slots_of (base + length key + length val) es, ?acc @ counts_from leaf counts (Suc i))"
    using 2 by (intro 2) (auto simp: counts_ok_Suc)
  moreover have "parses (push_count leaf acc) (write_count leaf counts i) ?acc"
    using 2 counts_ok_nth [of leaf counts i "length es"] by (intro parses_push_count) auto
  ultimately show ?case
    using 2 counts_from_step [of leaf counts i "length es" acc]
    by (auto simp del: of_nat_add intro!: parses_bind parses_read_usize)
qed

lemma slice_payload_append:
  "length pre + length bs < 2 ^ 64 \<Longrightarrow> slice_payload (pre @ bs @ post) (length pre) (length bs) = Inr bs"
  by (simp add: slice_payload_def)

lemma slice_rows_slots:
  assumes "keys_ok keys es" "length (pre @ payload_of es) < 2 ^ 63"
  shows "slice_rows (pre @ payload_of es) (slots_of (length pre) es) keys vals
     = Inr (keys @ map fst es, vals @ map snd es)"
  using assms
proof (induction es arbitrary: pre keys vals)
  case Nil
  then show ?case by simp
next
  case (Cons e es)
  obtain k v where e: "e = (k, v)" by fastforce
  note ok = keys_ok_Cons [OF Cons.prems(1) [unfolded e]]
  have b: "length pre + length k + length v + length (payload_of es) < 2 ^ 63"
    using Cons.prems(2) by (simp add: e)
  have "slice_payload (pre @ k @ v @ payload_of es) (length pre) (length k) = Inr k"
    using b by (intro slice_payload_append) simp
  moreover have "slice_payload ((pre @ k) @ v @ payload_of es) (length (pre @ k)) (length v) = Inr v"
    using b by (intro slice_payload_append) simp
  moreover have "slice_rows ((pre @ k @ v) @ payload_of es) (slots_of (length (pre @ k @ v)) es) (keys @ [k]) (vals @ [v])
      = Inr ((keys @ [k]) @ map fst es, (vals @ [v]) @ map snd es)"
    using ok b by (intro Cons.IH) auto
  ultimately show ?case using ok by (simp add: e add.assoc)
qed

lemma parses_offset_table:
  assumes "keys_ok [] es" "counts_ok leaf counts 0 (length es)" "length (payload_of es) < 2 ^ 63"
    "32 * length es < 2 ^ 63"
  shows "parses (read_offset_table (length es) leaf)
     (write_offset_entries leaf counts [] 0 es) (map fst es, map snd es, counts_from leaf counts 0)"
proof -
  have offsets: "parses (read_offsets (length es) leaf [] []) (write_slots leaf counts 0 0 es)
      (slots_of 0 es, counts_from leaf counts 0)"
    using parses_read_offsets [of 0 es leaf counts 0 "[]" "[]"] assms by simp
  have rows: "slice_rows (payload_of es) (slots_of 0 es) [] [] = Inr (map fst es, map snd es)"
    using slice_rows_slots [of "[]" es "[]" "[]"] assms by simp
  have len: "parses read_usize (write_len (length (payload_of es))) (length (payload_of es))"
    using assms(3) by (intro parses_read_usize) simp
  show ?thesis
    unfolding read_offset_table_def write_offset_entries_slots append_Nil list.size
    by (rule parses_bind_first [OF parses_with_capacity], fact assms(4), rule parses_bind [OF offsets], simp,
        rule parses_bind [OF len], rule parses_bind_last [OF parses_read_bytes [OF refl]], simp only: rows,
        rule parses_bind_first [OF parses_clift]) (simp add: parses_return)
qed

section \<open>Round trip of a node\<close>

text \<open>
  Bounds that hold of every node in memory: a \<open>Vec\<close> never exceeds \<open>isize::MAX\<close> bytes, so the
  keys, the values and their concatenation are shorter than \<open>2 ^ 63\<close>.
\<close>

definition node_in_memory :: "node \<Rightarrow> bool" where
  "node_in_memory n \<longleftrightarrow> 32 * length (nd_keys n) < 2 ^ 63 \<and>
     list_all (\<lambda>(k, v). length k < 2 ^ 63 \<and> length v < 2 ^ 63) (node_entries n) \<and>
     length (payload_of (node_entries n)) < 2 ^ 63"

lemma any_adjacent_sorted: "any_adjacent (\<ge>) (keys :: bytes list) \<longleftrightarrow> \<not> sorted_wrt (<) keys"
proof (induction "(\<ge>) :: bytes \<Rightarrow> bytes \<Rightarrow> bool" keys rule: any_adjacent.induct)
  case (1 x y xs)
  then show ?case by (auto simp: not_le intro: less_trans)
qed auto

lemma node_validate_iff:
  "node_validate n = Inr () \<longleftrightarrow>
     format_validate (nd_format n) = Inr () \<and> length (nd_vals n) = length (nd_keys n) \<and>
     sorted_wrt (<) (nd_keys n) \<and>
     (if nd_leaf n then nd_child_counts n = []
      else nd_keys n \<noteq> [] \<and> length (nd_child_counts n) = length (nd_keys n) \<and> 0 \<notin> set (nd_child_counts n))"
  by (auto simp: node_validate_def and_then_Inr_iff any_adjacent_sorted split: if_splits)

lemma node_entries_columns:
  assumes "length (nd_vals n) = length (nd_keys n)"
  shows "length (node_entries n) = length (nd_keys n)" "map fst (node_entries n) = nd_keys n"
    "map snd (node_entries n) = nd_vals n"
  using assms by (simp_all add: node_entries_def)

lemma parses_columns:
  assumes "node_validate n = Inr ()" "node_in_memory n" "write_entries n = Inr body"
  shows "parses (read_columns (tf_node_layout (nd_format n)) (length (nd_keys n)) (nd_leaf n)) body
     (nd_keys n, nd_vals n, nd_child_counts n)"
proof -
  note v = assms(1) [unfolded node_validate_iff]
  have cols: "length (node_entries n) = length (nd_keys n)" "map fst (node_entries n) = nd_keys n"
    "map snd (node_entries n) = nd_vals n"
    using v node_entries_columns by auto
  have keys: "keys_ok [] (node_entries n)"
    using v assms(2) cols by (simp add: keys_ok_def node_in_memory_def list_all_iff)
  have counts: "counts_ok (nd_leaf n) (nd_child_counts n) 0 (length (node_entries n))"
    "counts_from (nd_leaf n) (nd_child_counts n) 0 = nd_child_counts n"
    using v cols by (auto simp: counts_ok_def counts_from_def split: if_splits)
  show ?thesis
    using assms(2,3) parses_prefix_rows [OF keys counts(1)] parses_plain_rows [OF keys counts(1)]
      parses_offset_table [OF keys counts(1)]
    by (auto simp: write_entries_def read_columns_def cols counts node_in_memory_def
        split: node_layout_spec.splits)
qed

lemma parses_read_format:
  assumes "node_format_bytes f = Inr fb" "format_strings_ok f" "length fb < 2 ^ 63"
  shows "parses read_format (write_len (length fb) @ fb) f"
proof -
  have len: "parses read_usize (write_len (length fb)) (length fb)"
    using assms(3) by (intro parses_read_usize) simp
  show ?thesis
  proof (cases "f = tree_format_default")
    case True
    then show ?thesis using assms(1) len unfolding read_format_def node_format_bytes_def
      by (auto intro!: parses_bind_last parses_return)
  next
    case False
    then have fb: "canonical_bytes f = Inr fb" using assms(1) by (simp add: node_format_bytes_def)
    then have ne: "length fb \<noteq> 0" and dec: "from_canonical_bytes fb = Inr f"
      using canonical_bytes_valid from_canonical_complete assms by auto
    show ?thesis unfolding read_format_def
      by (rule parses_bind [OF len]) (simp only: ne if_False, rule parses_bind_last [OF parses_read_bytes [OF refl]],
        simp add: dec parses_clift)
  qed
qed

lemma parses_expect_magic: "parses expect_magic compact_magic ()"
  by (simp add: parses_def expect_magic_def)

lemma parses_header:
  assumes "node_format_bytes f = Inr fb" "format_strings_ok f" "length fb < 2 ^ 63"
    "format_validate f = Inr ()" "count < 2 ^ 64"
  shows "parses read_header (write_header fb leaf level count) (f, leaf, level, count)"
proof -
  have fmt: "parses read_format (write_len (length fb) @ fb) f"
    using assms parses_read_format by blast
  have count: "parses read_usize (write_len count) count"
    using assms(5) by (intro parses_read_usize) simp
  have "parses (cbind read_u8_varint (\<lambda>level. cbind read_usize (\<lambda>entry_count. creturn (f, b, level, entry_count))))
      (write_varint (ucast level) @ write_len count) (f, b, level, count)" for b
    by (rule parses_bind [OF parses_read_u8_varint]) (rule parses_bind_last [OF count parses_return])
  then have "parses (cbind read_varint (\<lambda>flag.
       if flag \<noteq> 0 \<and> flag \<noteq> 1 then cfail (compact_error ''invalid leaf flag'')
       else cbind read_u8_varint (\<lambda>level. cbind read_usize (\<lambda>entry_count. creturn (f, flag = 1, level, entry_count)))))
      (write_varint (if leaf then 1 else 0) @ write_varint (ucast level) @ write_len count) (f, leaf, level, count)"
    by (intro parses_bind [OF parses_read_varint]) (cases leaf; simp)
  then have "parses (cbind read_format (\<lambda>fmt. cbind (clift (format_validate fmt)) (\<lambda>_. cbind read_varint (\<lambda>flag.
       if flag \<noteq> 0 \<and> flag \<noteq> 1 then cfail (compact_error ''invalid leaf flag'')
       else cbind read_u8_varint (\<lambda>level. cbind read_usize (\<lambda>entry_count. creturn (fmt, flag = 1, level, entry_count)))))))
      ((write_len (length fb) @ fb) @ write_varint (if leaf then 1 else 0) @ write_varint (ucast level) @ write_len count)
      (f, leaf, level, count)"
    by (intro parses_bind [OF fmt]) (simp only: assms(4), rule parses_bind_first [OF parses_clift])
  then show ?thesis unfolding read_header_def write_header_def
    by (intro parses_bind [OF parses_expect_magic] parses_bind [OF parses_read_varint]) simp
qed

lemma from_to_compact_bytes:
  assumes "node_validate n = Inr ()" "node_in_memory n" "format_strings_ok (nd_format n)"
    "to_compact_bytes n = Inr bs" "length bs < 2 ^ 63"
  shows "from_compact_bytes bs = Inr n"
proof -
  from assms(4) obtain fb body where fb: "node_format_bytes (nd_format n) = Inr fb"
    and body: "write_entries n = Inr body"
    and bs: "bs = write_header fb (nd_leaf n) (nd_level n) (length (nd_keys n)) @ body"
    by (auto simp: to_compact_bytes_def and_then_Inr_iff)
  note v = assms(1) [unfolded node_validate_iff]
  have hd: "parses read_header (write_header fb (nd_leaf n) (nd_level n) (length (nd_keys n)))
      (nd_format n, nd_leaf n, nd_level n, length (nd_keys n))"
    using v assms fb bs by (intro parses_header) (auto simp: node_in_memory_def write_header_def)
  have cap: "parses (with_capacity 24 (length (nd_keys n))) [] ()"
    using assms(2) by (intro parses_with_capacity) (simp add: node_in_memory_def)
  have ne: "(\<not> nd_leaf n \<and> length (nd_keys n) = 0) = False" using v by auto
  have "parses read_compact_node bs n"
    unfolding read_compact_node_def bs
    by (intro parses_bind [OF hd]) (simp only: prod.case ne if_False, rule parses_bind_first [OF cap],
        rule parses_bind_last [OF parses_columns [OF assms(1,2) body]], simp add: parses_return_eq)
  from parses_all [OF this] assms(5) show ?thesis
    by (simp add: from_compact_bytes_def cursor_done_def)
qed

section \<open>Exact length\<close>

lemma length_write_count: "length (write_count leaf counts i) = count_len leaf counts i"
  by (simp add: write_count_def count_len_def length_write_varint)

lemmas length_writes = length_write_count length_write_varint

lemma length_prefix_entries:
  "length (write_prefix_entries leaf counts previous i es) = prefix_entries_len leaf counts previous i es"
  by (induction leaf counts previous i es rule: write_prefix_entries.induct) (auto simp: Let_def length_writes)

lemma length_plain_entries:
  "length (write_plain_entries leaf counts i es) = plain_entries_len leaf counts i es"
  by (induction leaf counts i es rule: write_plain_entries.induct) (auto simp: length_writes)

lemma length_offset_entries:
  "length (write_offset_entries leaf counts payload i es) = offset_entries_len leaf counts (length payload) i es"
  by (induction leaf counts payload i es rule: write_offset_entries.induct) (auto simp: length_writes add.assoc)

lemma length_write_entries: "map_sum id length (write_entries n) = entries_len n"
  by (simp add: write_entries_def entries_len_def length_prefix_entries length_plain_entries
      length_offset_entries split: node_layout_spec.split)

lemma length_write_header:
  "length (write_header fb leaf level count) =
     length compact_magic + varint_len compact_version + len_len (length fb) + length fb +
     varint_len (if leaf then 1 else 0) + varint_len (ucast level) + len_len count"
  by (simp add: write_header_def length_writes)

lemma encoded_len_exact: "try_encoded_len n = map_sum id length (to_compact_bytes n)"
proof (cases "node_format_bytes (nd_format n)")
  case (Inr fb)
  then show ?thesis
    using length_write_entries [of n, symmetric]
    by (cases "write_entries n") (auto simp: try_encoded_len_def to_compact_bytes_def length_write_header)
qed (simp add: try_encoded_len_def to_compact_bytes_def)

section \<open>What the decoder accepts\<close>

fun columns_ok :: "bool \<Rightarrow> columns \<Rightarrow> bool" where
  "columns_ok leaf (keys, vals, counts) \<longleftrightarrow>
     length vals = length keys \<and> sorted_wrt (<) keys \<and>
     (if leaf then counts = [] else length counts = length keys \<and> 0 \<notin> set counts)"

lemma push_count_Inr:
  assumes "push_count leaf counts c = Inr (counts', c')"
  shows "if leaf then counts' = counts else \<exists>x. x \<noteq> 0 \<and> counts' = counts @ [x]"
  using assms by (auto simp: push_count_def read_compact_child_count_def elim!: cbind_InrE split: if_splits)

lemma sorted_wrt_snoc_order: "sorted_wrt (<) keys \<Longrightarrow> \<not> out_of_order keys key \<Longrightarrow> sorted_wrt (<) (keys @ [key])"
  by (induction keys rule: rev_induct) (auto simp: out_of_order_def sorted_wrt_append not_le intro: less_trans)

lemma read_row_ok:
  assumes "columns_ok leaf cols" "read_row read_key leaf cols c = Inr (cols', c')"
  shows "columns_ok leaf cols' \<and> length (fst cols') = Suc (length (fst cols))"
proof -
  obtain keys vals counts where cols: "cols = (keys, vals, counts)" by (cases cols)
  from assms(2) show ?thesis
    using assms(1) unfolding cols read_row_def
    by (auto simp: sorted_wrt_snoc_order elim!: cbind_InrE split: if_splits dest!: push_count_Inr)
qed

lemma read_rows_ok:
  "columns_ok leaf cols \<Longrightarrow> read_rows n (read_row read_key leaf) cols c = Inr (cols', c') \<Longrightarrow>
     columns_ok leaf cols' \<and> length (fst cols') = n + length (fst cols)"
proof (induction n arbitrary: cols c)
  case (Suc n)
  from Suc.prems(2) obtain cols1 c1 where
    "read_row read_key leaf cols c = Inr (cols1, c1)" "read_rows n (read_row read_key leaf) cols1 c1 = Inr (cols', c')"
    by (auto elim!: cbind_InrE)
  then show ?case using Suc.IH [of cols1 c1] read_row_ok [OF Suc.prems(1)] by fastforce
qed auto

lemma read_offsets_ok:
  assumes "read_offsets n leaf offsets counts c = Inr ((offsets', counts'), c')"
    "if leaf then counts = [] else length counts = length offsets \<and> 0 \<notin> set counts"
  shows "length offsets' = n + length offsets \<and>
    (if leaf then counts' = [] else length counts' = length offsets' \<and> 0 \<notin> set counts')"
  using assms
proof (induction n arbitrary: offsets counts c)
  case (Suc n)
  from Suc.prems(1) obtain a b d e counts1 c1 c2 where
    "push_count leaf counts c1 = Inr (counts1, c2)"
    "read_offsets n leaf (offsets @ [(a, b, d, e)]) counts1 c2 = Inr ((offsets', counts'), c')"
    by (auto elim!: cbind_InrE)
  then show ?case
    using Suc.IH [of "offsets @ [(a, b, d, e)]" counts1 c2] push_count_Inr [of leaf counts c1 counts1 c2] Suc.prems(2)
    by (auto split: if_splits)
qed auto

lemma slice_rows_ok:
  assumes "slice_rows payload offsets keys vals = Inr (keys', vals')"
    "length vals = length keys" "sorted_wrt (<) keys"
  shows "length vals' = length keys' \<and> sorted_wrt (<) keys' \<and> length keys' = length offsets + length keys"
  using assms
proof (induction payload offsets keys vals rule: slice_rows.induct)
  case (2 payload ko kl vo vl offsets keys vals)
  from 2(2) obtain key val where
    "slice_payload payload ko kl = Inr key" "\<not> out_of_order keys key" "slice_payload payload vo vl = Inr val"
    "slice_rows payload offsets (keys @ [key]) (vals @ [val]) = Inr (keys', vals')"
    by (auto elim!: and_then_InrE split: if_splits)
  then show ?case using 2(1) 2(3,4) by (fastforce intro: sorted_wrt_snoc_order)
qed auto

lemma clift_Inr: "clift r c = Inr (x, c') \<longleftrightarrow> r = Inr x \<and> c' = c"
  by (cases r) (auto simp: clift_def)

lemma read_offset_table_ok:
  assumes "read_offset_table n leaf c = Inr (cols, c')"
  shows "columns_ok leaf cols \<and> length (fst cols) = n"
proof -
  from assms obtain offsets counts payload keys vals c1 c2 where
    "read_offsets n leaf [] [] c1 = Inr ((offsets, counts), c2)"
    "slice_rows payload offsets [] [] = Inr (keys, vals)" "cols = (keys, vals, counts)"
    by (auto simp: read_offset_table_def clift_Inr elim!: cbind_InrE split: prod.splits)
  then show ?thesis
    using read_offsets_ok [of n leaf "[]" "[]" c1 offsets counts c2] slice_rows_ok [of payload offsets "[]" "[]" keys vals]
    by auto
qed

lemma read_columns_ok:
  assumes "read_columns layout n leaf c = Inr (cols, c')"
  shows "columns_ok leaf cols \<and> length (fst cols) = n"
proof -
  have rows: "columns_ok leaf cols \<and> length (fst cols) = n"
    if "read_rows n (read_row read_key leaf) ([], [], []) c = Inr (cols, c')" for read_key
    using read_rows_ok [OF _ that] by simp
  show ?thesis
    using assms read_offset_table_ok rows by (auto simp: read_columns_def split: node_layout_spec.splits)
qed

lemma read_header_ok:
  assumes "read_header c = Inr ((f, leaf, level, n), c')"
  shows "format_validate f = Inr () \<and> format_strings_ok f"
  using assms from_canonical_sound
  by (auto simp: read_header_def read_format_def clift_Inr elim!: cbind_InrE split: if_splits)

lemma from_compact_bytes_valid:
  assumes "from_compact_bytes bs = Inr n"
  shows "node_validate n = Inr () \<and> format_strings_ok (nd_format n)"
proof -
  from assms obtain c f leaf level k c1 c2 c3 keys vals counts where
    h: "read_header (cursor_new bs) = Inr ((f, leaf, level, k), c1)"
    and k: "leaf \<or> k \<noteq> 0"
    and cols: "read_columns (tf_node_layout f) k leaf c2 = Inr ((keys, vals, counts), c3)"
    and n: "n = \<lparr>nd_keys = keys, nd_vals = vals, nd_child_counts = counts, nd_leaf = leaf,
         nd_level = level, nd_format = f\<rparr>"
    by (auto simp: from_compact_bytes_def read_compact_node_def and_then_Inr_iff elim!: cbind_InrE
        split: if_splits prod.splits)
  show ?thesis
    using read_header_ok [OF h] read_columns_ok [OF cols] k
    by (auto simp: n node_validate_iff split: if_splits)
qed

text \<open>Every integer takes at most ten bytes.\<close>

lemma varint_len_bound: "k < 10 \<Longrightarrow> unat w < 2 ^ (7 * Suc k) \<Longrightarrow> varint_len w \<le> Suc k"
proof (induction k arbitrary: w)
  case 0
  then show ?case by (subst varint_len.simps) (simp add: word_le_nat_alt)
next
  case (Suc k)
  have "unat (drop_bit 7 w) < 2 ^ (7 * Suc k)"
    using Suc.prems(2) by (simp add: unat_drop_bit_7 less_mult_imp_div_less power_add mult.commute)
  then have "varint_len (drop_bit 7 w) \<le> Suc k" using Suc by simp
  then show ?case by (subst varint_len.simps) simp
qed

lemma varint_len_le_10: "varint_len w \<le> 10"
  using varint_len_bound [of 9 w] unat_u64_lt [of w] by simp

lemma length_write_header_le: "length (write_header fb leaf level count) \<le> 54 + length fb"
  using varint_len_le_10 [of compact_version] varint_len_le_10 [of "of_nat (length fb)"]
    varint_len_le_10 [of "if leaf then 1 else 0"] varint_len_le_10 [of "ucast level"]
    varint_len_le_10 [of "of_nat count"]
  by (simp add: length_write_header compact_magic_def)

section \<open>Properties\<close>

definition sample_leaf :: node where
  "sample_leaf = builder_build (builder_keys [[1], [1, 2]] (builder_vals [[9], [8, 7]] node_builder_new))"

definition sample_leaf_bytes :: bytes where
  "sample_leaf_bytes = [0x43, 0x52, 0x41, 0x42, 2, 0, 1, 0, 2, 0, 1, 1, 1, 9, 1, 1, 2, 2, 8, 7]"

lemmas sample_builder_defs = builder_build_def builder_keys_def builder_vals_def node_builder_new_def

lemma sample_leaf_ok:
  "to_compact_bytes sample_leaf = Inr sample_leaf_bytes" "node_validate sample_leaf = Inr ()"
  "format_strings_ok (nd_format sample_leaf)"
  by code_simp+

lemma sample_leaf_in_memory: "node_in_memory sample_leaf"
  by (simp add: node_in_memory_def sample_leaf_def sample_builder_defs node_entries_def)

lemma sample_leaf_decodes: "from_compact_bytes sample_leaf_bytes = Inr sample_leaf"
  by (rule from_to_compact_bytes) (simp_all add: sample_leaf_ok sample_leaf_in_memory sample_leaf_bytes_def)

text \<open>
  C11 (\<open>Node::to_compact_bytes\<close>, \<open>Node::from_compact_bytes\<close>).  A valid node written in any of
  the three built-in layouts is read back unchanged.
\<close>

theorem node_round_trip:
  assumes "node_validate n = Inr ()" "node_in_memory n" "format_strings_ok (nd_format n)"
    "to_compact_bytes n = Inr bs" "length bs < 2 ^ 63"
  shows "from_compact_bytes bs = Inr n"
  using assms by (rule from_to_compact_bytes)

theorem node_round_trip_witness:
  "to_compact_bytes sample_leaf = Inr sample_leaf_bytes \<and> from_compact_bytes sample_leaf_bytes = Inr sample_leaf"
  using node_round_trip [of sample_leaf sample_leaf_bytes] sample_leaf_ok sample_leaf_in_memory
  by (simp add: sample_leaf_bytes_def)

text \<open>
  C12 (\<open>Node::from_compact_bytes\<close>, \<open>Node::validate\<close>).  Whatever bytes the decoder accepts, the
  node it returns satisfies every structural invariant: keys strictly increasing, one value
  per key, positive child counts exactly on internal nodes, a valid persisted format.
\<close>

theorem decoded_node_valid:
  assumes "from_compact_bytes bs = Inr n"
  shows "node_validate n = Inr () \<and> format_strings_ok (nd_format n)"
  using assms by (rule from_compact_bytes_valid)

theorem decoded_node_valid_witness:
  "case from_compact_bytes sample_leaf_bytes of Inl e \<Rightarrow> False | Inr n \<Rightarrow> node_validate n = Inr ()"
  using decoded_node_valid [of sample_leaf_bytes sample_leaf] sample_leaf_decodes by simp

text \<open>
  C13 (\<open>Node::encoded_len\<close>).  The length computed without writing is the length of the bytes
  written, for every node, and both fail on exactly the same formats.
\<close>

theorem encoded_len_is_length: "encoded_len n = map_sum id length (to_bytes n)"
  by (simp add: encoded_len_def to_bytes_def encoded_len_exact expect_ok_def split: sum.split)

text \<open>
  C31 (\<open>Node::from_compact_bytes\<close>).  An input of at most 19 bytes, a header announcing more entries than any
  buffer can hold, makes \<open>Vec::with_capacity\<close> panic before a single entry is read.
\<close>

theorem entry_count_panics:
  assumes "2 ^ 63 \<le> 24 * count" "count < 2 ^ 64"
  shows "from_compact_bytes (write_header [] True level count) = Inl (Panic ''capacity overflow'') \<and>
    length (write_header [] True level count) \<le> 19"
proof -
  have "unat level < 2 ^ LENGTH(8)" by (rule unsigned_less)
  then have "unat (ucast level :: u64) < 2 ^ 14" using le_less_trans [OF take_bit_nat_less_eq_self [of 64 "unat level"]] by (simp add: unsigned_ucast_eq)
  then have "varint_len (ucast level) \<le> 2" using varint_len_bound [of 1 "ucast level"] by simp
  then have len: "length (write_header [] True level count) \<le> 19"
    using varint_len_bound [of 0 compact_version] varint_len_bound [of 0 0] varint_len_bound [of 0 1] varint_len_le_10 [of "of_nat count"]
    by (simp add: length_write_header compact_magic_def compact_version_def)
  have "parses read_header (write_header [] True level count) (tree_format_default, True, level, count)"
    using assms by (intro parses_header) (simp_all add: node_format_bytes_def)
  then have "read_header (cursor_new (write_header [] True level count)) =
      Inr ((tree_format_default, True, level, count),
        \<lparr>remaining = [], position = length (write_header [] True level count)\<rparr>)"
    by (rule parses_all) (use length_write_header_le [of "[]" True level count] in simp)
  then show ?thesis
    using assms(1) len by (simp add: from_compact_bytes_def read_compact_node_def cbind_def with_capacity_def cfail_def)
qed

theorem entry_count_panics_witness:
  "from_compact_bytes (write_header [] True 0 (2 ^ 60)) = Inl (Panic ''capacity overflow'') \<and>
    length (write_header [] True 0 (2 ^ 60)) \<le> 19"
  using entry_count_panics [of "2 ^ 60" 0] by simp

end
