(* ===== verification/Node_Sizer.thy ===== *)
theory Node_Sizer
  imports Node_Codec
begin

text \<open>
  The incremental node sizer of the builders (\<^verbatim>\<open>src/src/prolly/builder/size.rs\<close>).  A sizer
  accumulates the encoded size of a node entry by entry; the lemmas relate every state it
  can reach to the encoder of \<^verbatim>\<open>node.rs\<close>.  An item is an entry together with the number of
  entries below it, which leaves do not have.
\<close>

section \<open>Definitions\<close>

type_synonym item = "bytes \<times> bytes \<times> u64 option"

definition try_u64 :: "nat \<Rightarrow> error + u64" where
  "try_u64 n = (if n < 2 ^ 64 then Inr (of_nat n) else Inl InvalidNode)"

function varint_len_loop :: "u64 \<Rightarrow> u64 \<Rightarrow> u64" where
  "varint_len_loop len value =
     (if 0x80 \<le> value then varint_len_loop (len + 1) (drop_bit 7 value) else len)"
  by pat_completeness auto

termination varint_len_loop
  by (relation "measure (unat \<circ> snd)") (use drop_bit_7_decreases in auto)

declare varint_len_loop.simps [simp del]

definition sizer_varint_len :: "u64 \<Rightarrow> u64" where
  "sizer_varint_len value = varint_len_loop 1 value"

definition sizer_common_prefix_len :: "bytes \<Rightarrow> bytes \<Rightarrow> nat" where
  "sizer_common_prefix_len left right = length (takeWhile (\<lambda>(l, r). l = r) (zip left right))"

primrec checked_sum_loop :: "u64 \<Rightarrow> u64 list \<Rightarrow> u64 option" where
  "checked_sum_loop acc [] = Some acc"
| "checked_sum_loop acc (v # vs) = Option.bind (checked_add acc v) (\<lambda>acc'. checked_sum_loop acc' vs)"

definition checked_sum :: "u64 list \<Rightarrow> error + u64" where
  "checked_sum values = ok_or (checked_sum_loop 0 values) InvalidNode"

definition validate_child_count :: "bool \<Rightarrow> u64 option \<Rightarrow> error + unit" where
  "validate_child_count leaf child_count =
     (case (leaf, child_count) of
        (True, None) \<Rightarrow> Inr ()
      | (False, Some c) \<Rightarrow> if 1 \<le> c then Inr () else Inl InvalidNode
      | _ \<Rightarrow> Inl InvalidNode)"

record sizer =
  sz_format :: tree_format
  sz_leaf :: bool
  sz_level :: u8
  sz_count :: u64
  sz_size :: u64
  sz_empty_size :: u64
  sz_payload_len :: u64

definition sizer_new :: "tree_format \<Rightarrow> bool \<Rightarrow> u8 \<Rightarrow> error + sizer" where
  "sizer_new format leaf level =
     and_then (format_validate format) (\<lambda>_.
     and_then (case tf_node_layout format of
         CustomLayout ident parameters \<Rightarrow> Inl (InvalidFormat ''node layout has no registered codec'')
       | _ \<Rightarrow> Inr ()) (\<lambda>_.
     and_then (if format = tree_format_default then Inr 0
       else and_then (canonical_bytes format) (\<lambda>bs. try_u64 (length bs))) (\<lambda>format_len.
     and_then (ok_or (Option.bind (checked_add 4 (sizer_varint_len 2)) (\<lambda>size.
       Option.bind (checked_add size (sizer_varint_len format_len)) (\<lambda>size.
       Option.bind (checked_add size format_len) (\<lambda>size.
       Option.bind (checked_add size (sizer_varint_len (of_bool leaf))) (\<lambda>size.
       Option.bind (checked_add size (sizer_varint_len (ucast level))) (\<lambda>size.
       checked_add size (sizer_varint_len 0)))))))
       InvalidNode) (\<lambda>empty_size.
     and_then (if tf_node_layout format = OffsetTable
       then ok_or (checked_add empty_size (sizer_varint_len 0)) InvalidNode else Inr empty_size) (\<lambda>empty_size.
     Inr \<lparr>sz_format = format, sz_leaf = leaf, sz_level = level, sz_count = 0, sz_size = empty_size,
       sz_empty_size = empty_size, sz_payload_len = 0\<rparr>)))))"

definition child_count_len :: "u64 option \<Rightarrow> u64" where
  "child_count_len child_count = (case child_count of None \<Rightarrow> 0 | Some c \<Rightarrow> sizer_varint_len c)"

definition entry_delta :: "sizer \<Rightarrow> bytes option \<Rightarrow> bytes \<Rightarrow> u64 \<Rightarrow> u64 \<Rightarrow> u64 option \<Rightarrow> error + u64" where
  "entry_delta s previous key key_len value_len child_count =
     (case tf_node_layout (sz_format s) of
        PrefixCompressed \<Rightarrow>
          and_then (try_u64 (case previous of None \<Rightarrow> 0 | Some prev \<Rightarrow> sizer_common_prefix_len prev key)) (\<lambda>shared.
          and_then (ok_or (checked_sub key_len shared) InvalidNode) (\<lambda>suffix_len.
          checked_sum [sizer_varint_len shared, sizer_varint_len suffix_len, suffix_len,
            sizer_varint_len value_len, value_len, child_count_len child_count]))
      | Plain \<Rightarrow>
          checked_sum [sizer_varint_len key_len, key_len, sizer_varint_len value_len, value_len, child_count_len child_count]
      | OffsetTable \<Rightarrow>
          and_then (ok_or (checked_add (sz_payload_len s) key_len) InvalidNode) (\<lambda>value_offset.
          and_then (ok_or (checked_add value_offset value_len) InvalidNode) (\<lambda>next_payload_len.
          and_then (ok_or (checked_sub (sizer_varint_len next_payload_len) (sizer_varint_len (sz_payload_len s))) InvalidNode)
            (\<lambda>payload_width_delta.
          checked_sum [sizer_varint_len (sz_payload_len s), sizer_varint_len key_len, sizer_varint_len value_offset,
            sizer_varint_len value_len, child_count_len child_count, payload_width_delta, key_len, value_len])))
      | CustomLayout ident parameters \<Rightarrow> Inl InvalidNode)"

definition size_after :: "bytes option \<Rightarrow> bytes \<Rightarrow> bytes \<Rightarrow> u64 option \<Rightarrow> sizer \<Rightarrow> error + u64" where
  "size_after previous key val child_count s =
     and_then (validate_child_count (sz_leaf s) child_count) (\<lambda>_.
     and_then (try_u64 (length key)) (\<lambda>key_len.
     and_then (try_u64 (length val)) (\<lambda>value_len.
     and_then (ok_or (checked_add (sz_count s) 1) InvalidNode) (\<lambda>next_count.
     and_then (ok_or (checked_sub (sizer_varint_len next_count) (sizer_varint_len (sz_count s))) InvalidNode) (\<lambda>count_width_delta.
     and_then (entry_delta s previous key key_len value_len child_count) (\<lambda>delta.
     ok_or (Option.bind (checked_add (sz_size s) count_width_delta) (\<lambda>size. checked_add size delta)) InvalidNode))))))"

definition push_sized :: "bytes \<Rightarrow> bytes \<Rightarrow> u64 option \<Rightarrow> u64 \<Rightarrow> sizer \<Rightarrow> error + sizer" where
  "push_sized key val child_count size_new s =
     and_then (ok_or (checked_add (sz_count s) 1) InvalidNode) (\<lambda>count.
     and_then (try_u64 (length key)) (\<lambda>key_len.
     and_then (try_u64 (length val)) (\<lambda>value_len.
     and_then (ok_or (Option.bind (checked_add (sz_payload_len s) key_len) (\<lambda>len. checked_add len value_len)) InvalidNode) (\<lambda>payload_len.
     Inr (s\<lparr>sz_size := size_new, sz_count := count, sz_payload_len := payload_len\<rparr>)))))"

definition sizer_push :: "bytes option \<Rightarrow> bytes \<Rightarrow> bytes \<Rightarrow> u64 option \<Rightarrow> sizer \<Rightarrow> error + sizer" where
  "sizer_push previous key val child_count s =
     and_then (size_after previous key val child_count s) (\<lambda>size_new.
     push_sized key val child_count size_new s)"

definition sizer_reset :: "sizer \<Rightarrow> sizer" where
  "sizer_reset s = s\<lparr>sz_count := 0, sz_size := sz_empty_size s, sz_payload_len := 0\<rparr>"

section \<open>Arithmetic\<close>

lemma varint_len_loop_eq: "varint_len_loop len v + 1 = len + of_nat (varint_len v)"
proof (induction len v rule: varint_len_loop.induct)
  case (1 len v)
  then show ?case
    by (cases "0x80 \<le> v") (subst varint_len_loop.simps, subst varint_len.simps, simp)+
qed

lemma unat_sizer_varint_len: "unat (sizer_varint_len v) = varint_len v"
proof -
  have "sizer_varint_len v = of_nat (varint_len v)"
    using varint_len_loop_eq [of 1 v] by (simp add: sizer_varint_len_def add.commute)
  then show ?thesis using varint_len_le_10 [of v] by (simp add: unat_of_nat_u64)
qed

lemma varint_len_mono: "unat a \<le> unat b \<Longrightarrow> varint_len a \<le> varint_len b"
proof (induction a arbitrary: b rule: varint_len.induct)
  case (1 a)
  show ?case
  proof (cases "0x80 \<le> a")
    case True
    then have b: "0x80 \<le> b" using 1(2) by (simp add: word_le_nat_alt)
    have "varint_len (drop_bit 7 a) \<le> varint_len (drop_bit 7 b)"
      using 1 True by (simp add: unat_drop_bit_7 div_le_mono)
    then show ?thesis using True b by (subst (1 2) varint_len.simps) simp
  qed (use varint_len_pos [of b] in \<open>subst varint_len.simps, simp\<close>)
qed

lemma sizer_common_prefix_len: "sizer_common_prefix_len left right = common_prefix_len left right"
  by (induction left right rule: common_prefix_len.induct) (auto simp: sizer_common_prefix_len_def)

lemma checked_add_iff: "checked_add a b = Some c \<longleftrightarrow> unat c = unat a + unat b"
  by (auto simp: checked_add_def unat_word_ariths word_unat_eq_iff) (use unat_u64_lt [of c] in simp_all)

lemma checked_sub_iff: "checked_sub a b = Some c \<longleftrightarrow> unat a = unat c + unat b"
  by (auto simp: checked_sub_def unat_sub word_le_nat_alt word_unat_eq_iff)

lemma bind_checked_add_iff:
  "Option.bind (checked_add a b) (\<lambda>x. checked_add x c) = Some y \<longleftrightarrow> unat y = unat a + unat b + unat c"
proof
  assume y: "unat y = unat a + unat b + unat c"
  have "unat a + unat b < 2 ^ 64" using unat_u64_lt [of y] unfolding y by linarith
  then have "unat (a + b) = unat a + unat b" by (simp add: unat_word_ariths)
  with y show "Option.bind (checked_add a b) (\<lambda>x. checked_add x c) = Some y"
    using checked_add_iff [of a b "a + b"] checked_add_iff [of "a + b" c y] by simp
qed (auto simp: bind_eq_Some_conv checked_add_iff)

lemma checked_sum_loop_iff: "checked_sum_loop a vs = Some s \<longleftrightarrow> unat s = unat a + sum_list (map unat vs)"
proof (induction vs arbitrary: a)
  case (Cons v vs)
  show ?case
  proof
    assume s: "unat s = unat a + sum_list (map unat (v # vs))"
    have "unat a + unat v < 2 ^ 64" using unat_u64_lt [of s] unfolding s by simp
    then have "unat (a + v) = unat a + unat v" by (simp add: unat_word_ariths)
    with s show "checked_sum_loop a (v # vs) = Some s"
      using checked_add_iff [of a v "a + v"] by (simp add: Cons)
  qed (auto simp: bind_eq_Some_conv checked_add_iff Cons)
qed (auto simp: word_unat_eq_iff)

lemma checked_sum_iff: "checked_sum vs = Inr s \<longleftrightarrow> unat s = sum_list (map unat vs)"
  by (simp add: checked_sum_def ok_or_Inr_iff checked_sum_loop_iff)

lemma try_u64_iff: "try_u64 n = Inr w \<longleftrightarrow> unat w = n"
  by (auto simp: try_u64_def unat_of_nat_u64 word_unat_eq_iff) (use unat_u64_lt [of w] in simp)

section \<open>The encoded length of a node, entry by entry\<close>

definition item_counts :: "item list \<Rightarrow> u64 list" where
  "item_counts items = List.map_filter (snd \<circ> snd) items"

definition item_entries :: "item list \<Rightarrow> entry list" where
  "item_entries items = map (\<lambda>(k, v, c). (k, v)) items"

definition item_node :: "tree_format \<Rightarrow> bool \<Rightarrow> u8 \<Rightarrow> item list \<Rightarrow> node" where
  "item_node format leaf level items =
     \<lparr>nd_keys = map fst items, nd_vals = map (fst \<circ> snd) items, nd_child_counts = item_counts items,
      nd_leaf = leaf, nd_level = level, nd_format = format\<rparr>"

definition items_ok :: "bool \<Rightarrow> item list \<Rightarrow> bool" where
  "items_ok leaf items \<longleftrightarrow> (\<forall>(k, v, c) \<in> set items. validate_child_count leaf c = Inr ())"

definition payload_size :: "item list \<Rightarrow> nat" where
  "payload_size items = sum_list (map (\<lambda>(k, v, c). length k + length v) items)"

definition last_key :: "item list \<Rightarrow> bytes option" where
  "last_key items = (if items = [] then None else Some (fst (last items)))"

lemma item_node_simps [simp]:
  "nd_keys (item_node f leaf level items) = map fst items"
  "nd_vals (item_node f leaf level items) = map (fst \<circ> snd) items"
  "nd_child_counts (item_node f leaf level items) = item_counts items"
  "nd_leaf (item_node f leaf level items) = leaf"
  "nd_level (item_node f leaf level items) = level"
  "nd_format (item_node f leaf level items) = f"
  by (simp_all add: item_node_def)

lemma node_entries_item_node [simp]: "node_entries (item_node f leaf level items) = item_entries items"
  by (auto simp: node_entries_def item_entries_def zip_map_map zip_same_conv_map comp_def case_prod_unfold)

lemma item_lists_simps [simp]:
  "item_entries [] = []" "item_entries (items @ [(k, v, c)]) = item_entries items @ [(k, v)]"
  "length (item_entries items) = length items" "map fst (item_entries items) = map fst items"
  "item_counts [] = []" "item_counts (items @ [(k, v, c)]) = item_counts items @ (case c of None \<Rightarrow> [] | Some n \<Rightarrow> [n])"
  "payload_size [] = 0" "payload_size (items @ [(k, v, c)]) = payload_size items + length k + length v"
  "last_key [] = None" "last_key (items @ [(k, v, c)]) = Some k"
  "items_ok leaf []" "items_ok leaf (items @ [(k, v, c)]) \<longleftrightarrow> items_ok leaf items \<and> validate_child_count leaf c = Inr ()"
  by (auto simp: item_entries_def item_counts_def payload_size_def last_key_def items_ok_def
      List.map_filter_def case_prod_unfold comp_def split: option.split)

lemma validate_child_count_iff:
  "validate_child_count leaf c = Inr () \<longleftrightarrow> (if leaf then c = None else \<exists>n. c = Some n \<and> n \<noteq> 0)"
  by (auto simp: validate_child_count_def word_le_nat_alt unat_eq_zero Suc_le_eq unat_gt_0 split: option.split)

lemma length_item_counts: "items_ok leaf items \<Longrightarrow> length (item_counts items) = (if leaf then 0 else length items)"
proof (induction items rule: rev_induct)
  case (snoc x xs)
  then show ?case by (cases x) (auto simp: validate_child_count_iff split: if_splits)
qed simp

definition cc_len :: "u64 option \<Rightarrow> nat" where
  "cc_len c = (case c of None \<Rightarrow> 0 | Some n \<Rightarrow> varint_len n)"

lemma count_len_snoc:
  assumes "items_ok leaf items" "validate_child_count leaf c = Inr ()"
  shows "count_len leaf (item_counts (items @ [(k, v, c)])) (length items) = cc_len c"
  using assms length_item_counts [OF assms(1)]
  by (auto simp: count_len_def count_at_def cc_len_def validate_child_count_iff nth_append split: if_splits)

lemma count_len_append: "leaf \<or> i < length counts \<Longrightarrow> count_len leaf (counts @ extra) i = count_len leaf counts i"
  by (auto simp: count_len_def count_at_def nth_append)

lemma prefix_entries_len_append:
  "leaf \<or> i + length es \<le> length counts \<Longrightarrow>
   prefix_entries_len leaf (counts @ extra) previous i (es @ [(k, v)]) =
     prefix_entries_len leaf counts previous i es +
     (let shared = common_prefix_len (last (previous # map fst es)) k; suffix_len = length k - shared in
      len_len shared + len_len suffix_len + suffix_len + len_len (length v) + length v) +
     count_len leaf (counts @ extra) (i + length es)"
  by (induction leaf counts previous i es rule: prefix_entries_len.induct) (auto simp: Let_def count_len_append)

lemma plain_entries_len_append:
  "leaf \<or> i + length es \<le> length counts \<Longrightarrow>
   plain_entries_len leaf (counts @ extra) i (es @ [(k, v)]) =
     plain_entries_len leaf counts i es + len_len (length k) + length k + len_len (length v) + length v +
     count_len leaf (counts @ extra) (i + length es)"
  by (induction leaf counts i es rule: plain_entries_len.induct) (auto simp: count_len_append)

lemma offset_entries_len_append:
  "leaf \<or> i + length es \<le> length counts \<Longrightarrow>
   P = p + sum_list (map (\<lambda>(k, v). length k + length v) es) \<Longrightarrow>
   offset_entries_len leaf (counts @ extra) p i (es @ [(k, v)]) =
     offset_entries_len leaf counts p i es + len_len (length k) + len_len (P + length k) + len_len (length v) +
     count_len leaf (counts @ extra) (i + length es) + len_len (P + length k + length v) + length k + length v"
proof (induction leaf counts p i es rule: offset_entries_len.induct)
  case (2 leaf counts p i key val es)
  have "P = (p + length key + length val) + sum_list (map (\<lambda>(k, v). length k + length v) es)"
    using 2(3) by simp
  moreover have "leaf \<or> Suc i + length es \<le> length counts" "leaf \<or> i < length counts" using 2(2) by auto
  ultimately show ?case using 2(1) by (simp add: count_len_append)
qed simp

lemma payload_item_entries: "sum_list (map (\<lambda>(k, v). length k + length v) (item_entries items)) = payload_size items"
  by (simp add: item_entries_def payload_size_def comp_def case_prod_unfold)

text \<open>The bytes one more entry adds, besides the width of the entry count.\<close>

definition entry_cost :: "node_layout_spec \<Rightarrow> nat \<Rightarrow> bytes option \<Rightarrow> bytes \<Rightarrow> bytes \<Rightarrow> u64 option \<Rightarrow> nat" where
  "entry_cost layout P previous k v c =
     (case layout of
        PrefixCompressed \<Rightarrow>
          (let shared = (case previous of None \<Rightarrow> 0 | Some p \<Rightarrow> common_prefix_len p k); suffix_len = length k - shared in
           len_len shared + len_len suffix_len + suffix_len + len_len (length v) + length v + cc_len c)
      | Plain \<Rightarrow> len_len (length k) + length k + len_len (length v) + length v + cc_len c
      | OffsetTable \<Rightarrow> len_len P + len_len (length k) + len_len (P + length k) + len_len (length v) + cc_len c +
          (len_len (P + length k + length v) - len_len P) + length k + length v
      | CustomLayout ident parameters \<Rightarrow> 0)"

definition item_len :: "tree_format \<Rightarrow> bool \<Rightarrow> u8 \<Rightarrow> item list \<Rightarrow> error + nat" where
  "item_len f leaf level items = try_encoded_len (item_node f leaf level items)"

abbreviation registered :: "tree_format \<Rightarrow> bool" where
  "registered f \<equiv> \<forall>ident parameters. tf_node_layout f \<noteq> CustomLayout ident parameters"

lemma len_len_mono: "m \<le> n \<Longrightarrow> n < 2 ^ 64 \<Longrightarrow> len_len m \<le> len_len n"
  by (rule varint_len_mono) (simp add: unat_of_nat_u64 del: of_nat_add)

lemma item_len_snoc:
  assumes "item_len f leaf level items = Inr L" "items_ok leaf items" "validate_child_count leaf c = Inr ()"
    and "length items + 1 < 2 ^ 64" "payload_size items + length k + length v < 2 ^ 64"
  shows "item_len f leaf level (items @ [(k, v, c)]) =
    Inr (L + (len_len (length items + 1) - len_len (length items)) +
      entry_cost (tf_node_layout f) (payload_size items) (last_key items) k v c)"
proof -
  note counts = length_item_counts [OF assms(2)] count_len_snoc [OF assms(2,3), of k v]
  have mono: "len_len (length items) \<le> len_len (length items + 1)"
    "len_len (payload_size items) \<le> len_len (payload_size items + length k + length v)"
    by (rule len_len_mono; use assms(4,5) in linarith)+
  show ?thesis
    using assms(1) counts mono
      prefix_entries_len_append [of leaf 0 "item_entries items" "item_counts items"
        "case c of None \<Rightarrow> [] | Some n \<Rightarrow> [n]" "[]" k v]
      plain_entries_len_append [of leaf 0 "item_entries items" "item_counts items"
        "case c of None \<Rightarrow> [] | Some n \<Rightarrow> [n]" k v]
      offset_entries_len_append [of leaf 0 "item_entries items" "item_counts items" "payload_size items" 0
        "case c of None \<Rightarrow> [] | Some n \<Rightarrow> [n]" k v]
    by (cases "node_format_bytes f"; cases "tf_node_layout f")
       (auto simp: item_len_def try_encoded_len_def entries_len_def entry_cost_def payload_item_entries last_key_def last_map Let_def
         simp del: of_nat_add of_nat_Suc)
qed

section \<open>The sizer computes the encoded length\<close>

lemma unat_child_count_len: "unat (child_count_len c) = cc_len c"
  by (simp add: child_count_len_def cc_len_def unat_sizer_varint_len split: option.split)

lemma len_len_unat [simp]: "len_len (unat w) = varint_len w"
  by simp

lemma of_nat_diff_unat: "unat a = unat c + unat b \<Longrightarrow> (of_nat (unat a - unat b) :: u64) = c"
  by simp

lemma entry_delta_prefix:
  assumes "tf_node_layout (sz_format s) = PrefixCompressed" "unat kl = length k" "unat vl = length v"
  shows "entry_delta s previous k kl vl c = Inr d \<longleftrightarrow>
    unat d = entry_cost PrefixCompressed P previous k v c"
proof -
  let ?n = "case previous of None \<Rightarrow> 0 | Some p \<Rightarrow> common_prefix_len p k"
  have n: "?n \<le> length k" by (auto simp: common_prefix_len_le split: option.split)
  let ?shared = "of_nat ?n :: u64" and ?suffix = "of_nat (length k - ?n) :: u64"
  have lt: "length k < 2 ^ 64" using unat_u64_lt [of kl] assms(2) by simp
  have u: "unat ?shared = ?n" "unat ?suffix = length k - ?n"
    using n lt by (auto simp: unat_of_nat_u64 simp del: of_nat_diff)
  have "checked_sub kl ?shared = Some ?suffix" using u n assms(2) by (simp add: checked_sub_iff del: of_nat_diff)
  moreover have "try_u64 ?n = Inr ?shared" by (simp add: try_u64_iff u)
  ultimately have "entry_delta s previous k kl vl c =
      checked_sum [sizer_varint_len ?shared, sizer_varint_len ?suffix, ?suffix, sizer_varint_len vl, vl, child_count_len c]"
    using assms(1) unfolding entry_delta_def sizer_common_prefix_len by (simp del: of_nat_diff)
  then show ?thesis
    using assms(3) by (simp add: checked_sum_iff unat_sizer_varint_len unat_child_count_len entry_cost_def Let_def u add.assoc
        flip: assms(3) del: of_nat_diff)
qed

lemma entry_delta_plain:
  assumes "tf_node_layout (sz_format s) = Plain" "unat kl = length k" "unat vl = length v"
  shows "entry_delta s previous k kl vl c = Inr d \<longleftrightarrow> unat d = entry_cost Plain P previous k v c"
  using assms(1) by (simp add: entry_delta_def checked_sum_iff unat_sizer_varint_len unat_child_count_len entry_cost_def add.assoc
      flip: assms(2,3))

lemma entry_delta_offset:
  assumes "tf_node_layout (sz_format s) = OffsetTable" "unat kl = length k" "unat vl = length v"
    and "P = unat (sz_payload_len s)"
  shows "entry_delta s previous k kl vl c = Inr d \<longleftrightarrow>
    P + length k + length v < 2 ^ 64 \<and> unat d = entry_cost OffsetTable P previous k v c"
proof (cases "P + length k + length v < 2 ^ 64")
  case True
  let ?vo = "of_nat (P + length k) :: u64" and ?np = "of_nat (P + length k + length v) :: u64"
  have u: "unat ?vo = P + length k" "unat ?np = P + length k + length v"
    using True by (auto simp: unat_of_nat_u64 simp del: of_nat_add)
  have m: "varint_len (sz_payload_len s) \<le> varint_len ?np"
    by (rule varint_len_mono) (subst u(2), simp add: assms(4))
  let ?w = "of_nat (varint_len ?np - varint_len (sz_payload_len s)) :: u64"
  have w: "unat ?w = varint_len ?np - varint_len (sz_payload_len s)"
    using varint_len_le_10 [of ?np] by (simp add: unat_of_nat_u64 del: of_nat_diff of_nat_add)
  have "checked_add (sz_payload_len s) kl = Some ?vo" "checked_add ?vo vl = Some ?np"
    "checked_sub (sizer_varint_len ?np) (sizer_varint_len (sz_payload_len s)) = Some ?w"
    using u w m assms by (simp_all add: checked_add_iff checked_sub_iff unat_sizer_varint_len del: of_nat_diff of_nat_add)
  then have "entry_delta s previous k kl vl c =
      checked_sum [sizer_varint_len (sz_payload_len s), sizer_varint_len kl, sizer_varint_len ?vo,
        sizer_varint_len vl, child_count_len c, ?w, kl, vl]"
    using assms(1) by (simp add: entry_delta_def del: of_nat_diff of_nat_add)
  then show ?thesis
    using True w assms(4) by (simp add: checked_sum_iff unat_sizer_varint_len unat_child_count_len entry_cost_def add.assoc
        flip: assms(2,3) del: of_nat_diff of_nat_add)
next
  case False
  have "unat x = unat (sz_payload_len s) + unat kl \<Longrightarrow> unat y = unat x + unat vl \<Longrightarrow> False" for x y :: u64
    using unat_u64_lt [of y] False assms by simp
  then show ?thesis using assms(1) False
    by (auto simp: entry_delta_def and_then_Inr_iff ok_or_Inr_iff checked_add_iff)
qed

lemma entry_delta_iff:
  assumes "registered (sz_format s)" "unat kl = length k" "unat vl = length v" "unat (sz_payload_len s) + length k + length v < 2 ^ 64"
  shows "entry_delta s previous k kl vl c = Inr d \<longleftrightarrow>
    unat d = entry_cost (tf_node_layout (sz_format s)) (unat (sz_payload_len s)) previous k v c"
  using assms entry_delta_prefix [of s kl k vl v] entry_delta_plain [of s kl k vl v] entry_delta_offset [of s kl k vl v]
  by (cases "tf_node_layout (sz_format s)") auto

lemma size_after_iff:
  assumes "registered (sz_format s)" "unat (sz_count s) + 1 < 2 ^ 64" "unat (sz_payload_len s) + length k + length v < 2 ^ 64"
  shows "size_after previous k v c s = Inr z \<longleftrightarrow>
    validate_child_count (sz_leaf s) c = Inr () \<and>
    unat z = unat (sz_size s) + (varint_len (sz_count s + 1) - varint_len (sz_count s)) +
      entry_cost (tf_node_layout (sz_format s)) (unat (sz_payload_len s)) previous k v c"
proof -
  let ?kl = "of_nat (length k) :: u64" and ?vl = "of_nat (length v) :: u64"
  have u: "unat ?kl = length k" "unat ?vl = length v" using assms(3) by (auto simp: unat_of_nat_u64)
  have n: "unat (sz_count s + 1) = unat (sz_count s) + 1" using assms(2) by (simp add: unat_word_ariths)
  have m: "varint_len (sz_count s) \<le> varint_len (sz_count s + 1)"
    by (rule varint_len_mono) (simp add: n)
  let ?w = "of_nat (varint_len (sz_count s + 1) - varint_len (sz_count s)) :: u64"
  have w: "unat ?w = varint_len (sz_count s + 1) - varint_len (sz_count s)"
    using varint_len_le_10 [of "sz_count s + 1"] by (simp add: unat_of_nat_u64 del: of_nat_diff)
  have "try_u64 (length k) = Inr ?kl" "try_u64 (length v) = Inr ?vl" "checked_add (sz_count s) 1 = Some (sz_count s + 1)"
    "checked_sub (sizer_varint_len (sz_count s + 1)) (sizer_varint_len (sz_count s)) = Some ?w"
    using u n w m by (simp_all add: try_u64_iff checked_add_iff checked_sub_iff unat_sizer_varint_len del: of_nat_diff)
  then have "size_after previous k v c s = Inr z \<longleftrightarrow> validate_child_count (sz_leaf s) c = Inr () \<and>
      (\<exists>d. entry_delta s previous k ?kl ?vl c = Inr d \<and> unat z = unat (sz_size s) + unat ?w + unat d)"
    by (auto simp: size_after_def and_then_Inr_iff ok_or_Inr_iff bind_checked_add_iff simp del: of_nat_diff)
  also have "\<dots> \<longleftrightarrow> validate_child_count (sz_leaf s) c = Inr () \<and>
    unat z = unat (sz_size s) + unat ?w + entry_cost (tf_node_layout (sz_format s)) (unat (sz_payload_len s)) previous k v c"
    (is "?v \<and> ?l \<longleftrightarrow> ?v \<and> ?r")
  proof -
    have "?l" if r: "?r"
      by (rule exI [of _ "of_nat (entry_cost (tf_node_layout (sz_format s)) (unat (sz_payload_len s)) previous k v c)"])
        (use r unat_u64_lt [of z] in \<open>simp add: entry_delta_iff [OF assms(1) u assms(3)] unat_of_nat_u64 del: of_nat_diff\<close>)
    then show ?thesis by (auto simp: entry_delta_iff [OF assms(1) u assms(3)] simp del: of_nat_diff)
  qed
  finally show ?thesis by (simp add: w del: of_nat_diff)
qed

text \<open>The state a sizer has after the entries of a node.\<close>

definition in_memory :: "item list \<Rightarrow> bool" where
  "in_memory items \<longleftrightarrow> length items < 2 ^ 64 \<and> payload_size items < 2 ^ 64"

definition sizer_ok :: "tree_format \<Rightarrow> bool \<Rightarrow> u8 \<Rightarrow> item list \<Rightarrow> sizer \<Rightarrow> bool" where
  "sizer_ok f leaf level items s \<longleftrightarrow>
     sz_format s = f \<and> sz_leaf s = leaf \<and> sz_level s = level \<and> registered f \<and> items_ok leaf items \<and>
     unat (sz_count s) = length items \<and> unat (sz_payload_len s) = payload_size items \<and>
     item_len f leaf level items = Inr (unat (sz_size s)) \<and>
     item_len f leaf level [] = Inr (unat (sz_empty_size s))"

lemma in_memory_snoc:
  "in_memory (items @ [(k, v, c)]) \<longleftrightarrow> length items + 1 < 2 ^ 64 \<and> payload_size items + length k + length v < 2 ^ 64"
  by (auto simp: in_memory_def)

lemma in_memory_append: "in_memory (xs @ ys) \<Longrightarrow> in_memory xs \<and> in_memory ys"
  by (auto simp: in_memory_def payload_size_def)

lemma unat_varint_2: "varint_len 2 = 1" "varint_len 0 = 1"
  by (subst varint_len.simps, simp)+

lemma sizer_new_ok:
  assumes "sizer_new f leaf level = Inr s"
  shows "sizer_ok f leaf level [] s"
proof -
  obtain format_len where v: "format_validate f = Inr ()" and reg: "registered f"
    and fl: "(if f = tree_format_default then Inr 0 else and_then (canonical_bytes f) (\<lambda>bs. try_u64 (length bs))) = Inr format_len"
    using assms by (auto simp: sizer_new_def and_then_Inr_iff split: node_layout_spec.splits)
  obtain fb where fb: "node_format_bytes f = Inr fb" "length fb = unat format_len"
    using fl by (auto simp: node_format_bytes_def and_then_Inr_iff try_u64_iff split: if_splits)
  have b: "(of_bool leaf :: u64) = (if leaf then 1 else 0)" by simp
  show ?thesis
    using assms v reg fl fb
    by (cases "tf_node_layout f")
       (auto simp: sizer_new_def sizer_ok_def and_then_Inr_iff ok_or_Inr_iff bind_eq_Some_conv checked_add_iff
         unat_sizer_varint_len item_len_def try_encoded_len_def entries_len_def compact_magic_def compact_version_def b
         unat_varint_2 simp del: of_bool_eq_iff split: if_splits)
qed

lemma sizer_new_total:
  assumes "format_validate f = Inr ()" "registered f" "item_len f leaf level [] = Inr n" "n < 2 ^ 64"
  shows "\<exists>s. sizer_new f leaf level = Inr s"
proof -
  obtain fb where fb: "node_format_bytes f = Inr fb"
    using assms(3) by (auto simp: item_len_def try_encoded_len_def and_then_Inr_iff)
  have lt: "length fb < 2 ^ 64" using assms(3,4) fb
    by (auto simp: item_len_def try_encoded_len_def and_then_Inr_iff)
  define fl :: u64 where "fl = of_nat (length fb)"
  have ufl: "unat fl = length fb" using lt by (simp add: fl_def unat_of_nat_u64)
  have e: "(if f = tree_format_default then Inr 0 else and_then (canonical_bytes f) (\<lambda>bs. try_u64 (length bs))) = Inr fl"
    using fb ufl by (auto simp: node_format_bytes_def try_u64_iff split: if_splits) (auto simp: fl_def)
  define sum :: "nat" where "sum = 4 + varint_len 2 + varint_len fl + length fb + varint_len (of_bool leaf) + varint_len (ucast level) + varint_len 0"
  have b: "(of_bool leaf :: u64) = (if leaf then 1 else 0)" by simp
  have n: "n = sum + (if tf_node_layout f = OffsetTable then 1 else 0)"
    using assms(2,3) fb by (cases "tf_node_layout f") (auto simp: sum_def item_len_def try_encoded_len_def entries_len_def
        compact_magic_def compact_version_def fl_def unat_varint_2 b simp del: of_bool_eq_iff)
  have us: "unat (of_nat sum :: u64) = sum" using n assms(4) by (simp add: unat_of_nat_u64)
  have "checked_sum_loop 4 [sizer_varint_len 2, sizer_varint_len fl, fl, sizer_varint_len (of_bool leaf),
      sizer_varint_len (ucast level), sizer_varint_len 0] = Some (of_nat sum)"
    by (simp only: checked_sum_loop_iff us) (simp add: sum_def unat_sizer_varint_len ufl del: of_bool_eq_iff)
  moreover have "checked_add (of_nat sum) (sizer_varint_len 0) = Some (of_nat sum + sizer_varint_len 0)"
    if "tf_node_layout f = OffsetTable"
    using that n assms(4) by (intro checked_add_eq_Some) (simp add: us unat_sizer_varint_len unat_varint_2)
  ultimately show ?thesis
    using assms(1,2) e by (cases "tf_node_layout f") (auto simp: sizer_new_def bind_runit simp del: of_bool_eq_iff)
qed

lemma sizer_reset_ok: "sizer_ok f leaf level items s \<Longrightarrow> sizer_ok f leaf level [] (sizer_reset s)"
  by (simp add: sizer_ok_def sizer_reset_def)

lemma size_after_ok:
  assumes "sizer_ok f leaf level items s" "in_memory (items @ [(k, v, c)])"
  shows "size_after (last_key items) k v c s = Inr z \<longleftrightarrow>
    validate_child_count leaf c = Inr () \<and> item_len f leaf level (items @ [(k, v, c)]) = Inr (unat z)"
proof -
  have m: "length items + 1 < 2 ^ 64" "payload_size items + length k + length v < 2 ^ 64"
    using assms(2) by (simp_all add: in_memory_snoc)
  have c: "sz_count s = of_nat (length items)" using assms(1) by (auto simp: sizer_ok_def dest!: sym [of _ "length items"])
  have c1: "sz_count s + 1 = of_nat (length items + 1)" by (simp add: c)
  show ?thesis
    using item_len_snoc [of f leaf level items "unat (sz_size s)" c k v] assms(1) m
      size_after_iff [of s k v "last_key items" c z] c1 [symmetric]
    by (auto simp: sizer_ok_def c simp del: of_nat_add of_nat_Suc)
qed

lemma push_sized_ok:
  assumes "sizer_ok f leaf level items s" "in_memory (items @ [(k, v, c)])" "validate_child_count leaf c = Inr ()"
    and "item_len f leaf level (items @ [(k, v, c)]) = Inr (unat z)"
  obtains s' where "push_sized k v c z s = Inr s'" "sizer_ok f leaf level (items @ [(k, v, c)]) s'" "sz_size s' = z"
    "sz_empty_size s' = sz_empty_size s"
proof -
  have m: "length items + 1 < 2 ^ 64" "payload_size items + length k + length v < 2 ^ 64"
    using assms(2) by (simp_all add: in_memory_snoc)
  let ?n = "of_nat (length items + 1) :: u64" and ?p = "of_nat (payload_size items + length k + length v) :: u64"
  have u: "unat ?n = length items + 1" "unat ?p = payload_size items + length k + length v"
    "unat (of_nat (length k) :: u64) = length k" "unat (of_nat (length v) :: u64) = length v"
    using m by (auto simp: unat_of_nat_u64 simp del: of_nat_add of_nat_Suc)
  have "checked_add (sz_count s) 1 = Some ?n" "try_u64 (length k) = Inr (of_nat (length k))" "try_u64 (length v) = Inr (of_nat (length v))"
    "Option.bind (checked_add (sz_payload_len s) (of_nat (length k))) (\<lambda>x. checked_add x (of_nat (length v))) = Some ?p"
    using assms(1) u by (simp_all add: sizer_ok_def checked_add_iff try_u64_iff bind_checked_add_iff del: of_nat_add of_nat_Suc)
  then have "push_sized k v c z s = Inr (s\<lparr>sz_size := z, sz_count := ?n, sz_payload_len := ?p\<rparr>)"
    by (simp add: push_sized_def del: of_nat_add of_nat_Suc)
  then show thesis
    by (rule that) (use assms u in \<open>auto simp: sizer_ok_def simp del: of_nat_add of_nat_Suc\<close>)
qed

lemma item_len_mono:
  assumes "item_len f leaf level (items @ [(k, v, c)]) = Inr n" "items_ok leaf (items @ [(k, v, c)])"
    "in_memory (items @ [(k, v, c)])"
  shows "\<exists>m \<le> n. item_len f leaf level items = Inr m"
proof -
  obtain m where m: "item_len f leaf level items = Inr m"
    using assms(1) by (auto simp: item_len_def try_encoded_len_def and_then_Inr_iff entries_len_def split: node_layout_spec.splits)
  then show ?thesis using item_len_snoc [OF m, of c k v] assms by (auto simp: in_memory_snoc)
qed

lemma to_bytes_item_len:
  "to_bytes (item_node f leaf level items) = Inr bs \<Longrightarrow> item_len f leaf level items = Inr (length bs)"
  by (auto simp: item_len_def encoded_len_exact to_bytes_def expect_ok_def split: sum.splits)

lemma item_len_to_bytes:
  assumes "item_len f leaf level items = Inr n"
  obtains bs where "to_bytes (item_node f leaf level items) = Inr bs" "length bs = n"
  using assms by (cases "to_compact_bytes (item_node f leaf level items)")
    (auto simp: item_len_def encoded_len_exact to_bytes_def expect_ok_def)

text \<open>An upper bound that needs no look at the other entries.\<close>

definition upper_len :: "item list \<Rightarrow> nat" where
  "upper_len items = sum_list (map (\<lambda>(k, v, c). length k + length v + 64) items)"

lemma upper_len_simps [simp]:
  "upper_len [] = 0" "upper_len ((k, v, c) # items) = length k + length v + 64 + upper_len items"
  "upper_len (xs @ ys) = upper_len xs + upper_len ys"
  by (simp_all add: upper_len_def)

lemma upper_len_eq: "upper_len items = payload_size items + 64 * length items"
  by (induction items) (auto simp: payload_size_def)

lemma upper_len_in_memory: "upper_len items < 2 ^ 64 \<Longrightarrow> in_memory items"
  by (auto simp: in_memory_def upper_len_eq)

lemma entry_cost_upper:
  assumes "P + length k + length v < 2 ^ 64"
  shows "entry_cost layout P previous k v c \<le> length k + length v + 50 +
    (if layout = OffsetTable then len_len (P + length k + length v) - len_len P else 0)"
proof -
  have "cc_len c \<le> 10" by (auto simp: cc_len_def varint_len_le_10 split: option.split)
  moreover have "len_len n \<le> 10" for n by (rule varint_len_le_10)
  note this [of "length k"] this [of "length v"] this [of P] this [of "P + length k"]
    this [of "case previous of None \<Rightarrow> 0 | Some p \<Rightarrow> common_prefix_len p k"]
    this [of "length k - (case previous of None \<Rightarrow> 0 | Some p \<Rightarrow> common_prefix_len p k)"]
  ultimately show ?thesis
    by (cases layout) (auto simp: entry_cost_def Let_def simp del: of_nat_add of_nat_diff)
qed

lemma item_len_bound:
  assumes "item_len f leaf level [] = Inr e" "items_ok leaf items" "in_memory items"
  shows "\<exists>n. item_len f leaf level items = Inr n \<and> e \<le> n \<and>
    n \<le> e + (payload_size items + 50 * length items) + (len_len (length items) - 1) +
      (if tf_node_layout f = OffsetTable then len_len (payload_size items) - 1 else 0)"
  using assms(2,3)
proof (induction items rule: rev_induct)
  case Nil
  then show ?case using assms(1) by simp
next
  case (snoc i items)
  obtain k v c where i: "i = (k, v, c)" by (cases i)
  note prems = snoc.prems [unfolded i]
  have room: "length items + 1 < 2 ^ 64" "payload_size items + length k + length v < 2 ^ 64"
    using prems(2) by (auto simp: in_memory_snoc)
  have ok: "items_ok leaf items" "validate_child_count leaf c = Inr ()" "in_memory items"
    using prems in_memory_append [OF prems(2)] by auto
  obtain n where n: "item_len f leaf level items = Inr n" "e \<le> n"
    "n \<le> e + (payload_size items + 50 * length items) + (len_len (length items) - 1) +
      (if tf_node_layout f = OffsetTable then len_len (payload_size items) - 1 else 0)"
    using snoc.IH ok by blast
  have mono: "len_len (length items) \<le> len_len (length items + 1)"
    "len_len (payload_size items) \<le> len_len (payload_size items + length k + length v)"
    by (rule len_len_mono; use room in linarith)+
  have pos: "0 < len_len (length items)" "0 < len_len (payload_size items)" by (rule varint_len_pos)+
  show ?case
    using item_len_snoc [OF n(1) ok(1,2) room] n(2,3) mono pos
      entry_cost_upper [OF room(2), of "tf_node_layout f" "last_key items" c]
    by (auto simp: i simp del: of_nat_add of_nat_Suc split: if_splits)
qed

lemma item_len_upper:
  assumes "item_len f leaf level [] = Inr e" "items_ok leaf items" "upper_len items < 2 ^ 64"
  obtains n where "item_len f leaf level items = Inr n" "e \<le> n" "n \<le> e + upper_len items"
proof -
  obtain n where n: "item_len f leaf level items = Inr n" "e \<le> n"
    "n \<le> e + (payload_size items + 50 * length items) + (len_len (length items) - 1) +
      (if tf_node_layout f = OffsetTable then len_len (payload_size items) - 1 else 0)"
    using item_len_bound [OF assms(1,2) upper_len_in_memory [OF assms(3)]] by blast
  have le: "len_len m \<le> 10" for m by (rule varint_len_le_10)
  have one: "len_len 1 = 1" "len_len 0 = 1" by (simp_all add: unat_varint_2 varint_len.simps word_le_nat_alt)
  consider "length items = 0" | "length items = 1" | "2 \<le> length items" by linarith
  then have "n \<le> e + upper_len items"
  proof cases
    case 1
    then have "items = []" by simp
    then show ?thesis using n(3) one by (simp split: if_splits)
  next
    case 2
    then show ?thesis using n(3) one le [of "payload_size items"] by (simp add: upper_len_eq split: if_splits)
  next
    case 3
    then show ?thesis using n(3) le [of "payload_size items"] le [of "length items"] by (simp add: upper_len_eq split: if_splits)
  qed
  with n that show thesis by blast
qed

section \<open>Properties\<close>

primrec sizer_push_all :: "item list \<Rightarrow> bytes option \<Rightarrow> sizer \<Rightarrow> error + sizer" where
  "sizer_push_all [] previous s = Inr s"
| "sizer_push_all (i # items) previous s =
     (case i of (key, val, child_count) \<Rightarrow>
        and_then (sizer_push previous key val child_count s) (\<lambda>s'. sizer_push_all items (Some key) s'))"

lemma sizer_push_all_snoc:
  "sizer_push_all (items @ [(k, v, c)]) previous s =
   and_then (sizer_push_all items previous s) (sizer_push (if items = [] then previous else last_key items) k v c)"
proof (induction items arbitrary: previous s)
  case Nil
  then show ?case by (cases "sizer_push previous k v c s") auto
next
  case (Cons i items)
  have "last_key (i # items) = (if items = [] then Some (fst i) else last_key items)" by (simp add: last_key_def)
  then show ?case by (cases i) (auto simp: Cons and_then_assoc)
qed

lemma sizer_push_all_ok:
  assumes "sizer_ok f leaf level [] s" "items_ok leaf items" "in_memory items"
    "item_len f leaf level items = Inr n" "n < 2 ^ 64"
  shows "\<exists>s'. sizer_push_all items None s = Inr s' \<and> sizer_ok f leaf level items s'"
  using assms(2-)
proof (induction items arbitrary: n rule: rev_induct)
  case Nil
  then show ?case using assms(1) by simp
next
  case (snoc i items)
  obtain k v c where i: "i = (k, v, c)" by (cases i)
  note prems = snoc.prems [unfolded i]
  obtain m where m: "m \<le> n" "item_len f leaf level items = Inr m"
    using item_len_mono [OF prems(3,1,2)] by blast
  have "items_ok leaf items" "in_memory items" "m < 2 ^ 64"
    using prems(1,4) m(1) in_memory_append [OF prems(2)] by simp_all
  then obtain s1 where s1: "sizer_push_all items None s = Inr s1" "sizer_ok f leaf level items s1"
    using snoc.IH m(2) by blast
  have valid: "validate_child_count leaf c = Inr ()" using prems(1) by simp
  have len: "item_len f leaf level (items @ [(k, v, c)]) = Inr (unat (of_nat n :: u64))"
    using prems(3,4) by (simp add: unat_of_nat_u64)
  then have "size_after (last_key items) k v c s1 = Inr (of_nat n)"
    using size_after_ok [OF s1(2) prems(2)] valid by simp
  moreover have "(if items = [] then None else last_key items) = last_key items" by (simp add: last_key_def)
  ultimately show ?case
    using push_sized_ok [OF s1(2) prems(2) valid len] s1(1)
    by (auto simp: i sizer_push_all_snoc sizer_push_def)
qed

text \<open>
  C22 (\<open>EncodedNodeSizer\<close>).  Pushing the entries of a node one by one computes, without
  writing anything and without an arithmetic error, the exact number of bytes
  \<open>Node::to_bytes\<close> produces for the node, in every layout, for leaves and internal nodes;
  a reset returns to the size of the empty node.
\<close>

theorem sizer_exact:
  assumes "sizer_new f leaf level = Inr s0" "items_ok leaf items" "in_memory items"
    "to_bytes (item_node f leaf level items) = Inr bs" "length bs < 2 ^ 64"
  shows "\<exists>s. sizer_push_all items None s0 = Inr s \<and> unat (sz_size s) = length bs \<and>
    sizer_push_all items None (sizer_reset s) = Inr s"
proof -
  note ok = sizer_new_ok [OF assms(1)]
  obtain s where s: "sizer_push_all items None s0 = Inr s" "sizer_ok f leaf level items s"
    using sizer_push_all_ok [OF ok assms(2,3) to_bytes_item_len [OF assms(4)] assms(5)] by blast
  have "sizer_reset s = s0"
    using ok s(2) by (auto simp: sizer_ok_def sizer_reset_def word_unat_eq_iff intro!: sizer.equality)
  moreover have "unat (sz_size s) = length bs"
    using s(2) to_bytes_item_len [OF assms(4)] by (simp add: sizer_ok_def)
  ultimately show ?thesis using s by auto
qed

definition sized_items :: "item list" where
  "sized_items = [([1, 2], [7], Some 3), ([1, 3, 4], [], Some 200)]"

lemma sized_items_ok:
  "items_ok False sized_items"
  "to_bytes (item_node tree_format_default False 1 sized_items) =
     Inr [0x43, 0x52, 0x41, 0x42, 2, 0, 0, 1, 2, 0, 2, 1, 2, 1, 7, 3, 1, 2, 3, 4, 0, 200, 1]"
  "item_len tree_format_default False 1 [] = Inr 9" "registered tree_format_default"
     apply code_simp
    apply code_simp
   apply code_simp
  apply (simp add: tree_format_default_def)
  done

theorem sizer_exact_witness:
  "\<exists>s0 s. sizer_new tree_format_default False 1 = Inr s0 \<and> sizer_push_all sized_items None s0 = Inr s \<and>
     sz_size s = 23 \<and> sizer_push_all sized_items None (sizer_reset s) = Inr s"
proof -
  obtain s0 where s0: "sizer_new tree_format_default False 1 = Inr s0"
    using sizer_new_total [OF default_valid sized_items_ok(4,3)] by auto
  have "in_memory sized_items" by (simp add: in_memory_def sized_items_def payload_size_def)
  then show ?thesis
    using sizer_exact [OF s0 sized_items_ok(1) _ sized_items_ok(2)] s0
    by (auto simp: word_unat_eq_iff)
qed

end
