(* ===== verification/Ordered_Map.thy ===== *)
theory Ordered_Map
  imports Prelude
begin

text \<open>
  \<open>BTreeMap\<close> of the Rust standard library, as the association list its iterator yields:
  strictly increasing keys.  The in-memory store, the transaction overlay and the garbage
  collector keep their state in such maps and depend on the iteration order.
\<close>

type_synonym ('k, 'v) btree = "('k \<times> 'v) list"

definition bt_ok :: "('k :: linorder, 'v) btree \<Rightarrow> bool" where
  "bt_ok m \<longleftrightarrow> sorted_wrt (<) (map fst m)"

definition bt_get :: "'k \<Rightarrow> ('k, 'v) btree \<Rightarrow> 'v option" where
  "bt_get k m = map_of m k"

fun bt_insert :: "'k :: linorder \<Rightarrow> 'v \<Rightarrow> ('k, 'v) btree \<Rightarrow> ('k, 'v) btree" where
  "bt_insert k v [] = [(k, v)]"
| "bt_insert k v ((k', v') # m) =
     (if k < k' then (k, v) # (k', v') # m else if k = k' then (k, v) # m else (k', v') # bt_insert k v m)"

definition bt_remove :: "'k \<Rightarrow> ('k, 'v) btree \<Rightarrow> ('k, 'v) btree" where
  "bt_remove k m = filter (\<lambda>(k', v). k' \<noteq> k) m"

definition bt_keys :: "('k, 'v) btree \<Rightarrow> 'k list" where
  "bt_keys m = map fst m"

lemma bt_ok_simps [simp]:
  "bt_ok []" "bt_ok ((k, v) # m) \<longleftrightarrow> (\<forall>k' \<in> fst ` set m. k < k') \<and> bt_ok m"
  by (auto simp: bt_ok_def)

lemma bt_get_simps [simp]: "bt_get k [] = None" "bt_get k ((k', v) # m) = (if k = k' then Some v else bt_get k m)"
  by (auto simp: bt_get_def)

lemma bt_get_in: "bt_get k m = Some v \<Longrightarrow> (k, v) \<in> set m"
  by (simp add: bt_get_def map_of_SomeD)

lemma bt_get_None: "bt_get k m = None \<longleftrightarrow> k \<notin> set (bt_keys m)"
  by (simp add: bt_get_def bt_keys_def map_of_eq_None_iff)

lemma keys_bt_insert: "fst ` set (bt_insert k v m) = insert k (fst ` set m)"
  by (induction k v m rule: bt_insert.induct) auto

lemma bt_ok_insert [simp]: "bt_ok m \<Longrightarrow> bt_ok (bt_insert k v m)"
  by (induction k v m rule: bt_insert.induct) (auto simp: keys_bt_insert)

lemma bt_get_below: "bt_ok m \<Longrightarrow> \<forall>k' \<in> fst ` set m. k < k' \<Longrightarrow> bt_get k m = None"
  by (auto simp: bt_get_None bt_keys_def)

lemma bt_get_insert: "bt_ok m \<Longrightarrow> bt_get k (bt_insert k' v m) = (if k = k' then Some v else bt_get k m)"
  by (induction k' v m rule: bt_insert.induct) auto

lemma bt_ok_remove [simp]: "bt_ok m \<Longrightarrow> bt_ok (bt_remove k m)"
  by (induction m) (auto simp: bt_remove_def)

lemma bt_get_remove: "bt_get k (bt_remove k' m) = (if k = k' then None else bt_get k m)"
  by (induction m) (auto simp: bt_remove_def)

lemma bt_in_get: "bt_ok m \<Longrightarrow> (k, v) \<in> set m \<Longrightarrow> bt_get k m = Some v"
  by (induction m) force+

lemma sorted_bt_keys: "bt_ok m \<Longrightarrow> sorted_wrt (<) (bt_keys m)"
  by (simp add: bt_ok_def bt_keys_def)

lemma distinct_bt_keys: "bt_ok m \<Longrightarrow> distinct (bt_keys m)"
  using sorted_bt_keys [of m] strict_sorted_iff by blast

lemma bt_by_keys: "bt_ok m \<Longrightarrow> m = map (\<lambda>k. (k, the (bt_get k m))) (bt_keys m)"
  by (auto simp: bt_keys_def comp_def bt_in_get intro!: map_idI [symmetric])

lemma bt_eqI:
  assumes "bt_ok m" "bt_ok m'" "\<And>k. bt_get k m = bt_get k m'"
  shows "m = m'"
proof -
  have "set (bt_keys m') = set (bt_keys m)"
    using assms(3) bt_get_None [of _ m] bt_get_None [of _ m'] by auto
  then have "bt_keys m' = bt_keys m"
    using assms by (intro strict_sorted_equal) (auto simp: sorted_bt_keys)
  then show ?thesis
    by (subst bt_by_keys [OF assms(1)], subst bt_by_keys [OF assms(2)]) (simp add: assms(3))
qed

end
