(* ===== verification/Manifests.thy ===== *)
theory Manifests
  imports Tree_Format Ordered_Map
begin

text \<open>
  Tree handles, named roots and retention policies (\<^verbatim>\<open>src/src/prolly/tree.rs\<close>,
  \<^verbatim>\<open>src/src/prolly/manifest.rs\<close>) and the named-root operations of the manager
  (\<^verbatim>\<open>src/src/prolly/mod.rs\<close>).  The manager is generic in the manifest store: its operations
  take the store's methods as arguments, and the locales state what those methods promise.
\<close>

section \<open>Definitions\<close>

record tree =
  tr_root :: "cid option"
  tr_config :: config

definition tree_new :: "config \<Rightarrow> tree" where
  "tree_new cfg = \<lparr>tr_root = None, tr_config = cfg\<rparr>"

definition tree_is_empty :: "tree \<Rightarrow> bool" where
  "tree_is_empty t \<longleftrightarrow> tr_root t = None"

record root_manifest =
  rm_root :: "cid option"
  rm_config :: config
  rm_created_at_millis :: "u64 option"
  rm_updated_at_millis :: "u64 option"

definition root_manifest_new :: "cid option \<Rightarrow> config \<Rightarrow> root_manifest" where
  "root_manifest_new root cfg =
     \<lparr>rm_root = root, rm_config = cfg, rm_created_at_millis = None, rm_updated_at_millis = None\<rparr>"

definition with_timestamps_millis :: "u64 option \<Rightarrow> u64 option \<Rightarrow> root_manifest \<Rightarrow> root_manifest" where
  "with_timestamps_millis created updated m = m\<lparr>rm_created_at_millis := created, rm_updated_at_millis := updated\<rparr>"

definition with_created_at_millis :: "u64 \<Rightarrow> root_manifest \<Rightarrow> root_manifest" where
  "with_created_at_millis created m = m\<lparr>rm_created_at_millis := Some created\<rparr>"

definition with_updated_at_millis :: "u64 \<Rightarrow> root_manifest \<Rightarrow> root_manifest" where
  "with_updated_at_millis updated m = m\<lparr>rm_updated_at_millis := Some updated\<rparr>"

definition from_tree_with_timestamps_millis :: "tree \<Rightarrow> u64 option \<Rightarrow> u64 option \<Rightarrow> root_manifest" where
  "from_tree_with_timestamps_millis t created updated =
     \<lparr>rm_root = tr_root t, rm_config = tr_config t, rm_created_at_millis = created, rm_updated_at_millis = updated\<rparr>"

definition from_tree :: "tree \<Rightarrow> root_manifest" where
  "from_tree t = \<lparr>rm_root = tr_root t, rm_config = tr_config t, rm_created_at_millis = None, rm_updated_at_millis = None\<rparr>"

definition into_tree :: "root_manifest \<Rightarrow> tree" where
  "into_tree m = \<lparr>tr_root = rm_root m, tr_config = rm_config m\<rparr>"

type_synonym named_root_manifest = "bytes \<times> root_manifest"
type_synonym named_root = "bytes \<times> tree"

definition into_named_root :: "named_root_manifest \<Rightarrow> named_root" where
  "into_named_root r = (fst r, into_tree (snd r))"

record named_root_page =
  pg_roots :: "named_root_manifest list"
  pg_next_after :: "bytes option"

record named_root_selection =
  sel_roots :: "named_root list"
  sel_missing_names :: "bytes list"

definition selection_is_complete :: "named_root_selection \<Rightarrow> bool" where
  "selection_is_complete s \<longleftrightarrow> sel_missing_names s = []"

definition selection_trees :: "named_root_selection \<Rightarrow> tree list" where
  "selection_trees s = map snd (sel_roots s)"

datatype retention =
  RetainAll
| RetainExact "bytes list"
| RetainPrefix bytes
| NewestByName bytes nat
| UpdatedSince bytes u64

definition updated_within_millis :: "bytes \<Rightarrow> u64 \<Rightarrow> u64 \<Rightarrow> retention" where
  "updated_within_millis pre now_millis window_millis = UpdatedSince pre (saturating_sub now_millis window_millis)"

definition updated_within_days :: "bytes \<Rightarrow> u64 \<Rightarrow> u64 \<Rightarrow> retention" where
  "updated_within_days pre now_millis days = updated_within_millis pre now_millis (saturating_mul days 86400000)"

definition sort_named_root_manifests :: "named_root_manifest list \<Rightarrow> named_root_manifest list" where
  "sort_named_root_manifests roots = sort_key fst roots"

datatype manifest_update = Applied | Conflict "root_manifest option"
datatype named_root_update = NamedApplied | NamedConflict "tree option"

primrec named_root_update_from :: "manifest_update \<Rightarrow> named_root_update" where
  "named_root_update_from Applied = NamedApplied"
| "named_root_update_from (Conflict current) = NamedConflict (map_option into_tree current)"

subsection \<open>Listing by pages\<close>

definition list_roots_page :: "(error + named_root_manifest list) \<Rightarrow> bytes \<Rightarrow> bytes option \<Rightarrow> u64 \<Rightarrow> error + named_root_page" where
  "list_roots_page list_roots pre after limit =
     (if limit = 0 then Inr \<lparr>pg_roots = [], pg_next_after = None\<rparr>
      else and_then list_roots (\<lambda>all_roots.
        let roots = take (unat (saturating_add limit 1))
              (filter (\<lambda>r. prefix pre (fst r) \<and> (case after of None \<Rightarrow> True | Some a \<Rightarrow> a < fst r)) all_roots);
            has_more = unat limit < length roots;
            roots' = (if has_more then butlast roots else roots) in
        Inr \<lparr>pg_roots = roots', pg_next_after = (if has_more then Some (fst (last roots')) else None)\<rparr>))"

subsection \<open>Named roots of the manager\<close>

type_synonym 's root_reader = "'s \<Rightarrow> bytes \<Rightarrow> error + root_manifest option"
type_synonym 's root_lister = "'s \<Rightarrow> error + named_root_manifest list"

definition load_named_root :: "'s root_reader \<Rightarrow> 's \<Rightarrow> bytes \<Rightarrow> error + tree option" where
  "load_named_root get_root s name = and_then (get_root s name) (\<lambda>m. Inr (map_option into_tree m))"

fun load_named_roots_loop ::
  "'s root_reader \<Rightarrow> 's \<Rightarrow> bytes list \<Rightarrow> bytes list \<Rightarrow> named_root list \<Rightarrow> bytes list \<Rightarrow> error + named_root_selection" where
  "load_named_roots_loop get_root s [] seen roots missing = Inr \<lparr>sel_roots = roots, sel_missing_names = missing\<rparr>"
| "load_named_roots_loop get_root s (name # names) seen roots missing =
     (if name \<in> set seen then load_named_roots_loop get_root s names seen roots missing
      else and_then (load_named_root get_root s name) (\<lambda>loaded.
        case loaded of
          Some t \<Rightarrow> load_named_roots_loop get_root s names (name # seen) (roots @ [(name, t)]) missing
        | None \<Rightarrow> load_named_roots_loop get_root s names (name # seen) roots (missing @ [name])))"

definition load_named_roots :: "'s root_reader \<Rightarrow> 's \<Rightarrow> bytes list \<Rightarrow> error + named_root_selection" where
  "load_named_roots get_root s names = load_named_roots_loop get_root s names [] [] []"

definition list_named_roots :: "'s root_lister \<Rightarrow> 's \<Rightarrow> error + named_root list" where
  "list_named_roots list_roots s = and_then (list_roots s) (\<lambda>rs. Inr (map into_named_root rs))"

abbreviation selection_of :: "named_root list \<Rightarrow> named_root_selection" where
  "selection_of roots \<equiv> \<lparr>sel_roots = roots, sel_missing_names = []\<rparr>"

definition load_retained_named_roots ::
  "'s root_reader \<Rightarrow> 's root_lister \<Rightarrow> 's \<Rightarrow> retention \<Rightarrow> error + named_root_selection" where
  "load_retained_named_roots get_root list_roots s policy =
     (case policy of
        RetainAll \<Rightarrow> and_then (list_named_roots list_roots s) (\<lambda>rs. Inr (selection_of rs))
      | RetainExact names \<Rightarrow> load_named_roots get_root s names
      | RetainPrefix pre \<Rightarrow> and_then (list_named_roots list_roots s) (\<lambda>rs.
          Inr (selection_of (filter (\<lambda>r. prefix pre (fst r)) rs)))
      | NewestByName pre n \<Rightarrow>
          if n = 0 then Inr (selection_of [])
          else and_then (list_named_roots list_roots s) (\<lambda>rs.
            let roots = filter (\<lambda>r. prefix pre (fst r)) rs in
            Inr (selection_of (if n < length roots then drop (length roots - n) roots else roots)))
      | UpdatedSince pre min_updated_at_millis \<Rightarrow> and_then (list_roots s) (\<lambda>rs.
          Inr (selection_of (map into_named_root
            (filter (\<lambda>r. case rm_updated_at_millis (snd r) of None \<Rightarrow> False | Some t \<Rightarrow> min_updated_at_millis \<le> t)
              (filter (\<lambda>r. prefix pre (fst r)) rs))))))"

definition publish_named_root_at_millis ::
  "'s root_reader \<Rightarrow> ('s \<Rightarrow> bytes \<Rightarrow> root_manifest \<Rightarrow> error + 's) \<Rightarrow> 's \<Rightarrow> bytes \<Rightarrow> tree \<Rightarrow> u64 \<Rightarrow> error + 's" where
  "publish_named_root_at_millis get_root put_root s name t timestamp_millis =
     and_then (get_root s name) (\<lambda>current.
     let created = (case Option.bind current rm_created_at_millis of None \<Rightarrow> timestamp_millis | Some c \<Rightarrow> c) in
     put_root s name (from_tree_with_timestamps_millis t (Some created) (Some timestamp_millis)))"

definition compare_and_swap_named_root_at_millis ::
  "'s root_reader \<Rightarrow> ('s \<Rightarrow> bytes \<Rightarrow> root_manifest option \<Rightarrow> root_manifest option \<Rightarrow> error + manifest_update \<times> 's) \<Rightarrow>
   's \<Rightarrow> bytes \<Rightarrow> tree option \<Rightarrow> tree option \<Rightarrow> u64 \<Rightarrow> error + named_root_update \<times> 's" where
  "compare_and_swap_named_root_at_millis get_root cas_root s name expected new timestamp_millis =
     and_then (get_root s name) (\<lambda>current.
     let proceed = (\<lambda>expected_manifest.
       let new_manifest = map_option (\<lambda>t.
             let created = (case Option.bind expected_manifest rm_created_at_millis of None \<Rightarrow> timestamp_millis | Some c \<Rightarrow> c) in
             from_tree_with_timestamps_millis t (Some created) (Some timestamp_millis)) new in
       and_then (cas_root s name expected_manifest new_manifest) (\<lambda>(u, s'). Inr (named_root_update_from u, s'))) in
     case (expected, current) of
       (None, None) \<Rightarrow> proceed None
     | (None, Some m) \<Rightarrow> Inr (NamedConflict (Some (into_tree m)), s)
     | (Some t, Some m) \<Rightarrow>
         if into_tree m = t then proceed (Some m) else Inr (NamedConflict (Some (into_tree m)), s)
     | (Some t, None) \<Rightarrow> Inr (NamedConflict None, s))"

section \<open>Pages\<close>

abbreviation page_match :: "bytes \<Rightarrow> bytes option \<Rightarrow> named_root_manifest \<Rightarrow> bool" where
  "page_match pre after r \<equiv> prefix pre (fst r) \<and> (case after of None \<Rightarrow> True | Some a \<Rightarrow> a < fst r)"

text \<open>A client that follows \<open>next_after\<close> until a page has none.\<close>

primrec page_through :: "nat \<Rightarrow> named_root_manifest list \<Rightarrow> bytes \<Rightarrow> bytes option \<Rightarrow> u64 \<Rightarrow> named_root_manifest list option" where
  "page_through 0 roots pre after limit = None"
| "page_through (Suc fuel) roots pre after limit =
     (case list_roots_page (Inr roots) pre after limit of
        Inl e \<Rightarrow> None
      | Inr page \<Rightarrow>
          (case pg_next_after page of
             None \<Rightarrow> Some (pg_roots page)
           | Some a \<Rightarrow> map_option (\<lambda>more_roots. pg_roots page @ more_roots) (page_through fuel roots pre (Some a) limit)))"

lemma list_roots_page_eq:
  assumes "limit \<noteq> 0" "length roots < 2 ^ 64"
  shows "list_roots_page (Inr roots) pre after limit =
    (let found = filter (page_match pre after) roots in
     Inr \<lparr>pg_roots = take (unat limit) found,
          pg_next_after = (if unat limit < length found then Some (fst (found ! (unat limit - 1))) else None)\<rparr>)"
proof -
  let ?found = "filter (page_match pre after) roots" and ?n = "unat limit"
  have pos: "0 < ?n" using assms(1) by (simp add: unat_gt_0)
  have len: "length ?found < 2 ^ 64" using assms(2) length_filter_le [of _ roots] by (rule le_less_trans [rotated])
  have take_eq: "take (unat (saturating_add limit 1)) ?found = take (Suc ?n) ?found"
    using len unat_u64_lt [of limit] by (auto simp: unat_saturating_add min_def)
  show ?thesis
  proof (cases "?n < length ?found")
    case True
    then have "butlast (take (Suc ?n) ?found) = take ?n ?found" by (simp add: butlast_take)
    moreover have "last (take ?n ?found) = ?found ! (?n - 1)"
      using True pos by (subst last_conv_nth) auto
    ultimately show ?thesis using assms(1) True unfolding list_roots_page_def and_then_simps Let_def take_eq by simp
  next
    case False
    then show ?thesis using assms(1) unfolding list_roots_page_def and_then_simps Let_def take_eq by simp
  qed
qed

lemma filter_after_nth:
  assumes "sorted_wrt (<) (map fst roots)" "found = filter (page_match pre after) roots" "i < length found"
  shows "filter (page_match pre (Some (fst (found ! i)))) roots = drop (Suc i) found"
proof -
  have sorted: "sorted_wrt (\<lambda>a b. fst a < fst b) found"
    unfolding assms(2) using assms(1) by (simp add: sorted_wrt_map sorted_wrt_filter)
  have after: "case after of None \<Rightarrow> True | Some a \<Rightarrow> a < fst (found ! i)"
    using nth_mem [OF assms(3)] unfolding assms(2) by simp
  have "filter (page_match pre (Some (fst (found ! i)))) roots = filter (\<lambda>r. fst (found ! i) < fst r) found"
    unfolding assms(2) filter_filter
    by (rule filter_cong [OF refl]) (use after in \<open>unfold assms(2), auto split: option.splits\<close>)
  also have "\<dots> = filter (\<lambda>r. fst (found ! i) < fst r) (take (Suc i) found) @ filter (\<lambda>r. fst (found ! i) < fst r) (drop (Suc i) found)"
    by (simp flip: filter_append)
  also have "filter (\<lambda>r. fst (found ! i) < fst r) (take (Suc i) found) = []"
    using sorted assms(3) by (auto simp: filter_empty_conv in_set_conv_nth sorted_wrt_iff_nth_less less_Suc_eq)
      (metis fst_conv less_asym')
  also have "filter (\<lambda>r. fst (found ! i) < fst r) (drop (Suc i) found) = drop (Suc i) found"
  proof -
    have "fst (found ! i) < fst (drop (Suc i) found ! j)" if "j < length (drop (Suc i) found)" for j
      using sorted that by (simp add: sorted_wrt_iff_nth_less)
    then show ?thesis by (auto simp: filter_id_conv in_set_conv_nth) (metis fst_conv)
  qed
  finally show ?thesis by simp
qed

lemma page_through_complete:
  assumes "sorted_wrt (<) (map fst roots)" "limit \<noteq> 0" "length roots < 2 ^ 64"
  shows "length (filter (page_match pre after) roots) < fuel \<Longrightarrow>
    page_through fuel roots pre after limit = Some (filter (page_match pre after) roots)"
proof (induction fuel arbitrary: after)
  case (Suc fuel)
  let ?found = "filter (page_match pre after) roots"
  have pos: "0 < unat limit" using assms(2) by (simp add: unat_gt_0)
  show ?case
  proof (cases "unat limit < length ?found")
    case True
    let ?a = "fst (?found ! (unat limit - 1))"
    have rest: "filter (page_match pre (Some ?a)) roots = drop (unat limit) ?found"
      using filter_after_nth [OF assms(1) refl, where i = "unat limit - 1"] True pos by (simp del: filter_filter)
    then have "page_through fuel roots pre (Some ?a) limit = Some (drop (unat limit) ?found)"
      using Suc.IH [of "Some ?a"] Suc.prems True pos by (simp del: filter_filter)
    then show ?thesis using True by (simp add: list_roots_page_eq [OF assms(2,3)] Let_def del: filter_filter)
  qed (simp add: list_roots_page_eq [OF assms(2,3)] Let_def)
qed simp

section \<open>What a manifest store promises\<close>

lemma named_root_applied_iff: "named_root_update_from u = NamedApplied \<longleftrightarrow> u = Applied"
  by (cases u) auto

locale manifest_store =
  fixes get_root :: "'s root_reader"
    and put_root :: "'s \<Rightarrow> bytes \<Rightarrow> root_manifest \<Rightarrow> error + 's"
    and cas_root :: "'s \<Rightarrow> bytes \<Rightarrow> root_manifest option \<Rightarrow> root_manifest option \<Rightarrow> error + manifest_update \<times> 's"
    and list_roots :: "'s root_lister"
    and healthy :: "'s \<Rightarrow> bool"
  assumes get_root_healthy: "healthy s \<Longrightarrow> \<exists>m. get_root s name = Inr m"
    and put_root_law: "healthy s \<Longrightarrow> \<exists>s'. put_root s name m = Inr s' \<and> healthy s' \<and>
      (\<forall>n. get_root s' n = (if n = name then Inr (Some m) else get_root s n))"
    and cas_root_applied: "healthy s \<Longrightarrow> get_root s name = Inr expected \<Longrightarrow>
      \<exists>s'. cas_root s name expected new = Inr (Applied, s') \<and> healthy s' \<and>
        (\<forall>n. get_root s' n = (if n = name then Inr new else get_root s n))"
    and cas_root_conflict: "healthy s \<Longrightarrow> get_root s name = Inr current \<Longrightarrow> current \<noteq> expected \<Longrightarrow>
      cas_root s name expected new = Inr (Conflict current, s)"
    and list_roots_law: "healthy s \<Longrightarrow> \<exists>rs. list_roots s = Inr rs \<and> sorted_wrt (<) (map fst rs) \<and>
      (\<forall>n. get_root s n = Inr (map_of rs n))"
begin

lemma publish_law:
  assumes "healthy s"
  shows "\<exists>s'. publish_named_root_at_millis get_root put_root s name t ts = Inr s' \<and> healthy s' \<and>
    load_named_root get_root s' name = Inr (Some t) \<and> (\<forall>n. n \<noteq> name \<longrightarrow> get_root s' n = get_root s n)"
proof -
  obtain m where m: "get_root s name = Inr m" using get_root_healthy [OF assms] by blast
  let ?m = "from_tree_with_timestamps_millis t
    (Some (case Option.bind m rm_created_at_millis of None \<Rightarrow> ts | Some c \<Rightarrow> c)) (Some ts)"
  obtain s' where "put_root s name ?m = Inr s'" "healthy s'"
    "\<forall>n. get_root s' n = (if n = name then Inr (Some ?m) else get_root s n)"
    using put_root_law [OF assms, of name ?m] by blast
  then show ?thesis
    by (simp add: publish_named_root_at_millis_def m load_named_root_def into_tree_def from_tree_with_timestamps_millis_def)
qed

text \<open>
  The manager reads the manifest in one state \<open>s1\<close> and swaps it in a later state \<open>s2\<close>, after
  other writers may have run.
\<close>

lemma cas_applied_law:
  assumes "healthy s2"
    "compare_and_swap_named_root_at_millis (\<lambda>_. get_root s1) cas_root s2 name expected new ts = Inr (NamedApplied, s')"
  shows "load_named_root get_root s2 name = Inr expected \<and> load_named_root get_root s' name = Inr new \<and>
    (\<forall>n. n \<noteq> name \<longrightarrow> get_root s' n = get_root s2 n)"
proof -
  obtain m where m: "get_root s2 name = Inr m" using get_root_healthy [OF assms(1)] by blast
  let ?nm = "\<lambda>e. map_option (\<lambda>t. from_tree_with_timestamps_millis t
    (Some (case Option.bind e rm_created_at_millis of None \<Rightarrow> ts | Some c \<Rightarrow> c)) (Some ts)) new"
  obtain em where em: "map_option into_tree em = expected" and cas: "cas_root s2 name em (?nm em) = Inr (Applied, s')"
  proof -
    obtain cur where cur: "get_root s1 name = Inr cur"
      using assms(2) by (auto simp: compare_and_swap_named_root_at_millis_def and_then_Inr_iff)
    have "map_option into_tree cur = expected \<and> cas_root s2 name cur (?nm cur) = Inr (Applied, s')"
      using assms(2) cur by (cases expected; cases cur)
        (simp_all add: compare_and_swap_named_root_at_millis_def and_then_Inr_iff Let_def named_root_applied_iff
          split: if_splits prod.splits)
    then show thesis using that by blast
  qed
  obtain nm where nm: "nm = ?nm em" "map_option into_tree nm = new"
    by (cases new) (auto simp: into_tree_def from_tree_with_timestamps_millis_def)
  note cas = cas [folded nm(1)]
  have "m = em" using cas_root_conflict [OF assms(1) m, of em nm] cas by fastforce
  with m cas_root_applied [OF assms(1), of name em nm] cas em nm(2) show ?thesis
    by (auto simp: load_named_root_def)
qed

lemma cas_quiet_law:
  assumes "healthy s" "load_named_root get_root s name = Inr current"
  shows "if current = expected
    then \<exists>s'. compare_and_swap_named_root_at_millis get_root cas_root s name expected new ts = Inr (NamedApplied, s')
    else compare_and_swap_named_root_at_millis get_root cas_root s name expected new ts = Inr (NamedConflict current, s)"
proof -
  obtain m where m: "get_root s name = Inr m" "current = map_option into_tree m"
    using assms(2) by (auto simp: load_named_root_def and_then_Inr_iff)
  have "\<exists>s'. cas_root s name m nm = Inr (Applied, s')" for nm
    using cas_root_applied [OF assms(1) m(1)] by blast
  then show ?thesis
    by (cases expected; cases m)
       (auto simp: compare_and_swap_named_root_at_millis_def m Let_def and_then_Inr_iff named_root_applied_iff)
qed

lemma load_named_roots_loop_law:
  assumes "healthy s"
  shows "\<exists>sel. load_named_roots_loop get_root s names seen roots missing = Inr sel \<and>
    set (sel_missing_names sel) = set missing \<union> {n \<in> set names - set seen. get_root s n = Inr None} \<and>
    set (sel_roots sel) = set roots \<union>
      {(n, into_tree m) | n m. n \<in> set names - set seen \<and> get_root s n = Inr (Some m)}"
proof (induction names arbitrary: seen roots missing)
  case (Cons name names)
  obtain m where m: "get_root s name = Inr m" using get_root_healthy [OF assms] by blast
  show ?case
  proof (cases "name \<in> set seen")
    case True
    then show ?thesis using Cons.IH [of seen roots missing] by (auto simp: insert_Diff_if)
  next
    case False
    show ?thesis
    proof (cases m)
      case None
      then show ?thesis using False m Cons.IH [of "name # seen" roots "missing @ [name]"]
        by (simp add: load_named_root_def) (elim exE conjE, rule exI, auto)
    next
      case (Some r)
      then show ?thesis using False m Cons.IH [of "name # seen" "roots @ [(name, into_tree r)]" missing]
        by (simp add: load_named_root_def) (elim exE conjE, rule exI, auto)
    qed
  qed
qed (simp add: exI)

end

end
