(* ===== verification/Stores.thy ===== *)
theory Stores
  imports Errors Manifests
begin

text \<open>
  The storage layer (\<^verbatim>\<open>src/src/prolly/store/mod.rs\<close>, \<^verbatim>\<open>src/src/prolly/store/memory.rs\<close>): the
  deduplicating read plan, the default methods of the \<open>Store\<close> and \<open>AsyncStore\<close> traits as
  functions of the methods they call, the bounded-concurrency point reads as a step
  relation, and the in-memory store with its transactions.  The locks of the in-memory
  store are modelled by whether they are poisoned, the one way its operations fail.
\<close>

section \<open>Definitions\<close>

subsection \<open>The ordered read plan\<close>

record read_plan =
  rp_unique_keys :: "bytes list"
  rp_positions :: "nat list option"

fun plan_loop :: "bytes list \<Rightarrow> (bytes \<times> nat) list \<Rightarrow> bytes list \<Rightarrow> nat list option \<Rightarrow> read_plan" where
  "plan_loop [] unique_indexes unique_keys positions = \<lparr>rp_unique_keys = unique_keys, rp_positions = positions\<rparr>"
| "plan_loop (key # keys) unique_indexes unique_keys positions =
     (case map_of unique_indexes key of
        Some i \<Rightarrow>
          let ps = (case positions of None \<Rightarrow> [0..<length unique_keys] | Some ps \<Rightarrow> ps) in
          plan_loop keys unique_indexes unique_keys (Some (ps @ [i]))
      | None \<Rightarrow>
          let unique_idx = length unique_keys in
          plan_loop keys ((key, unique_idx) # unique_indexes) (unique_keys @ [key])
            (map_option (\<lambda>ps. ps @ [unique_idx]) positions))"

definition plan_new :: "bytes list \<Rightarrow> read_plan" where
  "plan_new keys =
     (if length keys < 2 then \<lparr>rp_unique_keys = keys, rp_positions = None\<rparr>
      else plan_loop keys [] [] None)"

definition expand_owned :: "read_plan \<Rightarrow> 'a option list \<Rightarrow> error + 'a option list" where
  "expand_owned p unique_values =
     (case rp_positions p of
        Some positions \<Rightarrow>
          if \<forall>i \<in> set positions. i < length unique_values then Inr (map (\<lambda>i. unique_values ! i) positions)
          else Inl (Panic ''index out of bounds'')
      | None \<Rightarrow> Inr unique_values)"

subsection \<open>Publications\<close>

datatype batch_op = OpUpsert bytes bytes | OpDelete bytes

datatype publication_origin =
  General | PointUpsert | PointDelete | BatchMutation | TreeBuild | MergeOrigin | RangeDelete | Replication | Maintenance

record publication_hint =
  ph_namespace :: bytes
  ph_key :: bytes
  ph_value :: bytes

record node_publication =
  np_entries :: "entry list"
  np_hint :: "publication_hint option"
  np_origin :: publication_origin

definition publication_new :: "entry list \<Rightarrow> publication_origin \<Rightarrow> node_publication" where
  "publication_new entries origin = \<lparr>np_entries = entries, np_hint = None, np_origin = origin\<rparr>"

definition publication_with_hint :: "entry list \<Rightarrow> publication_hint \<Rightarrow> publication_origin \<Rightarrow> node_publication" where
  "publication_with_hint entries hint origin = \<lparr>np_entries = entries, np_hint = Some hint, np_origin = origin\<rparr>"

subsection \<open>Default methods\<close>

fun get_each :: "(bytes \<Rightarrow> error + 'a option) \<Rightarrow> bytes list \<Rightarrow> error + 'a option list" where
  "get_each get [] = Inr []"
| "get_each get (key # keys) = and_then (get key) (\<lambda>v. and_then (get_each get keys) (\<lambda>vs. Inr (v # vs)))"

fun batch_get_loop :: "(bytes \<Rightarrow> error + bytes option) \<Rightarrow> bytes list \<Rightarrow> (bytes \<rightharpoonup> bytes) \<Rightarrow> error + (bytes \<rightharpoonup> bytes)" where
  "batch_get_loop get [] results = Inr results"
| "batch_get_loop get (key # keys) results =
     and_then (get key) (\<lambda>v.
     batch_get_loop get keys (case v of Some x \<Rightarrow> results(key \<mapsto> x) | None \<Rightarrow> results))"

definition batch_get :: "(bytes \<Rightarrow> error + bytes option) \<Rightarrow> bytes list \<Rightarrow> error + (bytes \<rightharpoonup> bytes)" where
  "batch_get get keys = batch_get_loop get (rp_unique_keys (plan_new keys)) Map.empty"

definition batch_get_ordered :: "(bytes \<Rightarrow> error + bytes option) \<Rightarrow> bytes list \<Rightarrow> error + bytes option list" where
  "batch_get_ordered get keys =
     (if length keys < 2 then get_each get keys
      else let p = plan_new keys in and_then (get_each get (rp_unique_keys p)) (expand_owned p))"

definition batch_get_ordered_unique ::
  "bool \<Rightarrow> (bytes \<Rightarrow> error + bytes option) \<Rightarrow> (bytes list \<Rightarrow> error + bytes option list) \<Rightarrow> bytes list \<Rightarrow> error + bytes option list" where
  "batch_get_ordered_unique prefers_batch_reads get ordered keys =
     (if keys = [] then Inr [] else if \<not> prefers_batch_reads then get_each get keys else ordered keys)"

definition batch_put :: "('s \<Rightarrow> batch_op list \<Rightarrow> error + 's) \<Rightarrow> 's \<Rightarrow> entry list \<Rightarrow> error + 's" where
  "batch_put batch s entries = batch s (map (\<lambda>(k, v). OpUpsert k v) entries)"

definition batch_put_with_hint ::
  "('s \<Rightarrow> entry list \<Rightarrow> error + 's) \<Rightarrow> ('s \<Rightarrow> bytes \<Rightarrow> bytes \<Rightarrow> bytes \<Rightarrow> error + 's) \<Rightarrow>
   's \<Rightarrow> entry list \<Rightarrow> bytes \<Rightarrow> bytes \<Rightarrow> bytes \<Rightarrow> error + 's" where
  "batch_put_with_hint put put_hint s entries namespace key val =
     and_then (put s entries) (\<lambda>s'. put_hint s' namespace key val)"

definition publish_nodes ::
  "('s \<Rightarrow> entry list \<Rightarrow> error + 's) \<Rightarrow> ('s \<Rightarrow> entry list \<Rightarrow> bytes \<Rightarrow> bytes \<Rightarrow> bytes \<Rightarrow> error + 's) \<Rightarrow>
   's \<Rightarrow> node_publication \<Rightarrow> error + 's" where
  "publish_nodes put put_with_hint s p =
     (case np_hint p of
        Some hint \<Rightarrow> put_with_hint s (np_entries p) (ph_namespace hint) (ph_key hint) (ph_value hint)
      | None \<Rightarrow> put s (np_entries p))"

subsection \<open>Point reads in flight\<close>

text \<open>
  The asynchronous default overlaps at most \<open>max_in_flight\<close> point reads and stores each
  answer at its own position, in whatever order the answers arrive.
\<close>

record fetch_state =
  fs_values :: "bytes option list"
  fs_next_idx :: nat
  fs_in_flight :: "nat list"

definition fetch_start :: "nat \<Rightarrow> bytes list \<Rightarrow> fetch_state" where
  "fetch_start max_in_flight keys =
     (let n = min max_in_flight (length keys) in
      \<lparr>fs_values = replicate (length keys) None, fs_next_idx = n, fs_in_flight = [0..<n]\<rparr>)"

inductive fetch_step :: "(bytes \<Rightarrow> error + bytes option) \<Rightarrow> bytes list \<Rightarrow> fetch_state \<Rightarrow> fetch_state \<Rightarrow> bool" for get keys where
  refill: "idx \<in> set (fs_in_flight s) \<Longrightarrow> get (keys ! idx) = Inr v \<Longrightarrow> fs_next_idx s < length keys \<Longrightarrow>
     fetch_step get keys s (s\<lparr>fs_values := (fs_values s)[idx := v], fs_next_idx := Suc (fs_next_idx s),
       fs_in_flight := remove1 idx (fs_in_flight s) @ [fs_next_idx s]\<rparr>)"
| drain: "idx \<in> set (fs_in_flight s) \<Longrightarrow> get (keys ! idx) = Inr v \<Longrightarrow> \<not> fs_next_idx s < length keys \<Longrightarrow>
     fetch_step get keys s (s\<lparr>fs_values := (fs_values s)[idx := v], fs_in_flight := remove1 idx (fs_in_flight s)\<rparr>)"

inductive fetch_run :: "(bytes \<Rightarrow> error + bytes option) \<Rightarrow> bytes list \<Rightarrow> fetch_state \<Rightarrow> error + bytes option list \<Rightarrow> bool" for get keys where
  finished: "fs_in_flight s = [] \<Longrightarrow> fetch_run get keys s (Inr (fs_values s))"
| failed: "idx \<in> set (fs_in_flight s) \<Longrightarrow> get (keys ! idx) = Inl e \<Longrightarrow> fetch_run get keys s (Inl e)"
| continue: "fetch_step get keys s s' \<Longrightarrow> fetch_run get keys s' r \<Longrightarrow> fetch_run get keys s r"

definition async_batch_get_ordered_unique_with_limit ::
  "(bytes \<Rightarrow> error + bytes option) \<Rightarrow> bytes list \<Rightarrow> nat \<Rightarrow> error + bytes option list \<Rightarrow> bool" where
  "async_batch_get_ordered_unique_with_limit get keys max_in_flight r \<longleftrightarrow>
     (if keys = [] then r = Inr []
      else let max_in_flight = max max_in_flight 1 in
        if length keys < 2 \<or> max_in_flight = 1 then r = get_each get keys
        else fetch_run get keys (fetch_start max_in_flight keys) r)"

subsection \<open>The in-memory store\<close>

record mem_store =
  ms_data :: "(bytes, bytes) btree"
  ms_roots :: "(bytes, root_manifest) btree"
  ms_data_poisoned :: bool
  ms_roots_poisoned :: bool

definition mem_new :: mem_store where
  "mem_new = \<lparr>ms_data = [], ms_roots = [], ms_data_poisoned = False, ms_roots_poisoned = False\<rparr>"

definition lock_data :: "mem_store \<Rightarrow> error + (bytes, bytes) btree" where
  "lock_data s = (if ms_data_poisoned s then Inl (StoreError ''lock poisoned'') else Inr (ms_data s))"

definition lock_roots :: "mem_store \<Rightarrow> error + (bytes, root_manifest) btree" where
  "lock_roots s = (if ms_roots_poisoned s then Inl (StoreError ''lock poisoned'') else Inr (ms_roots s))"

definition mem_get :: "mem_store \<Rightarrow> bytes \<Rightarrow> error + bytes option" where
  "mem_get s key = and_then (lock_data s) (\<lambda>data. Inr (bt_get key data))"

definition mem_put :: "mem_store \<Rightarrow> bytes \<Rightarrow> bytes \<Rightarrow> error + mem_store" where
  "mem_put s key val = and_then (lock_data s) (\<lambda>data. Inr (s\<lparr>ms_data := bt_insert key val data\<rparr>))"

definition mem_delete :: "mem_store \<Rightarrow> bytes \<Rightarrow> error + mem_store" where
  "mem_delete s key = and_then (lock_data s) (\<lambda>data. Inr (s\<lparr>ms_data := bt_remove key data\<rparr>))"

fun apply_op :: "batch_op \<Rightarrow> (bytes, bytes) btree \<Rightarrow> (bytes, bytes) btree" where
  "apply_op (OpUpsert key val) data = bt_insert key val data"
| "apply_op (OpDelete key) data = bt_remove key data"

definition mem_batch :: "mem_store \<Rightarrow> batch_op list \<Rightarrow> error + mem_store" where
  "mem_batch s ops = and_then (lock_data s) (\<lambda>data. Inr (s\<lparr>ms_data := fold apply_op ops data\<rparr>))"

definition mem_batch_get :: "mem_store \<Rightarrow> bytes list \<Rightarrow> error + (bytes \<rightharpoonup> bytes)" where
  "mem_batch_get s keys = and_then (lock_data s) (\<lambda>data.
     Inr (fold (\<lambda>key results. case bt_get key data of Some v \<Rightarrow> results(key \<mapsto> v) | None \<Rightarrow> results)
       (rp_unique_keys (plan_new keys)) Map.empty))"

definition mem_batch_get_ordered :: "mem_store \<Rightarrow> bytes list \<Rightarrow> error + bytes option list" where
  "mem_batch_get_ordered s keys = and_then (lock_data s) (\<lambda>data.
     let p = plan_new keys in expand_owned p (map (\<lambda>key. bt_get key data) (rp_unique_keys p)))"

definition mem_batch_get_ordered_unique :: "mem_store \<Rightarrow> bytes list \<Rightarrow> error + bytes option list" where
  "mem_batch_get_ordered_unique s keys = and_then (lock_data s) (\<lambda>data. Inr (map (\<lambda>key. bt_get key data) keys))"

definition mem_batch_put :: "mem_store \<Rightarrow> entry list \<Rightarrow> error + mem_store" where
  "mem_batch_put s entries = and_then (lock_data s) (\<lambda>data.
     Inr (s\<lparr>ms_data := fold (\<lambda>(key, val). bt_insert key val) entries data\<rparr>))"

definition mem_put_hint :: "mem_store \<Rightarrow> bytes \<Rightarrow> bytes \<Rightarrow> bytes \<Rightarrow> error + mem_store" where
  "mem_put_hint s namespace key val = Inr s"

definition mem_publish_nodes :: "mem_store \<Rightarrow> node_publication \<Rightarrow> error + mem_store" where
  "mem_publish_nodes = publish_nodes mem_batch_put (batch_put_with_hint mem_batch_put mem_put_hint)"

definition cid_from_store_key :: "bytes \<Rightarrow> error + cid" where
  "cid_from_store_key key =
     (if length key \<noteq> 32 then Inl (StoreError ''key has invalid CID length, expected 32'') else Inr key)"

fun collect_results :: "(error + 'a) list \<Rightarrow> error + 'a list" where
  "collect_results [] = Inr []"
| "collect_results (r # rs) = and_then r (\<lambda>x. and_then (collect_results rs) (\<lambda>xs. Inr (x # xs)))"

definition mem_list_node_cids :: "mem_store \<Rightarrow> error + cid list" where
  "mem_list_node_cids s = and_then (lock_data s) (\<lambda>data.
     and_then (collect_results (map cid_from_store_key (bt_keys data))) (\<lambda>cids. Inr (sort cids)))"

definition mem_get_root :: "mem_store \<Rightarrow> bytes \<Rightarrow> error + root_manifest option" where
  "mem_get_root s name = and_then (lock_roots s) (\<lambda>roots. Inr (bt_get name roots))"

definition mem_put_root :: "mem_store \<Rightarrow> bytes \<Rightarrow> root_manifest \<Rightarrow> error + mem_store" where
  "mem_put_root s name manifest = and_then (lock_roots s) (\<lambda>roots. Inr (s\<lparr>ms_roots := bt_insert name manifest roots\<rparr>))"

definition mem_delete_root :: "mem_store \<Rightarrow> bytes \<Rightarrow> error + mem_store" where
  "mem_delete_root s name = and_then (lock_roots s) (\<lambda>roots. Inr (s\<lparr>ms_roots := bt_remove name roots\<rparr>))"

definition mem_compare_and_swap_root ::
  "mem_store \<Rightarrow> bytes \<Rightarrow> root_manifest option \<Rightarrow> root_manifest option \<Rightarrow> error + manifest_update \<times> mem_store" where
  "mem_compare_and_swap_root s name expected new = and_then (lock_roots s) (\<lambda>roots.
     let current = bt_get name roots in
     if current \<noteq> expected then Inr (Conflict current, s)
     else Inr (Applied, s\<lparr>ms_roots :=
       (case new of Some manifest \<Rightarrow> bt_insert name manifest roots | None \<Rightarrow> bt_remove name roots)\<rparr>))"

definition mem_list_roots :: "mem_store \<Rightarrow> error + named_root_manifest list" where
  "mem_list_roots s = and_then (lock_roots s) (\<lambda>roots. Inr (sort_named_root_manifests roots))"

subsection \<open>Transaction commits\<close>

record root_condition =
  rc_name :: bytes
  rc_expected :: "root_manifest option"

datatype root_write = PutRoot bytes root_manifest | DeleteRoot bytes

primrec root_write_name :: "root_write \<Rightarrow> bytes" where
  "root_write_name (PutRoot name manifest) = name"
| "root_write_name (DeleteRoot name) = name"

primrec replacement :: "root_write \<Rightarrow> root_manifest option" where
  "replacement (PutRoot name manifest) = Some manifest"
| "replacement (DeleteRoot name) = None"

datatype node_write = NodeUpsert bytes bytes | NodeDelete bytes

record transaction_conflict =
  tc_name :: bytes
  tc_expected :: "root_manifest option"
  tc_current :: "root_manifest option"

datatype transaction_update =
  TxApplied nat nat
| TxConflict transaction_conflict

fun check_conditions :: "(bytes, root_manifest) btree \<Rightarrow> root_condition list \<Rightarrow> transaction_conflict option" where
  "check_conditions roots [] = None"
| "check_conditions roots (c # cs) =
     (let current = bt_get (rc_name c) roots in
      if current \<noteq> rc_expected c
      then Some \<lparr>tc_name = rc_name c, tc_expected = rc_expected c, tc_current = current\<rparr>
      else check_conditions roots cs)"

fun apply_node_write :: "node_write \<Rightarrow> (bytes, bytes) btree \<Rightarrow> (bytes, bytes) btree" where
  "apply_node_write (NodeUpsert key val) data = bt_insert key val data"
| "apply_node_write (NodeDelete key) data = bt_remove key data"

fun apply_root_write :: "root_write \<Rightarrow> (bytes, root_manifest) btree \<Rightarrow> (bytes, root_manifest) btree" where
  "apply_root_write (PutRoot name manifest) roots = bt_insert name manifest roots"
| "apply_root_write (DeleteRoot name) roots = bt_remove name roots"

definition mem_commit_transaction ::
  "mem_store \<Rightarrow> node_write list \<Rightarrow> root_condition list \<Rightarrow> root_write list \<Rightarrow> error + transaction_update \<times> mem_store" where
  "mem_commit_transaction s node_writes root_conditions root_writes =
     and_then (lock_data s) (\<lambda>data.
     and_then (lock_roots s) (\<lambda>roots.
     case check_conditions roots root_conditions of
       Some conflict \<Rightarrow> Inr (TxConflict conflict, s)
     | None \<Rightarrow> Inr (TxApplied (length node_writes) (length root_writes),
         s\<lparr>ms_data := fold apply_node_write node_writes data, ms_roots := fold apply_root_write root_writes roots\<rparr>)))"

section \<open>The read plan\<close>

definition plan_ok :: "bytes list \<Rightarrow> bytes list \<Rightarrow> nat list option \<Rightarrow> bool" where
  "plan_ok keys unique positions \<longleftrightarrow>
     distinct unique \<and> set unique = set keys \<and> (\<forall>P. find P unique = find P keys) \<and>
     (case positions of
        None \<Rightarrow> unique = keys
      | Some ps \<Rightarrow> (\<forall>i \<in> set ps. i < length unique) \<and> map (\<lambda>i. unique ! i) ps = keys)"

definition index_ok :: "(bytes \<times> nat) list \<Rightarrow> bytes list \<Rightarrow> bool" where
  "index_ok idx unique \<longleftrightarrow>
     (\<forall>k i. map_of idx k = Some i \<longrightarrow> i < length unique \<and> unique ! i = k) \<and>
     (\<forall>k. map_of idx k = None \<longrightarrow> k \<notin> set unique)"

lemma find_append: "find P (xs @ ys) = (case find P xs of None \<Rightarrow> find P ys | Some x \<Rightarrow> Some x)"
  by (induction xs) auto

lemma find_append_mem: "k \<in> set xs \<Longrightarrow> find P (xs @ [k]) = find P xs"
  by (cases "find P xs") (use find_None_iff [of P xs] in \<open>auto simp: find_append\<close>)

lemma find_append_eq: "(\<forall>P. find P xs = find P ys) \<Longrightarrow> find P (xs @ [k]) = find P (ys @ [k])"
  by (simp add: find_append)

lemma plan_ok_duplicate:
  assumes "plan_ok keys unique positions" "i < length unique" "unique ! i = k"
  shows "plan_ok (keys @ [k]) unique (Some ((case positions of None \<Rightarrow> [0..<length unique] | Some ps \<Rightarrow> ps) @ [i]))"
proof -
  have "k \<in> set keys" using assms by (auto simp: plan_ok_def)
  with assms show ?thesis
    by (cases positions) (auto simp: plan_ok_def find_append_mem map_nth insert_absorb)
qed

lemma plan_ok_fresh:
  assumes "plan_ok keys unique positions" "k \<notin> set unique"
  shows "plan_ok (keys @ [k]) (unique @ [k]) (map_option (\<lambda>ps. ps @ [length unique]) positions)"
  using assms by (cases positions) (auto simp: plan_ok_def find_append_eq nth_append intro!: map_cong)

lemma plan_loop_ok:
  assumes "plan_ok seen unique positions" "index_ok idx unique"
  shows "plan_ok (seen @ keys) (rp_unique_keys (plan_loop keys idx unique positions))
    (rp_positions (plan_loop keys idx unique positions))"
  using assms
proof (induction keys arbitrary: seen idx unique positions)
  case (Cons k keys)
  have k: "case map_of idx k of Some i \<Rightarrow> i < length unique \<and> unique ! i = k | None \<Rightarrow> k \<notin> set unique"
    using Cons.prems(2) by (auto simp: index_ok_def split: option.split)
  show ?case
  proof (cases "map_of idx k")
    case None
    then have new: "k \<notin> set unique" using k by simp
    have "index_ok ((k, length unique) # idx) (unique @ [k])"
      using Cons.prems(2) by (auto simp: index_ok_def nth_append intro: less_SucI)
    then show ?thesis
      using Cons.IH [OF plan_ok_fresh [OF Cons.prems(1) new]] None by (simp add: Let_def)
  next
    case (Some i)
    then show ?thesis
      using Cons.IH [OF plan_ok_duplicate [OF Cons.prems(1)] Cons.prems(2)] k by (simp add: Let_def)
  qed
qed simp

lemma plan_new_ok: "plan_ok keys (rp_unique_keys (plan_new keys)) (rp_positions (plan_new keys))"
proof (cases "length keys < 2")
  case True
  then show ?thesis by (cases keys) (auto simp: plan_new_def plan_ok_def)
next
  case False
  have "plan_ok [] [] None" "index_ok [] []" by (auto simp: plan_ok_def index_ok_def)
  from plan_loop_ok [OF this, of keys] show ?thesis using False by (simp add: plan_new_def)
qed

lemma expand_owned_map:
  "expand_owned (plan_new keys) (map f (rp_unique_keys (plan_new keys))) = Inr (map f keys)"
proof (cases "rp_positions (plan_new keys)")
  case None
  then show ?thesis using plan_new_ok [of keys] by (simp add: expand_owned_def plan_ok_def)
next
  case (Some ps)
  let ?u = "rp_unique_keys (plan_new keys)"
  have ps: "\<forall>i \<in> set ps. i < length ?u" "map (\<lambda>i. ?u ! i) ps = keys"
    using plan_new_ok [of keys] Some by (auto simp: plan_ok_def)
  have "map (\<lambda>i. map f ?u ! i) ps = map f (map (\<lambda>i. ?u ! i) ps)" using ps(1) by (induction ps) simp_all
  then show ?thesis using Some ps by (simp add: expand_owned_def)
qed

lemma get_each_find:
  "get_each get keys =
   (case find (\<lambda>k. isl (get k)) keys of Some k \<Rightarrow> Inl (projl (get k)) | None \<Rightarrow> Inr (map (\<lambda>k. projr (get k)) keys))"
proof (induction keys)
  case (Cons k keys)
  then show ?case by (cases "get k") (auto split: option.splits)
qed simp

lemma get_each_plan:
  "and_then (get_each get (rp_unique_keys (plan_new keys))) (expand_owned (plan_new keys)) = get_each get keys"
proof -
  have "find P (rp_unique_keys (plan_new keys)) = find P keys" for P
    using plan_new_ok [of keys] by (simp add: plan_ok_def)
  then show ?thesis
    by (simp add: get_each_find expand_owned_map split: option.split)
qed

lemma get_each_Inr: "get_each get keys = Inr vs \<longleftrightarrow> length vs = length keys \<and> (\<forall>i < length keys. get (keys ! i) = Inr (vs ! i))"
proof (induction keys arbitrary: vs)
  case (Cons k keys)
  show ?case
    by (cases vs) (auto simp: Cons and_then_Inr_iff less_Suc_eq_0_disj all_conj_distrib)
qed auto

section \<open>Point reads in flight\<close>

definition fetch_ok :: "(bytes \<Rightarrow> error + bytes option) \<Rightarrow> bytes list \<Rightarrow> nat \<Rightarrow> fetch_state \<Rightarrow> bool" where
  "fetch_ok get keys bound s \<longleftrightarrow>
     distinct (fs_in_flight s) \<and> (\<forall>i \<in> set (fs_in_flight s). i < fs_next_idx s) \<and>
     fs_next_idx s \<le> length keys \<and> length (fs_values s) = length keys \<and> length (fs_in_flight s) \<le> bound \<and>
     (fs_next_idx s < length keys \<longrightarrow> fs_in_flight s \<noteq> []) \<and>
     (\<forall>i < fs_next_idx s. i \<notin> set (fs_in_flight s) \<longrightarrow> get (keys ! i) = Inr (fs_values s ! i))"

definition fetch_measure :: "bytes list \<Rightarrow> fetch_state \<Rightarrow> nat" where
  "fetch_measure keys s = (length keys - fs_next_idx s) + length (fs_in_flight s)"

inductive_cases fetch_stepE: "fetch_step get keys s s'"

lemma fetch_start_ok: "0 < m \<Longrightarrow> fetch_ok get keys m (fetch_start m keys)"
  by (auto simp: fetch_ok_def fetch_start_def Let_def)

lemma fetch_start_measure: "fetch_measure keys (fetch_start m keys) = length keys"
  by (simp add: fetch_measure_def fetch_start_def Let_def)

lemma fetch_step_ok:
  assumes "fetch_step get keys s s'" "fetch_ok get keys bound s"
  shows "fetch_ok get keys bound s' \<and> fetch_measure keys s' < fetch_measure keys s"
  using assms(1)
proof cases
  case (refill idx v)
  have "i < fs_next_idx s" if "i \<in> set (fs_in_flight s)" for i
    using assms(2) that by (simp add: fetch_ok_def)
  moreover have "length (remove1 idx (fs_in_flight s)) + 1 = length (fs_in_flight s)"
    using refill(2) length_pos_if_in_set [OF refill(2)] by (simp add: length_remove1)
  moreover have "idx < length (fs_values s)" using assms(2) refill(2) by (auto simp: fetch_ok_def)
  ultimately show ?thesis using assms(2) refill
    by (auto simp: fetch_ok_def fetch_measure_def nth_list_update less_Suc_eq)
next
  case (drain idx v)
  have "length (remove1 idx (fs_in_flight s)) + 1 = length (fs_in_flight s)"
    using drain(2) length_pos_if_in_set [OF drain(2)] by (simp add: length_remove1)
  moreover have "idx < length (fs_values s)" using assms(2) drain(2) by (auto simp: fetch_ok_def)
  ultimately show ?thesis using assms(2) drain
    by (auto simp: fetch_ok_def fetch_measure_def nth_list_update)
qed

lemma fetch_steps_ok:
  "(fetch_step get keys ^^ n) s s' \<Longrightarrow> fetch_ok get keys bound s \<Longrightarrow>
    fetch_ok get keys bound s' \<and> n + fetch_measure keys s' \<le> fetch_measure keys s"
proof (induction n arbitrary: s')
  case (Suc n)
  from Suc.prems(1) obtain t where t: "(fetch_step get keys ^^ n) s t" "fetch_step get keys t s'" by auto
  from Suc.IH [OF t(1) Suc.prems(2)] fetch_step_ok [OF t(2), of bound] show ?case by auto
qed simp

lemma fetch_answer:
  assumes "fetch_ok get keys bound s" "idx \<in> set (fs_in_flight s)" "get (keys ! idx) = Inr v"
  shows "\<exists>s'. fetch_step get keys s s' \<and> fs_values s' ! idx = v \<and> idx \<notin> set (fs_in_flight s')"
proof -
  have idx: "idx < fs_next_idx s" "idx < length (fs_values s)" "distinct (fs_in_flight s)" using assms(1,2) by (auto simp: fetch_ok_def)
  show ?thesis
  proof (cases "fs_next_idx s < length keys")
    case True
    then show ?thesis
      using fetch_step.refill [where get = get and keys = keys, OF assms(2,3) True] idx by (intro exI conjI) auto
  next
    case False
    then show ?thesis
      using fetch_step.drain [where get = get and keys = keys, OF assms(2,3) False] idx by (intro exI conjI) auto
  qed
qed

lemma get_each_error: "get_each get keys = Inl e \<Longrightarrow> \<exists>k \<in> set keys. get k = Inl e"
  by (induction keys) (auto simp: and_then_def split: sum.splits)

lemma fetch_run_result:
  assumes "fetch_run get keys s r" "fetch_ok get keys bound s"
  shows "case r of Inr vs \<Rightarrow> get_each get keys = Inr vs | Inl e \<Rightarrow> \<exists>k \<in> set keys. get k = Inl e"
  using assms
proof (induction rule: fetch_run.induct)
  case (finished s)
  then show ?case by (simp add: get_each_Inr fetch_ok_def)
next
  case (failed idx s e)
  then have "idx < length keys" by (auto simp: fetch_ok_def)
  then show ?case using failed(2) by auto
next
  case (continue s s' r)
  then show ?case using fetch_step_ok by blast
qed

lemma fetch_run_exists: "fetch_ok get keys bound s \<Longrightarrow> \<exists>r. fetch_run get keys s r"
proof (induction "fetch_measure keys s" arbitrary: s rule: less_induct)
  case less
  show ?case
  proof (cases "fs_in_flight s")
    case Nil
    then show ?thesis using fetch_run.finished by blast
  next
    case (Cons idx rest)
    then have idx: "idx \<in> set (fs_in_flight s)" by simp
    show ?thesis
    proof (cases "get (keys ! idx)")
      case (Inl e)
      then show ?thesis using fetch_run.failed [OF idx] by blast
    next
      case (Inr v)
      obtain s' where "fetch_step get keys s s'"
        using fetch_step.intros [where get = get and keys = keys, OF idx Inr] by blast
      then show ?thesis using less fetch_step_ok fetch_run.continue by meson
    qed
  qed
qed

section \<open>The in-memory store\<close>

definition mem_ok :: "mem_store \<Rightarrow> bool" where
  "mem_ok s \<longleftrightarrow> bt_ok (ms_data s) \<and> bt_ok (ms_roots s) \<and> \<not> ms_data_poisoned s \<and> \<not> ms_roots_poisoned s"

lemmas mem_defs = mem_get_def mem_put_def mem_delete_def mem_batch_def mem_batch_put_def mem_get_root_def
  mem_put_root_def mem_delete_root_def mem_compare_and_swap_root_def mem_list_roots_def lock_data_def lock_roots_def

lemma mem_new_ok: "mem_ok mem_new"
  by (simp add: mem_ok_def mem_new_def)

lemma bt_ok_fold: "bt_ok m \<Longrightarrow> (\<And>x m. bt_ok m \<Longrightarrow> bt_ok (f x m)) \<Longrightarrow> bt_ok (fold f xs m)"
  by (induction xs arbitrary: m) auto

lemma bt_get_fold_insert:
  "bt_ok m \<Longrightarrow> bt_get k (fold (\<lambda>(k, v). bt_insert k v) es m) =
     (case map_of (rev es) k of Some v \<Rightarrow> Some v | None \<Rightarrow> bt_get k m)"
proof (induction es arbitrary: m)
  case (Cons e es)
  then show ?case by (cases e) (auto simp: bt_get_insert map_add_def split: option.splits)
qed simp

lemma mem_batch_put_eq: "batch_put mem_batch s es = mem_batch_put s es"
proof -
  have "apply_op \<circ> (\<lambda>(k, v). OpUpsert k v) = (\<lambda>(k, v). bt_insert k v)" by (auto simp: fun_eq_iff)
  then show ?thesis by (simp add: batch_put_def mem_batch_def mem_batch_put_def fold_map)
qed

subsection \<open>What a node store promises\<close>

locale node_store =
  fixes get :: "'s \<Rightarrow> bytes \<Rightarrow> error + bytes option"
    and put_all :: "'s \<Rightarrow> entry list \<Rightarrow> error + 's"
    and healthy :: "'s \<Rightarrow> bool"
  assumes get_healthy: "healthy s \<Longrightarrow> \<exists>v. get s k = Inr v"
    and put_all_healthy: "healthy s \<Longrightarrow> \<exists>s'. put_all s es = Inr s' \<and> healthy s'"
    and get_put_all: "healthy s \<Longrightarrow> put_all s es = Inr s' \<Longrightarrow>
      get s' k = (case map_of (rev es) k of Some v \<Rightarrow> Inr (Some v) | None \<Rightarrow> get s k)"
begin

definition addressed :: "hash256 \<Rightarrow> 's \<Rightarrow> bool" where
  "addressed sha256 s \<longleftrightarrow> (\<forall>k v. get s k = Inr (Some v) \<longrightarrow> sha256 v = k)"

lemma addressed_put_all:
  assumes "healthy s" "put_all s es = Inr s'" "addressed sha256 s" "\<forall>(k, v) \<in> set es. sha256 v = k"
  shows "addressed sha256 s'"
proof -
  have "sha256 v = k" if "map_of (rev es) k = Some v" for k v
    using assms(4) map_of_SomeD [OF that] by auto
  then show ?thesis
    using assms(3) by (auto simp: addressed_def get_put_all [OF assms(1,2)] split: option.splits)
qed

lemma put_all_readable:
  assumes "healthy s" "put_all s es = Inr s'" "\<forall>(k, v) \<in> set es. sha256 v = k" "inj_on sha256 (snd ` set es)"
    "(k, v) \<in> set es"
  shows "get s' k = Inr (Some v)"
proof -
  have "k \<in> fst ` set (rev es)" using assms(5) by force
  then obtain v' where v': "map_of (rev es) k = Some v'"
    by (metis map_of_eq_None_iff option.exhaust)
  then have mem: "(k, v') \<in> set es" using map_of_SomeD [OF v'] by simp
  have "sha256 v' = sha256 v" using bspec [OF assms(3) mem] bspec [OF assms(3,5)] by simp
  moreover have "v' \<in> snd ` set es" "v \<in> snd ` set es" using mem assms(5) by force+
  ultimately have "v' = v" using assms(4) by (auto dest: inj_onD)
  then show ?thesis using get_put_all [OF assms(1,2)] v' by simp
qed

lemma put_all_keeps:
  assumes "healthy s" "put_all s es = Inr s'" "\<forall>(k, v) \<in> set es. sha256 v = k" "addressed sha256 s"
    "get s k = Inr (Some v)" "inj_on sha256 (insert v (snd ` set es))"
  shows "get s' k = Inr (Some v)"
proof (cases "map_of (rev es) k")
  case None
  then show ?thesis using get_put_all [OF assms(1,2)] assms(5) by simp
next
  case (Some v')
  then have mem: "(k, v') \<in> set es" using map_of_SomeD [OF Some] by simp
  have "sha256 v' = k" "sha256 v = k" using bspec [OF assms(3) mem] assms(4,5) by (auto simp: addressed_def)
  moreover have "v' \<in> insert v (snd ` set es)" using mem by force
  ultimately have "v' = v" using assms(6) by (auto dest: inj_onD)
  then show ?thesis using get_put_all [OF assms(1,2)] Some by simp
qed

end

interpretation mem: node_store mem_get mem_batch_put mem_ok
proof
  fix s k assume "mem_ok s"
  then show "\<exists>v. mem_get s k = Inr v" by (simp add: mem_ok_def mem_defs)
next
  fix s es assume "mem_ok s"
  then show "\<exists>s'. mem_batch_put s es = Inr s' \<and> mem_ok s'"
    by (auto simp: mem_ok_def mem_defs intro!: bt_ok_fold)
next
  fix s es s' k assume "mem_ok s" "mem_batch_put s es = Inr s'"
  then show "mem_get s' k = (case map_of (rev es) k of Some v \<Rightarrow> Inr (Some v) | None \<Rightarrow> mem_get s k)"
    by (auto simp: mem_ok_def mem_defs bt_get_fold_insert split: option.split)
qed

lemma sort_key_sorted_id: "sorted_wrt (<) (map fst rs) \<Longrightarrow> sort_named_root_manifests rs = rs"
  unfolding sort_named_root_manifests_def
  by (rule sort_key_id_if_sorted) (use strict_sorted_imp_sorted in blast)

interpretation mem_roots: manifest_store mem_get_root mem_put_root mem_compare_and_swap_root mem_list_roots mem_ok
proof
  fix s name assume "mem_ok s"
  then show "\<exists>m. mem_get_root s name = Inr m" by (simp add: mem_ok_def mem_defs)
next
  fix s name m assume "mem_ok s"
  then show "\<exists>s'. mem_put_root s name m = Inr s' \<and> mem_ok s' \<and>
      (\<forall>n. mem_get_root s' n = (if n = name then Inr (Some m) else mem_get_root s n))"
    by (auto simp: mem_ok_def mem_defs bt_get_insert)
next
  fix s name expected new assume "mem_ok s" "mem_get_root s name = Inr expected"
  then show "\<exists>s'. mem_compare_and_swap_root s name expected new = Inr (Applied, s') \<and> mem_ok s' \<and>
      (\<forall>n. mem_get_root s' n = (if n = name then Inr new else mem_get_root s n))"
    by (cases new) (auto simp: mem_ok_def mem_defs bt_get_insert bt_get_remove)
next
  fix s name current expected new assume "mem_ok s" "mem_get_root s name = Inr current" "current \<noteq> expected"
  then show "mem_compare_and_swap_root s name expected new = Inr (Conflict current, s)"
    by (simp add: mem_ok_def mem_defs)
next
  fix s assume ok: "mem_ok s"
  then have "sorted_wrt (<) (map fst (ms_roots s))" by (simp add: mem_ok_def bt_ok_def)
  with ok show "\<exists>rs. mem_list_roots s = Inr rs \<and> sorted_wrt (<) (map fst rs) \<and> (\<forall>n. mem_get_root s n = Inr (map_of rs n))"
    by (simp add: mem_defs mem_ok_def sort_key_sorted_id bt_get_def)
qed

lemma check_conditions_None:
  "check_conditions roots cs = None \<longleftrightarrow> (\<forall>c \<in> set cs. bt_get (rc_name c) roots = rc_expected c)"
  by (induction cs) (auto simp: Let_def)

lemma check_conditions_Some:
  "check_conditions roots cs = Some conflict \<Longrightarrow>
   \<exists>c \<in> set cs. conflict = \<lparr>tc_name = rc_name c, tc_expected = rc_expected c, tc_current = bt_get (rc_name c) roots\<rparr> \<and>
     bt_get (rc_name c) roots \<noteq> rc_expected c"
  by (induction cs) (auto simp: Let_def split: if_splits)

definition node_write_pair :: "node_write \<Rightarrow> bytes \<times> bytes option" where
  "node_write_pair w = (case w of NodeUpsert key val \<Rightarrow> (key, Some val) | NodeDelete key \<Rightarrow> (key, None))"

definition root_write_pair :: "root_write \<Rightarrow> bytes \<times> root_manifest option" where
  "root_write_pair w = (root_write_name w, replacement w)"

lemma bt_get_fold_writes:
  assumes "bt_ok m" "\<And>w m. bt_ok m \<Longrightarrow> bt_ok (f w m)"
    "\<And>w m k. bt_ok m \<Longrightarrow> bt_get k (f w m) = (if k = fst (pair w) then snd (pair w) else bt_get k m)"
  shows "bt_get k (fold f ws m) = (case map_of (rev (map pair ws)) k of Some v \<Rightarrow> v | None \<Rightarrow> bt_get k m)"
  using assms(1)
proof (induction ws arbitrary: m)
  case (Cons w ws)
  then show ?case using assms(2) [of m w] assms(3) [of m _ w] by (cases "pair w") (auto simp: map_add_def split: option.splits)
qed simp

lemma bt_ok_apply_writes:
  "bt_ok data \<Longrightarrow> bt_ok (apply_node_write w data)" "bt_ok roots \<Longrightarrow> bt_ok (apply_root_write rw roots)"
  by (cases w; simp) (cases rw; simp)

lemma bt_get_apply_writes:
  "bt_ok data \<Longrightarrow> bt_get k (apply_node_write w data) =
     (if k = fst (node_write_pair w) then snd (node_write_pair w) else bt_get k data)"
  "bt_ok roots \<Longrightarrow> bt_get n (apply_root_write rw roots) =
     (if n = fst (root_write_pair rw) then snd (root_write_pair rw) else bt_get n roots)"
  by (cases w; simp add: node_write_pair_def bt_get_insert bt_get_remove)
     (cases rw; simp add: root_write_pair_def bt_get_insert bt_get_remove)

lemmas bt_get_commit =
  bt_get_fold_writes [where f = apply_node_write and pair = node_write_pair, OF _ bt_ok_apply_writes(1) bt_get_apply_writes(1)]
  bt_get_fold_writes [where f = apply_root_write and pair = root_write_pair, OF _ bt_ok_apply_writes(2) bt_get_apply_writes(2)]

section \<open>Properties\<close>

text \<open>
  C23 (\<open>OrderedBatchReadPlan\<close>, \<open>batch_get_ordered\<close>).  A batched read that fetches every
  distinct key once returns exactly what one read per requested key returns, in request
  order and with repeated keys answered at every position; it also fails with the same
  error.
\<close>

theorem batch_reads_in_order:
  "distinct (rp_unique_keys (plan_new keys)) \<and>
   batch_get_ordered get keys = get_each get keys \<and>
   batch_get_ordered_unique prefers get (batch_get_ordered get) keys = get_each get keys"
proof -
  have "batch_get_ordered get keys = get_each get keys"
    by (simp add: batch_get_ordered_def Let_def get_each_plan)
  then show ?thesis
    using plan_new_ok [of keys] by (auto simp: plan_ok_def batch_get_ordered_unique_def)
qed

text \<open>
  C24 (\<open>async_batch_get_ordered_unique_with_limit\<close>).  Overlapped point reads finish in every
  interleaving.  Whatever order the answers arrive in, at most one step per key is taken and no more
  reads are in flight than allowed; any answer in flight can be taken next, and ends the read when
  it is an error and is stored at its own position when it is not; and every state reached leads to a result.  A result
  that is a success has the answers in request order, and one that is a failure is the error of a
  requested key.
\<close>

theorem overlapped_reads_correct:
  "(\<exists>r. async_batch_get_ordered_unique_with_limit get keys max_in_flight r) \<and>
   (\<forall>r. async_batch_get_ordered_unique_with_limit get keys max_in_flight r \<longrightarrow>
     (case r of Inr vs \<Rightarrow> get_each get keys = Inr vs | Inl e \<Rightarrow> \<exists>k \<in> set keys. get k = Inl e)) \<and>
   (\<forall>n s. (fetch_step get keys ^^ n) (fetch_start (max max_in_flight 1) keys) s \<longrightarrow>
     n \<le> length keys \<and> length (fs_in_flight s) \<le> max max_in_flight 1 \<and>
     (\<forall>idx \<in> set (fs_in_flight s). case get (keys ! idx) of
        Inl e \<Rightarrow> fetch_run get keys s (Inl e)
      | Inr v \<Rightarrow> \<exists>s'. fetch_step get keys s s' \<and> fs_values s' ! idx = v \<and> idx \<notin> set (fs_in_flight s')) \<and>
     (\<exists>r. fetch_run get keys s r))"
proof (intro conjI allI impI)
  let ?m = "max max_in_flight 1"
  have start: "fetch_ok get keys ?m (fetch_start ?m keys)" by (rule fetch_start_ok) simp
  show "\<exists>r. async_batch_get_ordered_unique_with_limit get keys max_in_flight r"
    using fetch_run_exists [OF start] by (cases "keys = []"; cases "length keys < 2 \<or> ?m = 1") (auto simp: async_batch_get_ordered_unique_with_limit_def Let_def)
  show "case r of Inr vs \<Rightarrow> get_each get keys = Inr vs | Inl e \<Rightarrow> \<exists>k \<in> set keys. get k = Inl e"
    if "async_batch_get_ordered_unique_with_limit get keys max_in_flight r" for r
    using that fetch_run_result [OF _ start, of r] get_each_error [of get keys]
    by (auto simp: async_batch_get_ordered_unique_with_limit_def Let_def split: if_splits sum.splits)
  fix n s
  assume "(fetch_step get keys ^^ n) (fetch_start ?m keys) s"
  from fetch_steps_ok [OF this start] have s: "fetch_ok get keys ?m s" "n + fetch_measure keys s \<le> length keys"
    by (simp_all add: fetch_start_measure)
  show "n \<le> length keys" "length (fs_in_flight s) \<le> ?m" using s by (simp_all add: fetch_ok_def)
  show "\<exists>r. fetch_run get keys s r" by (rule fetch_run_exists [OF s(1)])
  show "\<forall>idx \<in> set (fs_in_flight s). case get (keys ! idx) of
      Inl e \<Rightarrow> fetch_run get keys s (Inl e)
    | Inr v \<Rightarrow> \<exists>s'. fetch_step get keys s s' \<and> fs_values s' ! idx = v \<and> idx \<notin> set (fs_in_flight s')"
    using fetch_answer [OF s(1)] fetch_run.failed [where get = get and keys = keys] by (auto split: sum.splits)
qed

theorem overlapped_reads_correct_witness:
  "async_batch_get_ordered_unique_with_limit (\<lambda>k. Inr (Some k)) [[1], [2], [3]] 2 (Inr [Some [1], Some [2], Some [3]]) \<and>
   (\<exists>s. (fetch_step (\<lambda>k. Inr (Some k)) [[1], [2], [3]] ^^ 1) (fetch_start 2 [[1], [2], [3]]) s \<and> fs_in_flight s = [0, 2] \<and>
     (\<exists>s'. fetch_step (\<lambda>k. Inr (Some k)) [[1], [2], [3]] s s' \<and> fs_values s' ! 2 = Some [3] \<and> 2 \<notin> set (fs_in_flight s')))"
proof -
  have two: "max 2 1 = (2 :: nat)" by simp
  note c = overlapped_reads_correct [of "\<lambda>k. Inr (Some k)" "[[1], [2], [3 :: u8]]" 2, unfolded two]
  from c obtain r where r: "async_batch_get_ordered_unique_with_limit (\<lambda>k. Inr (Some k)) [[1], [2], [3 :: u8]] 2 r" by blast
  from c [THEN conjunct2, THEN conjunct1, rule_format, OF r] have "r = Inr [Some [1], Some [2], Some [3]]" by (auto split: sum.splits)
  moreover obtain s where s: "(fetch_step (\<lambda>k. Inr (Some k)) [[1], [2], [3 :: u8]] ^^ 1) (fetch_start 2 [[1], [2], [3]]) s"
    "fs_in_flight s = [0, 2]"
    using fetch_step.refill [of 1 "fetch_start 2 [[1], [2], [3 :: u8]]" "\<lambda>k. Inr (Some k)" "[[1], [2], [3]]" "Some [2]"]
    by (auto simp: fetch_start_def upt_rec eq_OO numeral_2_eq_2)
  moreover from c [THEN conjunct2, THEN conjunct2, rule_format, OF s(1)] s(2)
  have "\<exists>s'. fetch_step (\<lambda>k. Inr (Some k)) [[1], [2], [3 :: u8]] s s' \<and> fs_values s' ! 2 = Some [3] \<and> 2 \<notin> set (fs_in_flight s')" by simp
  ultimately show ?thesis using r by blast
qed

text \<open>
  C25 (\<open>MemStore::commit_transaction\<close>).  A commit is all or nothing.  When every root
  condition holds it applies every node write and every root write, the last write of a key
  winning, and changes nothing else; when one fails it changes nothing and reports that
  condition with the manifest found.
\<close>

theorem commit_transaction_atomic:
  assumes "mem_ok s"
  shows "if \<forall>c \<in> set conditions. mem_get_root s (rc_name c) = Inr (rc_expected c)
    then \<exists>s'. mem_commit_transaction s node_writes conditions root_writes =
          Inr (TxApplied (length node_writes) (length root_writes), s') \<and> mem_ok s' \<and>
        (\<forall>k. mem_get s' k = (case map_of (rev (map node_write_pair node_writes)) k of Some v \<Rightarrow> Inr v | None \<Rightarrow> mem_get s k)) \<and>
        (\<forall>n. mem_get_root s' n = (case map_of (rev (map root_write_pair root_writes)) n of Some m \<Rightarrow> Inr m | None \<Rightarrow> mem_get_root s n))
    else \<exists>c \<in> set conditions. mem_get_root s (rc_name c) \<noteq> Inr (rc_expected c) \<and>
        mem_get_root s (rc_name c) = Inr (bt_get (rc_name c) (ms_roots s)) \<and>
        mem_commit_transaction s node_writes conditions root_writes =
          Inr (TxConflict \<lparr>tc_name = rc_name c, tc_expected = rc_expected c, tc_current = bt_get (rc_name c) (ms_roots s)\<rparr>, s)"
proof (cases "check_conditions (ms_roots s) conditions")
  case None
  let ?s = "s\<lparr>ms_data := fold apply_node_write node_writes (ms_data s), ms_roots := fold apply_root_write root_writes (ms_roots s)\<rparr>"
  have cond: "\<forall>c \<in> set conditions. mem_get_root s (rc_name c) = Inr (rc_expected c)"
    using None assms by (simp add: check_conditions_None mem_defs mem_ok_def)
  have "mem_commit_transaction s node_writes conditions root_writes = Inr (TxApplied (length node_writes) (length root_writes), ?s)"
    using None assms by (simp add: mem_commit_transaction_def lock_data_def lock_roots_def mem_ok_def)
  moreover have "mem_ok ?s"
    using assms by (auto simp: mem_ok_def bt_ok_apply_writes intro!: bt_ok_fold)
  moreover have "mem_get ?s k = (case map_of (rev (map node_write_pair node_writes)) k of Some v \<Rightarrow> Inr v | None \<Rightarrow> mem_get s k)" for k
    using assms by (simp add: mem_defs mem_ok_def bt_get_commit(1) split: option.split)
  moreover have "mem_get_root ?s n = (case map_of (rev (map root_write_pair root_writes)) n of Some m \<Rightarrow> Inr m | None \<Rightarrow> mem_get_root s n)" for n
    using assms by (simp add: mem_defs mem_ok_def bt_get_commit(2) split: option.split)
  ultimately show ?thesis unfolding if_P [OF cond] by blast
next
  case (Some conflict)
  then obtain c where "c \<in> set conditions" "bt_get (rc_name c) (ms_roots s) \<noteq> rc_expected c"
    "conflict = \<lparr>tc_name = rc_name c, tc_expected = rc_expected c, tc_current = bt_get (rc_name c) (ms_roots s)\<rparr>"
    using check_conditions_Some by blast
  with Some assms show ?thesis by (auto simp: mem_commit_transaction_def mem_defs mem_ok_def)
qed

theorem commit_transaction_atomic_witness:
  "\<exists>s'. mem_commit_transaction mem_new [NodeUpsert [1] [2], NodeDelete [1], NodeUpsert [3] [4]]
      [\<lparr>rc_name = [9], rc_expected = None\<rparr>] [PutRoot [9] (root_manifest_new None config_default)] = Inr (TxApplied 3 1, s') \<and>
    mem_get s' [1] = Inr None \<and> mem_get s' [3] = Inr (Some [4]) \<and>
    mem_get_root s' [9] = Inr (Some (root_manifest_new None config_default))"
proof -
  let ?conditions = "[\<lparr>rc_name = [9 :: u8], rc_expected = None\<rparr>]"
  have cond: "\<forall>c \<in> set ?conditions. mem_get_root mem_new (rc_name c) = Inr (rc_expected c)"
    by (simp add: mem_defs mem_new_def)
  let ?nodes = "[NodeUpsert [1] [2], NodeDelete [1], NodeUpsert [3] [4]]"
    and ?roots = "[PutRoot [9] (root_manifest_new None config_default)]"
  obtain s' where "mem_commit_transaction mem_new ?nodes ?conditions ?roots = Inr (TxApplied (length ?nodes) (length ?roots), s')"
    and nodes: "\<forall>k. mem_get s' k = (case map_of (rev (map node_write_pair ?nodes)) k of Some v \<Rightarrow> Inr v | None \<Rightarrow> mem_get mem_new k)"
    and roots: "\<forall>n. mem_get_root s' n = (case map_of (rev (map root_write_pair ?roots)) n of Some m \<Rightarrow> Inr m | None \<Rightarrow> mem_get_root mem_new n)"
    using commit_transaction_atomic [OF mem_new_ok, of ?conditions ?nodes ?roots, unfolded if_P [OF cond]] by blast
  then show ?thesis
    using spec [OF nodes, of "[1]"] spec [OF nodes, of "[3]"] spec [OF roots, of "[9]"]
    by (simp add: node_write_pair_def root_write_pair_def)
qed

text \<open>
  C26 (\<open>compare_and_swap_named_root_at_millis\<close>).  The manager reads the manifest in one store
  state and swaps it in a later one, other writers having run in between.  When it reports
  success the named tree was the expected one at the moment of the swap, it is the new one
  afterwards, and no other name changed.
\<close>

theorem named_root_swap_linearizable:
  assumes "mem_ok s2"
    "compare_and_swap_named_root_at_millis (\<lambda>_. mem_get_root s1) mem_compare_and_swap_root s2 name expected new ts =
       Inr (NamedApplied, s')"
  shows "load_named_root mem_get_root s2 name = Inr expected \<and> load_named_root mem_get_root s' name = Inr new \<and>
    (\<forall>n. n \<noteq> name \<longrightarrow> mem_get_root s' n = mem_get_root s2 n)"
  using mem_roots.cas_applied_law [OF assms] .

theorem named_root_swap_linearizable_witness:
  "\<exists>s'. compare_and_swap_named_root_at_millis mem_get_root mem_compare_and_swap_root mem_new [7] None
      (Some (tree_new config_default)) 5 = Inr (NamedApplied, s') \<and>
    load_named_root mem_get_root s' [7] = Inr (Some (tree_new config_default))"
proof -
  have "load_named_root mem_get_root mem_new [7] = Inr None"
    by (simp add: load_named_root_def mem_defs mem_new_def)
  then obtain s' where s': "compare_and_swap_named_root_at_millis mem_get_root mem_compare_and_swap_root mem_new [7] None
      (Some (tree_new config_default)) 5 = Inr (NamedApplied, s')"
    using mem_roots.cas_quiet_law [OF mem_new_ok, of "[7]" None None] by auto
  then have "compare_and_swap_named_root_at_millis (\<lambda>_. mem_get_root mem_new) mem_compare_and_swap_root mem_new [7] None
      (Some (tree_new config_default)) 5 = Inr (NamedApplied, s')"
    by (simp add: compare_and_swap_named_root_at_millis_def)
  from named_root_swap_linearizable [OF mem_new_ok this] s' show ?thesis by blast
qed

text \<open>
  C27 (\<open>list_roots_page\<close>).  Following \<open>next_after\<close> from page to page visits every root under
  the prefix exactly once, in name order, for every positive page size, and stops.
\<close>

theorem paging_complete:
  assumes "mem_ok s" "mem_list_roots s = Inr roots" "length roots < 2 ^ 64" "limit \<noteq> 0"
  shows "page_through (Suc (length roots)) roots pre None limit = Some (filter (\<lambda>r. prefix pre (fst r)) roots)"
proof -
  have "sorted_wrt (<) (map fst roots)" using mem_roots.list_roots_law [OF assms(1)] assms(2) by auto
  from page_through_complete [OF this assms(4,3), of pre None "Suc (length roots)"] show ?thesis
    by (simp add: le_imp_less_Suc)
qed

definition two_roots :: mem_store where
  "two_roots = mem_new\<lparr>ms_roots := [([1, 1], root_manifest_new None config_default), ([1, 2], root_manifest_new None config_default),
     ([2], root_manifest_new None config_default)]\<rparr>"

theorem paging_complete_witness:
  "map_option (map fst) (page_through 4 (ms_roots two_roots) [1] None 1) = Some [[1, 1], [1, 2]]"
proof -
  have ok: "mem_ok two_roots" by (auto simp: two_roots_def mem_ok_def mem_new_def)
  have "mem_list_roots two_roots = Inr (ms_roots two_roots)"
    using ok by (simp add: mem_defs mem_ok_def sort_key_sorted_id bt_ok_def)
  from paging_complete [OF ok this, of 1 "[1]"]
  have "page_through (Suc (length (ms_roots two_roots))) (ms_roots two_roots) [1] None 1 =
      Some (filter (\<lambda>r. prefix [1] (fst r)) (ms_roots two_roots))"
    by (simp add: two_roots_def del: page_through.simps)
  moreover have "Suc (length (ms_roots two_roots)) = 4" by (simp add: two_roots_def)
  moreover have "map fst (filter (\<lambda>r. prefix [1] (fst r)) (ms_roots two_roots)) = [[1, 1], [1, 2]]"
    by (simp add: two_roots_def)
  ultimately show ?thesis by simp
qed

end
