(* ===== verification/Chunk_Ranges.thy ===== *)
theory Chunk_Ranges
  imports Boundary Node_Sizer Stores
begin

text \<open>
  Where one level of a tree is cut into nodes (\<^verbatim>\<open>src/src/prolly/builder.rs\<close>): the serial loop
  over the boundary detector and the sizer, and the two loops used when the entries were
  hashed in parallel.  A range is a pair of inclusive indexes.  \<open>ref_chunks\<close> is the reference
  the loops are compared with: it returns the groups of entries themselves.
\<close>

section \<open>Definitions\<close>

type_synonym range = "nat \<times> nat"

definition hard_max :: "config \<Rightarrow> u64" where
  "hard_max cfg = cs_hard_max_node_bytes (tf_chunking (cfg_format cfg))"

primrec serial_ranges ::
  "xxhash \<Rightarrow> config \<Rightarrow> entry list \<Rightarrow> u64 list option \<Rightarrow> entry list \<Rightarrow> nat \<Rightarrow> nat \<Rightarrow> detector \<Rightarrow> sizer \<Rightarrow> range list \<Rightarrow> error + range list" where
  "serial_ranges xxh64 cfg entries child_counts [] index start det siz ranges =
     Inr (if start < length entries then ranges @ [(start, length entries - 1)] else ranges)"
| "serial_ranges xxh64 cfg entries child_counts (e # rest) index start det siz ranges =
     (let key = fst e; val = snd e; child_count = map_option (\<lambda>counts. counts ! index) child_counts;
          previous = (if start < index then Some (fst (entries ! (index - 1))) else None) in
      and_then (size_after previous key val child_count siz) (\<lambda>encoded_size.
      and_then (if start < index \<and> hard_max cfg < encoded_size
        then and_then (size_after None key val child_count (sizer_reset siz)) (\<lambda>encoded_size.
          Inr (ranges @ [(start, index - 1)], index, detector_reset det, sizer_reset siz, encoded_size))
        else Inr (ranges, start, det, siz, encoded_size)) (\<lambda>(ranges, start, det, siz, encoded_size).
      if hard_max cfg < encoded_size then Inl (EntryTooLarge encoded_size (hard_max cfg))
      else let encoded_entry_bytes = saturating_sub encoded_size (sz_size siz) in
        and_then (push_sized key val child_count encoded_size siz) (\<lambda>siz.
        and_then (observe xxh64 key val encoded_entry_bytes det) (\<lambda>(boundary, det).
        if boundary
        then serial_ranges xxh64 cfg entries child_counts rest (index + 1) (index + 1) det (sizer_reset siz) (ranges @ [(start, index)])
        else serial_ranges xxh64 cfg entries child_counts rest (index + 1) start det siz ranges)))))"

primrec counts_loop :: "chunking_spec \<Rightarrow> (bool \<times> u64) list \<Rightarrow> nat \<Rightarrow> nat \<Rightarrow> range list \<Rightarrow> nat \<times> range list" where
  "counts_loop spec [] index start ranges = (start, ranges)"
| "counts_loop spec (b # rest) index start ranges =
     (let hash_boundary = fst b; count = of_nat (index - start + 1) :: u64 in
      if cs_max spec \<le> count \<or> (cs_min spec \<le> count \<and> hash_boundary)
      then counts_loop spec rest (index + 1) (index + 1) (ranges @ [(start, index)])
      else counts_loop spec rest (index + 1) start ranges)"

definition chunk_ranges_from_independent_counts :: "chunking_spec \<Rightarrow> (bool \<times> u64) list \<Rightarrow> range list" where
  "chunk_ranges_from_independent_counts spec boundaries_and_upper_bytes =
     (let (start, ranges) = counts_loop spec boundaries_and_upper_bytes 0 0 [] in
      if start < length boundaries_and_upper_bytes then ranges @ [(start, length boundaries_and_upper_bytes - 1)] else ranges)"

primrec hashes_loop ::
  "config \<Rightarrow> entry list \<Rightarrow> u64 list option \<Rightarrow> (entry \<times> bool) list \<Rightarrow> nat \<Rightarrow> nat \<Rightarrow> sizer \<Rightarrow> range list \<Rightarrow> error + range list" where
  "hashes_loop cfg entries child_counts [] index start siz ranges =
     Inr (if start < length entries then ranges @ [(start, length entries - 1)] else ranges)"
| "hashes_loop cfg entries child_counts (b # rest) index start siz ranges =
     (let key = fst (fst b); val = snd (fst b); hash_boundary = snd b; spec = tf_chunking (cfg_format cfg);
          child_count = map_option (\<lambda>counts. counts ! index) child_counts;
          previous = (if start < index then Some (fst (entries ! (index - 1))) else None) in
      and_then (size_after previous key val child_count siz) (\<lambda>encoded_size.
      and_then (if start < index \<and> cs_hard_max_node_bytes spec < encoded_size
        then and_then (size_after None key val child_count (sizer_reset siz)) (\<lambda>encoded_size.
          Inr (ranges @ [(start, index - 1)], index, sizer_reset siz, encoded_size))
        else Inr (ranges, start, siz, encoded_size)) (\<lambda>(ranges, start, siz, encoded_size).
      if cs_hard_max_node_bytes spec < encoded_size then Inl (EntryTooLarge encoded_size (cs_hard_max_node_bytes spec))
      else and_then (push_sized key val child_count encoded_size siz) (\<lambda>siz.
        let count = of_nat (index - start + 1) :: u64;
            boundary = (cs_hard_max_node_bytes spec \<le> encoded_size \<or> cs_max spec \<le> count \<or>
              (cs_min spec \<le> count \<and> hash_boundary)) in
        if boundary
        then hashes_loop cfg entries child_counts rest (index + 1) (index + 1) (sizer_reset siz) (ranges @ [(start, index)])
        else hashes_loop cfg entries child_counts rest (index + 1) start siz ranges))))"

definition chunk_ranges_from_independent_hashes ::
  "config \<Rightarrow> u8 \<Rightarrow> entry list \<Rightarrow> u64 list option \<Rightarrow> bool list \<Rightarrow> error + range list" where
  "chunk_ranges_from_independent_hashes cfg level entries child_counts hash_boundaries =
     and_then (sizer_new (cfg_format cfg) (level = 0) level) (\<lambda>siz.
     hashes_loop cfg entries child_counts (zip entries hash_boundaries) 0 0 siz [])"

definition entry_boundary :: "xxhash \<Rightarrow> detector \<Rightarrow> entry \<Rightarrow> error + bool \<times> u64" where
  "entry_boundary xxh64 det e =
     (case independent_hash_boundary xxh64 (fst e) (snd e) det of
        None \<Rightarrow> Inl (Panic ''independent boundary support was checked'')
      | Some r \<Rightarrow> and_then r (\<lambda>boundary.
          Inr (boundary, saturating_add (saturating_add (of_nat (length (fst e))) (of_nat (length (snd e)))) 64)))"

definition chunk_ranges_for_entries_impl ::
  "xxhash \<Rightarrow> config \<Rightarrow> u8 \<Rightarrow> entry list \<Rightarrow> u64 list option \<Rightarrow> bool \<Rightarrow> error + range list" where
  "chunk_ranges_for_entries_impl xxh64 cfg level entries child_counts parallel_hashing =
     (if (if level = 0 then child_counts \<noteq> None
          else (case child_counts of None \<Rightarrow> True | Some counts \<Rightarrow> length counts \<noteq> length entries))
      then Inl InvalidNode
      else and_then (detector_new (tf_chunking (cfg_format cfg)) (ucast level)) (\<lambda>det.
        if parallel_hashing \<and> supports_independent_hashing det then
          and_then (collect_results (map (entry_boundary xxh64 det) entries)) (\<lambda>boundaries_and_upper_bytes.
          let max_upper_bytes = fold max (map snd boundaries_and_upper_bytes) 0;
              spec = tf_chunking (cfg_format cfg) in
          and_then (sizer_new (cfg_format cfg) (level = 0) level) (\<lambda>siz.
          if saturating_add (sz_size siz) (saturating_mul max_upper_bytes (cs_max spec)) \<le> cs_hard_max_node_bytes spec
          then Inr (chunk_ranges_from_independent_counts spec boundaries_and_upper_bytes)
          else chunk_ranges_from_independent_hashes cfg level entries child_counts (map fst boundaries_and_upper_bytes)))
        else and_then (sizer_new (cfg_format cfg) (level = 0) level) (\<lambda>siz.
          serial_ranges xxh64 cfg entries child_counts entries 0 0 det siz [])))"

definition parallel_boundary_hash_min_entries :: nat where
  "parallel_boundary_hash_min_entries = 1024"

definition chunk_ranges_for_entries_parallel ::
  "xxhash \<Rightarrow> config \<Rightarrow> u8 \<Rightarrow> entry list \<Rightarrow> u64 list option \<Rightarrow> error + range list" where
  "chunk_ranges_for_entries_parallel xxh64 cfg level entries child_counts =
     chunk_ranges_for_entries_impl xxh64 cfg level entries child_counts
       (parallel_boundary_hash_min_entries \<le> length entries)"

section \<open>The reference\<close>

definition ilen :: "tree_format \<Rightarrow> u8 \<Rightarrow> item list \<Rightarrow> nat" where
  "ilen f level items = (case item_len f (level = 0) level items of Inr n \<Rightarrow> n | Inl e \<Rightarrow> 0)"

primrec ref_chunks :: "xxhash \<Rightarrow> tree_format \<Rightarrow> u8 \<Rightarrow> item list \<Rightarrow> item list \<Rightarrow> detector \<Rightarrow> error + item list list" where
  "ref_chunks xxh64 f level [] cur det = Inr (if cur = [] then [] else [cur])"
| "ref_chunks xxh64 f level (i # rest) cur det =
     (let key = fst i; val = fst (snd i); limit = cs_hard_max_node_bytes (tf_chunking f);
          flush = (cur \<noteq> [] \<and> unat limit < ilen f level (cur @ [i]));
          base = (if flush then [] else cur);
          det = (if flush then detector_reset det else det);
          node = base @ [i];
          size = ilen f level node in
      if unat limit < size then Inl (EntryTooLarge (of_nat size) limit)
      else and_then (observe xxh64 key val (of_nat (size - ilen f level base)) det) (\<lambda>(boundary, det).
        and_then (if boundary then ref_chunks xxh64 f level rest [] det else ref_chunks xxh64 f level rest node det) (\<lambda>groups.
        Inr ((if flush then [cur] else []) @ (if boundary then [node] else []) @ groups))))"

fun ranges_from :: "nat \<Rightarrow> 'a list list \<Rightarrow> range list" where
  "ranges_from start [] = []"
| "ranges_from start (g # gs) = (start, start + length g - 1) # ranges_from (start + length g) gs"

section \<open>Sizes within a level\<close>

text \<open>The entries of one level, of a registered format, that fit the address space.\<close>

definition level_ok :: "tree_format \<Rightarrow> u8 \<Rightarrow> item list \<Rightarrow> bool" where
  "level_ok f level items \<longleftrightarrow>
     format_validate f = Inr () \<and> registered f \<and> items_ok (level = 0) items \<and>
     (\<exists>e. item_len f (level = 0) level [] = Inr e \<and> e + upper_len items < 2 ^ 64)"

lemma items_ok_append [simp]: "items_ok leaf (xs @ ys) \<longleftrightarrow> items_ok leaf xs \<and> items_ok leaf ys"
  by (simp add: items_ok_def ball_Un)

lemma level_ok_append: "level_ok f level (xs @ ys) \<Longrightarrow> level_ok f level xs \<and> level_ok f level ys"
  by (auto simp: level_ok_def)

lemma level_ok_part: "level_ok f level (xs @ ys @ zs) \<Longrightarrow> level_ok f level ys"
  using level_ok_append by blast

lemma ilen_eq:
  assumes "level_ok f level items"
  shows "item_len f (level = 0) level items = Inr (ilen f level items)" "ilen f level [] \<le> ilen f level items"
    "ilen f level items \<le> ilen f level [] + upper_len items" "ilen f level items < 2 ^ 64" "in_memory items"
proof -
  obtain e where e: "item_len f (level = 0) level [] = Inr e" "e + upper_len items < 2 ^ 64"
    and ok: "items_ok (level = 0) items"
    using assms by (auto simp: level_ok_def)
  obtain n where n: "item_len f (level = 0) level items = Inr n" "e \<le> n" "n \<le> e + upper_len items"
    by (rule item_len_upper [OF e(1) ok]) (use e(2) in auto)
  then show "item_len f (level = 0) level items = Inr (ilen f level items)" "ilen f level [] \<le> ilen f level items"
    "ilen f level items \<le> ilen f level [] + upper_len items" "ilen f level items < 2 ^ 64" "in_memory items"
    using e by (auto simp: ilen_def upper_len_in_memory)
qed

lemma ilen_mono:
  assumes "level_ok f level (items @ [i])"
  shows "ilen f level items < ilen f level (items @ [i])"
proof -
  obtain k v c where i: "i = (k, v, c)" by (cases i)
  note ok = level_ok_append [OF assms, THEN conjunct1] assms [unfolded i]
  have valid: "items_ok (level = 0) items" "validate_child_count (level = 0) c = Inr ()"
    using ok(2) by (auto simp: level_ok_def items_ok_def)
  have room: "length items + 1 < 2 ^ 64" "payload_size items + length k + length v < 2 ^ 64"
    using ilen_eq(5) [OF ok(2)] by (auto simp: in_memory_snoc)
  have "0 < entry_cost (tf_node_layout f) (payload_size items) (last_key items) k v c"
    using ok(2) by (cases "tf_node_layout f") (auto simp: entry_cost_def level_ok_def Let_def varint_len_pos)
  then show ?thesis
    using item_len_snoc [OF ilen_eq(1) [OF ok(1)] valid room] ilen_eq(1) [OF ok(2)] by (simp add: i)
qed

lemma ilen_pos: "level_ok f level items \<Longrightarrow> 0 < ilen f level items"
  using ilen_eq(1) [of f level "[]"] ilen_eq(2) [of f level items] level_ok_append [of f level "[]" items]
  by (auto simp: item_len_def try_encoded_len_def and_then_Inr_iff compact_magic_def level_ok_def)

lemma sizes_ok:
  assumes "sizer_ok f (level = 0) level cur siz" "level_ok f level (cur @ [i])"
  shows "size_after (last_key cur) (fst i) (fst (snd i)) (snd (snd i)) siz = Inr (of_nat (ilen f level (cur @ [i])))"
    and "sz_size siz = of_nat (ilen f level cur)"
proof -
  obtain k v c where i: "i = (k, v, c)" by (cases i)
  note e = ilen_eq [OF assms(2), unfolded i]
  have "validate_child_count (level = 0) c = Inr ()" using assms(2) by (auto simp: i level_ok_def items_ok_def)
  then show "size_after (last_key cur) (fst i) (fst (snd i)) (snd (snd i)) siz = Inr (of_nat (ilen f level (cur @ [i])))"
    using size_after_ok [OF assms(1) e(5)] e(1,4) by (simp add: i unat_of_nat_u64)
  have "item_len f (level = 0) level cur = Inr (unat (sz_size siz))" using assms(1) by (simp add: sizer_ok_def)
  then show "sz_size siz = of_nat (ilen f level cur)" by (simp add: ilen_def)
qed

lemma push_ok:
  assumes "sizer_ok f (level = 0) level cur siz" "level_ok f level (cur @ [i])"
  obtains siz' where "push_sized (fst i) (fst (snd i)) (snd (snd i)) (of_nat (ilen f level (cur @ [i]))) siz = Inr siz'"
    "sizer_ok f (level = 0) level (cur @ [i]) siz'"
proof -
  obtain k v c where i: "i = (k, v, c)" by (cases i)
  note e = ilen_eq [OF assms(2), unfolded i]
  have "validate_child_count (level = 0) c = Inr ()" using assms(2) by (auto simp: i level_ok_def items_ok_def)
  from push_sized_ok [OF assms(1) e(5) this, of "of_nat (ilen f level (cur @ [i]))"] show thesis
    using e(1,4) that by (auto simp: i unat_of_nat_u64)
qed

lemma saturating_sub_of_nat:
  "m \<le> n \<Longrightarrow> n < 2 ^ 64 \<Longrightarrow> saturating_sub (of_nat n) (of_nat m) = (of_nat (n - m) :: u64)"
  by (simp add: saturating_sub_def word_le_nat_alt unat_of_nat_u64 of_nat_diff)

lemma u64_less_of_nat: "n < 2 ^ 64 \<Longrightarrow> w < (of_nat n :: u64) \<longleftrightarrow> unat w < n"
  by (simp add: word_less_nat_alt unat_of_nat_u64)

section \<open>The serial loop\<close>

definition counts_match :: "u64 list option \<Rightarrow> item list \<Rightarrow> bool" where
  "counts_match child_counts items \<longleftrightarrow>
     (\<forall>i < length items. map_option (\<lambda>counts. counts ! i) child_counts = snd (snd (items ! i)))"

lemma nth_middle: "xs = pre @ cur @ i # rest \<Longrightarrow> xs ! (length pre + length cur) = i"
  by (simp add: nth_append)

lemma previous_key_eq:
  assumes "items = pre @ cur @ rest"
  shows "(if length pre < length pre + length cur then Some (fst (item_entries items ! (length pre + length cur - 1))) else None) =
    last_key cur"
proof (cases cur rule: rev_cases)
  case (snoc ys y)
  then show ?thesis by (cases y) (simp add: assms item_entries_def nth_append last_key_def)
qed (simp add: last_key_def)

lemma item_entries_Cons: "item_entries (i # items) = (fst i, fst (snd i)) # item_entries items"
  by (cases i) (simp add: item_entries_def)

text \<open>What one step of a loop computes, with and without starting a new node.\<close>

lemma level_step:
  assumes "level_ok f level items" "counts_match child_counts items" "items = pre @ cur @ i # rest"
    "sizer_ok f (level = 0) level cur siz"
  obtains siz1 siz0 where
    "map_option (\<lambda>counts. counts ! (length pre + length cur)) child_counts = snd (snd i)"
    "size_after (last_key cur) (fst i) (fst (snd i)) (snd (snd i)) siz = Inr (of_nat (ilen f level (cur @ [i])))"
    "size_after None (fst i) (fst (snd i)) (snd (snd i)) (sizer_reset siz) = Inr (of_nat (ilen f level [i]))"
    "push_sized (fst i) (fst (snd i)) (snd (snd i)) (of_nat (ilen f level (cur @ [i]))) siz = Inr siz1"
    "push_sized (fst i) (fst (snd i)) (snd (snd i)) (of_nat (ilen f level [i])) (sizer_reset siz) = Inr siz0"
    "sizer_ok f (level = 0) level (cur @ [i]) siz1" "sizer_ok f (level = 0) level [i] siz0"
    "saturating_sub (of_nat (ilen f level (cur @ [i]))) (sz_size siz) = of_nat (ilen f level (cur @ [i]) - ilen f level cur)"
    "saturating_sub (of_nat (ilen f level [i])) (sz_size (sizer_reset siz)) = of_nat (ilen f level [i] - ilen f level [])"
    "ilen f level (cur @ [i]) < 2 ^ 64" "ilen f level [i] < 2 ^ 64"
proof -
  have cc: "map_option (\<lambda>counts. counts ! (length pre + length cur)) child_counts = snd (snd i)"
    using assms(2,3) nth_middle [OF assms(3)] by (simp add: counts_match_def)
  have lev: "level_ok f level (cur @ [i])" "level_ok f level ([] @ [i])"
    using assms(1) level_ok_part [of f level pre "cur @ [i]" rest] level_ok_part [of f level "pre @ cur" "[i]" rest]
    by (auto simp: assms(3))
  note size = sizes_ok [OF assms(4) lev(1)]
  note reset = sizer_reset_ok [OF assms(4)]
  note size0 = sizes_ok [OF reset lev(2)]
  obtain siz1 where siz1: "push_sized (fst i) (fst (snd i)) (snd (snd i)) (of_nat (ilen f level (cur @ [i]))) siz = Inr siz1"
    "sizer_ok f (level = 0) level (cur @ [i]) siz1" using push_ok [OF assms(4) lev(1)] .
  obtain siz0 where siz0: "push_sized (fst i) (fst (snd i)) (snd (snd i)) (of_nat (ilen f level ([] @ [i]))) (sizer_reset siz) = Inr siz0"
    "sizer_ok f (level = 0) level ([] @ [i]) siz0" using push_ok [OF reset lev(2)] .
  have sub: "saturating_sub (of_nat (ilen f level (cur @ [i]))) (sz_size siz) = of_nat (ilen f level (cur @ [i]) - ilen f level cur)"
    "saturating_sub (of_nat (ilen f level [i])) (sz_size (sizer_reset siz)) = of_nat (ilen f level [i] - ilen f level [])"
    using ilen_eq(4) [OF lev(1)] ilen_eq(4) [OF lev(2)] ilen_mono [OF lev(1)] ilen_mono [OF lev(2)] size(2) size0(2)
    by (simp_all add: saturating_sub_of_nat del: of_nat_diff)
  show thesis
    by (rule that [OF cc size(1) size0(1) [simplified] siz1(1) siz0(1) [simplified] siz1(2) siz0(2) [simplified] sub
          ilen_eq(4) [OF lev(1)] ilen_eq(4) [OF lev(2), unfolded append_Nil]])
qed

lemma serial_ranges_ref:
  assumes "level_ok (cfg_format cfg) level items" "counts_match child_counts items"
  shows "items = pre @ cur @ rest \<Longrightarrow> sizer_ok (cfg_format cfg) (level = 0) level cur siz \<Longrightarrow>
    serial_ranges xxh64 cfg (item_entries items) child_counts (item_entries rest) (length pre + length cur) (length pre) det siz ranges =
    map_ok (\<lambda>gs. ranges @ ranges_from (length pre) gs) (ref_chunks xxh64 (cfg_format cfg) level rest cur det)"
proof (induction rest arbitrary: pre cur siz det ranges)
  case Nil
  then show ?case by (auto simp: item_entries_def)
next
  case (Cons i rest)
  let ?f = "cfg_format cfg" and ?S = "serial_ranges xxh64 cfg (item_entries items) child_counts (item_entries rest)"
  from level_step [OF assms Cons.prems] obtain siz1 siz0 where step:
    "map_option (\<lambda>counts. counts ! (length pre + length cur)) child_counts = snd (snd i)"
    "size_after (last_key cur) (fst i) (fst (snd i)) (snd (snd i)) siz = Inr (of_nat (ilen ?f level (cur @ [i])))"
    "size_after None (fst i) (fst (snd i)) (snd (snd i)) (sizer_reset siz) = Inr (of_nat (ilen ?f level [i]))"
    "push_sized (fst i) (fst (snd i)) (snd (snd i)) (of_nat (ilen ?f level (cur @ [i]))) siz = Inr siz1"
    "push_sized (fst i) (fst (snd i)) (snd (snd i)) (of_nat (ilen ?f level [i])) (sizer_reset siz) = Inr siz0"
    and inv: "sizer_ok ?f (level = 0) level (cur @ [i]) siz1" "sizer_ok ?f (level = 0) level [i] siz0"
    and sub: "saturating_sub (of_nat (ilen ?f level (cur @ [i]))) (sz_size siz) = of_nat (ilen ?f level (cur @ [i]) - ilen ?f level cur)"
    "saturating_sub (of_nat (ilen ?f level [i])) (sz_size (sizer_reset siz)) = of_nat (ilen ?f level [i] - ilen ?f level [])"
    and lt: "ilen ?f level (cur @ [i]) < 2 ^ 64" "ilen ?f level [i] < 2 ^ 64" .
  have go: "?S (length pre + length cur + 1) (length pre) d s r =
      map_ok (\<lambda>gs. r @ ranges_from (length pre) gs) (ref_chunks xxh64 ?f level rest (cur @ [i]) d)"
    if "sizer_ok ?f (level = 0) level (cur @ [i]) s" for d s r
    using Cons.IH [of pre "cur @ [i]" s d r] that Cons.prems(1) by simp
  have go0: "?S (length pre + length cur + 1) (length pre + length cur) d s r =
      map_ok (\<lambda>gs. r @ ranges_from (length pre + length cur) gs) (ref_chunks xxh64 ?f level rest [i] d)"
    if "sizer_ok ?f (level = 0) level [i] s" for d s r
    using Cons.IH [of "pre @ cur" "[i]" s d r] that Cons.prems(1) by simp
  have go1: "?S (length pre + length cur + 1) (length pre + length cur + 1) d (sizer_reset s) r =
      map_ok (\<lambda>gs. r @ ranges_from (length pre + length cur + 1) gs) (ref_chunks xxh64 ?f level rest [] d)"
    if "sizer_ok ?f (level = 0) level x s" for d s r x
    using Cons.IH [of "pre @ cur @ [i]" "[]" "sizer_reset s" d r] sizer_reset_ok [OF that] Cons.prems(1) by simp
  have lim: "cs_hard_max_node_bytes (tf_chunking ?f) = hard_max cfg" by (simp add: hard_max_def)
  note facts = step(2-) u64_less_of_nat [OF lt(1)] u64_less_of_nat [OF lt(2)] sub lim
  note unfold = item_entries_Cons serial_ranges.simps ref_chunks.simps fst_conv snd_conv Let_def step(1) previous_key_eq [OF Cons.prems(1)]
  consider "cur \<noteq> []" "unat (hard_max cfg) < ilen ?f level (cur @ [i])" | "cur = []"
    | "cur \<noteq> []" "\<not> unat (hard_max cfg) < ilen ?f level (cur @ [i])" by blast
  then show ?case
  proof cases
    case 1
    show ?thesis unfolding unfold
      using 1 inv(2) by (auto simp: facts go0 [simplified] go1 [simplified] and_then_def split: prod.split sum.split)
  next
    case 2
    then show ?thesis unfolding unfold
      using inv(1) by (auto simp: facts [unfolded 2 append_Nil item_lists_simps] go0 [unfolded 2, simplified]
        go1 [unfolded 2, simplified] and_then_def split: prod.split sum.split)
  next
    case 3
    then show ?thesis unfolding unfold
      using inv(1) by (auto simp: facts go [simplified] go1 [simplified] and_then_def split: prod.split sum.split)
  qed
qed

section \<open>What the reference returns\<close>

lemma ref_chunks_sound:
  assumes "ref_chunks xxh64 f level rest cur det = Inr gs"
    "cur \<noteq> [] \<Longrightarrow> ilen f level cur \<le> unat (cs_hard_max_node_bytes (tf_chunking f))"
  shows "concat gs = cur @ rest \<and> [] \<notin> set gs \<and>
    (\<forall>g \<in> set gs. ilen f level g \<le> unat (cs_hard_max_node_bytes (tf_chunking f)))"
  using assms
proof (induction rest arbitrary: cur det gs)
  case Nil
  then show ?case by (auto split: if_splits)
next
  case (Cons i rest)
  let ?limit = "unat (cs_hard_max_node_bytes (tf_chunking f))"
  define flush where "flush \<longleftrightarrow> cur \<noteq> [] \<and> ?limit < ilen f level (cur @ [i])"
  define node where "node = (if flush then [] else cur) @ [i]"
  note P = Cons.prems(1) [unfolded ref_chunks.simps Let_def, folded flush_def, folded node_def]
  then have fits: "ilen f level node \<le> ?limit" by (simp add: not_less split: if_splits)
  from P fits obtain b d hs where gs: "gs = (if flush then [cur] else []) @ (if b then [node] else []) @ hs"
    and hs: "ref_chunks xxh64 f level rest (if b then [] else node) d = Inr hs"
    by (fastforce simp: and_then_Inr_iff split: prod.splits if_split_asm)
  have "concat hs = (if b then [] else node) @ rest \<and> [] \<notin> set hs \<and> (\<forall>g \<in> set hs. ilen f level g \<le> ?limit)"
    using fits by (intro Cons.IH [OF hs]) (auto split: if_splits)
  then show ?case using gs fits Cons.prems(2) by (auto simp: node_def flush_def)
qed

lemma ranges_from_append: "ranges_from s (gs @ hs) = ranges_from s gs @ ranges_from (s + length (concat gs)) hs"
  by (induction gs arbitrary: s) (auto simp: add.assoc)

lemma ranges_from_cover:
  "[] \<notin> set gs \<Longrightarrow> concat (map (\<lambda>(s, e). [s..<e + 1]) (ranges_from start gs)) = [start..<start + length (concat gs)]"
proof (induction gs arbitrary: start)
  case (Cons g gs)
  then have g: "start + length g - 1 + 1 = start + length g" by (cases g) auto
  have IH: "concat (map (\<lambda>(s, e). [s..<e + 1]) (ranges_from (start + length g) gs)) =
      [start + length g..<start + length g + length (concat gs)]" using Cons by simp
  show ?case
    using upt_add_eq_append [of start "start + length g" "length (concat gs)"]
    by (simp only: ranges_from.simps list.map concat.simps split_conv g IH length_append) (simp add: add.assoc)
qed simp

lemma ranges_from_slice:
  assumes "(s, e) \<in> set (ranges_from start gs)" "[] \<notin> set gs"
  obtains g where "g \<in> set gs" "s \<le> e" "take (e + 1 - s) (drop (s - start) (concat gs)) = g" "start \<le> s"
  using assms
proof (induction gs arbitrary: start thesis)
  case (Cons g gs)
  then have g: "g \<noteq> []" by auto
  from Cons.prems(2) consider "s = start" "e = start + length g - 1" | "(s, e) \<in> set (ranges_from (start + length g) gs)"
    by auto
  then show ?case
  proof cases
    case 1
    then show ?thesis using g Cons.prems(1) [of g] by (cases g) auto
  next
    case 2
    then obtain g' where "g' \<in> set gs" "s \<le> e" "take (e + 1 - s) (drop (s - (start + length g)) (concat gs)) = g'"
      "start + length g \<le> s" using Cons.IH [OF _ 2] Cons.prems(3) by auto
    then show ?thesis using Cons.prems(1) [of g'] by simp
  qed
qed simp

lemma ref_chunks_full:
  assumes "level_ok f level (node @ rest)" "node \<noteq> []" "ilen f level node = unat (cs_hard_max_node_bytes (tf_chunking f))"
  shows "ref_chunks xxh64 f level rest node det = map_ok ((#) node) (ref_chunks xxh64 f level rest [] (detector_reset det))"
proof (cases rest)
  case (Cons i rest')
  have "level_ok f level (node @ [i])"
    using level_ok_append [of f level "node @ [i]" rest'] assms(1) Cons by simp
  from ilen_mono [OF this] show ?thesis
    using assms(2,3) by (auto simp: Cons Let_def and_then_def split: sum.split prod.split)
qed (use assms in simp)

section \<open>Independently hashed entries\<close>

definition hit :: "xxhash \<Rightarrow> u64 \<Rightarrow> boundary_input \<Rightarrow> u32 \<Rightarrow> item \<Rightarrow> bool" where
  "hit xxh64 seed input factor i \<longleftrightarrow>
     (ucast (hash_entry xxh64 seed input (fst i) (fst (snd i))) :: u32) \<le> - 1 div factor"

text \<open>A detector that has seen the entries of \<open>cur\<close> since it was last reset.\<close>

definition counting :: "tree_format \<Rightarrow> u8 \<Rightarrow> u64 \<Rightarrow> u32 \<Rightarrow> item list \<Rightarrow> detector \<Rightarrow> bool" where
  "counting f level seed factor cur d \<longleftrightarrow>
     bd_spec d = tf_chunking f \<and> cs_measure (bd_spec d) = EntryCount \<and> cs_rule (bd_spec d) = HashThreshold factor \<and>
     factor \<noteq> 0 \<and> bd_seed d = seed \<and> bd_entries d = of_nat (length cur) \<and>
     bd_encoded_bytes d = of_nat (ilen f level cur - ilen f level [])"

definition count_boundary :: "tree_format \<Rightarrow> nat \<Rightarrow> bool \<Rightarrow> bool" where
  "count_boundary f n hash_boundary \<longleftrightarrow>
     cs_max (tf_chunking f) \<le> of_nat n \<or> (cs_min (tf_chunking f) \<le> of_nat n \<and> hash_boundary)"

lemma saturating_add_of_nat: "m + n < 2 ^ 64 \<Longrightarrow> saturating_add (of_nat m) (of_nat n) = (of_nat (m + n) :: u64)"
  by (simp add: saturating_add_def unat_of_nat_u64)

lemma counting_reset: "counting f level seed factor cur d \<Longrightarrow> counting f level seed factor [] (detector_reset d)"
  by (auto simp: counting_def detector_reset_def)

lemma observe_counting:
  assumes "counting f level seed factor cur d" "level_ok f level (cur @ [i])"
    "ilen f level (cur @ [i]) \<le> unat (cs_hard_max_node_bytes (tf_chunking f))"
    "hash_boundary = hit xxh64 seed (cs_input (tf_chunking f)) factor i"
  obtains d' where "observe xxh64 (fst i) (fst (snd i)) (of_nat (ilen f level (cur @ [i]) - ilen f level cur)) d =
      Inr (count_boundary f (length cur + 1) hash_boundary, d')"
    "counting f level seed factor (if count_boundary f (length cur + 1) hash_boundary then [] else cur @ [i]) d'"
proof -
  let ?e = "ilen f level (cur @ [i]) - ilen f level cur" and ?limit = "cs_hard_max_node_bytes (tf_chunking f)"
  let ?b = "ilen f level (cur @ [i]) - ilen f level []"
  let ?d = "observe_counters (fst i) (fst (snd i)) (of_nat ?e) d"
  note c = assms(1) [unfolded counting_def]
  then have c': "cs_measure (tf_chunking f) = EntryCount" "cs_rule (tf_chunking f) = HashThreshold factor" by auto
  have lev: "level_ok f level cur" "level_ok f level []"
    using level_ok_append [OF assms(2)] level_ok_append [of f level "[]" cur] by auto
  note lt = ilen_eq(4) [OF assms(2)] and mono = ilen_mono [OF assms(2)] ilen_eq(2) [OF lev(1)] ilen_pos [OF lev(2)]
  have n: "length cur + 1 < 2 ^ 64" using ilen_eq(5) [OF assms(2)] by (simp add: in_memory_def)
  have split: "ilen f level cur - ilen f level [] + ?e = ?b" using mono by simp
  have bytes: "bd_encoded_bytes ?d = of_nat ?b" "bd_entries ?d = of_nat (length cur + 1)" "bd_spec ?d = tf_chunking f"
    "bd_seed ?d = seed"
    using c lt n saturating_add_of_nat [of "ilen f level cur - ilen f level []" ?e, unfolded split]
      saturating_add_of_nat [of "length cur" 1, unfolded of_nat_1]
    by (simp_all add: observe_counters_def del: of_nat_add of_nat_diff of_nat_Suc)
  have small: "\<not> ?limit < of_nat ?e" "\<not> ?limit \<le> of_nat ?b"
    using assms(3) mono lt by (simp_all add: word_less_nat_alt word_le_nat_alt unat_of_nat_u64 del: of_nat_diff)
  have dec: "decide (hash_entry xxh64 (bd_seed d) (cs_input (bd_spec d)) (fst i) (fst (snd i))) ?d =
      Inr (count_boundary f (length cur + 1) hash_boundary)"
    using c c' small(2) by (subst decide_entry_count [of _ factor])
      (simp_all add: bytes count_boundary_def assms(4) hit_def del: of_nat_add of_nat_diff of_nat_Suc)
  have obs: "observe xxh64 (fst i) (fst (snd i)) (of_nat ?e) d = Inr (count_boundary f (length cur + 1) hash_boundary,
      if count_boundary f (length cur + 1) hash_boundary then detector_reset ?d else ?d)"
  proof -
    have "\<not> (bd_entries d = 0 \<and> cs_hard_max_node_bytes (bd_spec d) < of_nat ?e)" "\<not> is_rolling (cs_rule (bd_spec d))"
      using c c' small(1) by auto
    then show ?thesis by (simp add: observe_unfold dec)
  qed
  have "counting f level seed factor (cur @ [i]) ?d"
    using c bytes by (auto simp: counting_def simp del: of_nat_diff)
  with obs counting_reset [OF this] show thesis by (intro that) (auto simp del: of_nat_diff)
qed

lemma ref_step:
  assumes "counting f level seed factor cur d" "level_ok f level (cur @ [i])"
    "\<not> (cur \<noteq> [] \<and> unat (cs_hard_max_node_bytes (tf_chunking f)) < ilen f level (cur @ [i]))"
    "ilen f level (cur @ [i]) \<le> unat (cs_hard_max_node_bytes (tf_chunking f))"
    "hash_boundary = hit xxh64 seed (cs_input (tf_chunking f)) factor i"
  obtains d' where "ref_chunks xxh64 f level (i # rest) cur d =
      (if count_boundary f (length cur + 1) hash_boundary
       then map_ok ((#) (cur @ [i])) (ref_chunks xxh64 f level rest [] d')
       else ref_chunks xxh64 f level rest (cur @ [i]) d')"
    "counting f level seed factor (if count_boundary f (length cur + 1) hash_boundary then [] else cur @ [i]) d'"
proof -
  obtain d' where o: "observe xxh64 (fst i) (fst (snd i)) (of_nat (ilen f level (cur @ [i]) - ilen f level cur)) d =
      Inr (count_boundary f (length cur + 1) hash_boundary, d')"
    "counting f level seed factor (if count_boundary f (length cur + 1) hash_boundary then [] else cur @ [i]) d'"
    using observe_counting [OF assms(1,2,4,5)] .
  have "ref_chunks xxh64 f level (i # rest) cur d =
      (if count_boundary f (length cur + 1) hash_boundary
       then map_ok ((#) (cur @ [i])) (ref_chunks xxh64 f level rest [] d')
       else ref_chunks xxh64 f level rest (cur @ [i]) d')"
    unfolding ref_chunks.simps Let_def if_not_P [OF assms(3)] o(1) using assms(3,4)
    by (cases "ref_chunks xxh64 f level rest (cur @ [i]) d'") (auto simp: not_less map_ok_def)
  with o(2) that show thesis by blast
qed

lemma ref_flush:
  assumes "cur \<noteq> []" "unat (cs_hard_max_node_bytes (tf_chunking f)) < ilen f level (cur @ [i])"
  shows "ref_chunks xxh64 f level (i # rest) cur d =
    map_ok ((#) cur) (ref_chunks xxh64 f level (i # rest) [] (detector_reset d))"
  using assms by (auto simp: Let_def and_then_def split: sum.split prod.split)

lemma counts_loop_ref:
  assumes "level_ok f level items"
    "\<And>g. level_ok f level g \<Longrightarrow> set g \<subseteq> set items \<Longrightarrow> length g \<le> unat (cs_max (tf_chunking f)) \<Longrightarrow>
       ilen f level g \<le> unat (cs_hard_max_node_bytes (tf_chunking f))"
  shows "items = pre @ cur @ rest \<Longrightarrow> counting f level seed factor cur d \<Longrightarrow> length cur < unat (cs_max (tf_chunking f)) \<Longrightarrow>
    Inr (case counts_loop (tf_chunking f) (map (\<lambda>i. (hit xxh64 seed (cs_input (tf_chunking f)) factor i, u i)) rest)
        (length pre + length cur) (length pre) ranges of (start, ranges) \<Rightarrow>
        if start < length items then ranges @ [(start, length items - 1)] else ranges) =
    map_ok (\<lambda>gs. ranges @ ranges_from (length pre) gs) (ref_chunks xxh64 f level rest cur d)"
proof (induction rest arbitrary: pre cur d ranges)
  case Nil
  then show ?case by auto
next
  case (Cons i rest)
  let ?h = "hit xxh64 seed (cs_input (tf_chunking f)) factor i"
  let ?B = "count_boundary f (length cur + 1) ?h"
  have lev: "level_ok f level (cur @ [i])"
    using assms(1) level_ok_part [of f level pre "cur @ [i]" rest] by (simp add: Cons.prems(1))
  have fits: "ilen f level (cur @ [i]) \<le> unat (cs_hard_max_node_bytes (tf_chunking f))"
    using Cons.prems(1,3) by (intro assms(2) [OF lev]) auto
  then have "\<not> (cur \<noteq> [] \<and> unat (cs_hard_max_node_bytes (tf_chunking f)) < ilen f level (cur @ [i]))" by simp
  from ref_step [OF Cons.prems(2) lev this fits refl, of xxh64 rest] obtain d' where ref:
    "ref_chunks xxh64 f level (i # rest) cur d =
      (if ?B then map_ok ((#) (cur @ [i])) (ref_chunks xxh64 f level rest [] d') else ref_chunks xxh64 f level rest (cur @ [i]) d')"
    "counting f level seed factor (if ?B then [] else cur @ [i]) d'" .
  have n: "length cur + 1 < 2 ^ 64" using ilen_eq(5) [OF lev] by (simp add: in_memory_def)
  have b: "(cs_max (tf_chunking f) \<le> of_nat (length pre + length cur - length pre + 1) \<or>
      (cs_min (tf_chunking f) \<le> of_nat (length pre + length cur - length pre + 1) \<and> ?h)) = ?B"
    by (simp add: count_boundary_def)
  show ?case
  proof (cases ?B)
    case True
    have "0 < unat (cs_max (tf_chunking f))" using Cons.prems(3) by simp
    with Cons.IH [of "pre @ cur @ [i]" "[]" d' "ranges @ [(length pre, length pre + length cur)]"] Cons.prems(1) ref True
    show ?thesis unfolding list.map counts_loop.simps Let_def fst_conv b by simp
  next
    case False
    then have "length (cur @ [i]) < unat (cs_max (tf_chunking f))"
      using n by (simp add: count_boundary_def word_le_nat_alt unat_of_nat_u64 del: of_nat_Suc)
    with Cons.IH [of pre "cur @ [i]" d' ranges] Cons.prems(1) ref False
    show ?thesis unfolding list.map counts_loop.simps Let_def fst_conv b by simp
  qed
qed

text \<open>
  A full node closes at once here, and at the next entry in the serial loop; the groups are
  the same.
\<close>

lemma ref_close:
  assumes "counting f level seed factor cur d" "level_ok f level (cur @ i # rest)"
    "\<not> (cur \<noteq> [] \<and> unat (cs_hard_max_node_bytes (tf_chunking f)) < ilen f level (cur @ [i]))"
    "ilen f level (cur @ [i]) \<le> unat (cs_hard_max_node_bytes (tf_chunking f))"
    "hash_boundary = hit xxh64 seed (cs_input (tf_chunking f)) factor i"
    "boundary \<longleftrightarrow> unat (cs_hard_max_node_bytes (tf_chunking f)) \<le> ilen f level (cur @ [i]) \<or>
       count_boundary f (length cur + 1) hash_boundary"
  obtains d' where "ref_chunks xxh64 f level (i # rest) cur d =
      (if boundary then map_ok ((#) (cur @ [i])) (ref_chunks xxh64 f level rest [] d')
       else ref_chunks xxh64 f level rest (cur @ [i]) d')"
    "counting f level seed factor (if boundary then [] else cur @ [i]) d'"
proof -
  let ?B = "count_boundary f (length cur + 1) hash_boundary"
  have lev: "level_ok f level (cur @ [i])" using level_ok_append [of f level "cur @ [i]" rest] assms(2) by simp
  obtain d' where d': "ref_chunks xxh64 f level (i # rest) cur d =
      (if ?B then map_ok ((#) (cur @ [i])) (ref_chunks xxh64 f level rest [] d')
       else ref_chunks xxh64 f level rest (cur @ [i]) d')"
    "counting f level seed factor (if ?B then [] else cur @ [i]) d'"
    using ref_step [OF assms(1) lev assms(3-5)] .
  show thesis
  proof (cases "boundary \<and> \<not> ?B")
    case True
    then have full: "ilen f level (cur @ [i]) = unat (cs_hard_max_node_bytes (tf_chunking f))" using assms(4,6) by auto
    show ?thesis
      using True d' ref_chunks_full [OF _ _ full, of rest xxh64 d'] assms(2) counting_reset that [of "detector_reset d'"] by auto
  next
    case False
    then have "boundary = ?B" using assms(6) by blast
    with d' that show ?thesis by simp
  qed
qed

lemma hashes_loop_ref:
  assumes "level_ok (cfg_format cfg) level items" "counts_match child_counts items"
    "hs = map (hit xxh64 seed (cs_input (tf_chunking (cfg_format cfg))) factor)"
  shows "items = pre @ cur @ rest \<Longrightarrow> sizer_ok (cfg_format cfg) (level = 0) level cur siz \<Longrightarrow>
    counting (cfg_format cfg) level seed factor cur d \<Longrightarrow>
    hashes_loop cfg (item_entries items) child_counts (zip (item_entries rest) (hs rest)) (length pre + length cur) (length pre) siz ranges =
    map_ok (\<lambda>gs. ranges @ ranges_from (length pre) gs) (ref_chunks xxh64 (cfg_format cfg) level rest cur d)"
proof (induction rest arbitrary: pre cur siz d ranges)
  case Nil
  then show ?case by (auto simp: item_entries_def)
next
  case (Cons i rest)
  let ?f = "cfg_format cfg" let ?limit = "cs_hard_max_node_bytes (tf_chunking ?f)"
  let ?S = "hashes_loop cfg (item_entries items) child_counts (zip (item_entries rest) (hs rest))"
  let ?h = "hit xxh64 seed (cs_input (tf_chunking ?f)) factor i"
  from level_step [OF assms(1,2) Cons.prems(1,2)] obtain siz1 siz0 where step:
    "map_option (\<lambda>counts. counts ! (length pre + length cur)) child_counts = snd (snd i)"
    "size_after (last_key cur) (fst i) (fst (snd i)) (snd (snd i)) siz = Inr (of_nat (ilen ?f level (cur @ [i])))"
    "size_after None (fst i) (fst (snd i)) (snd (snd i)) (sizer_reset siz) = Inr (of_nat (ilen ?f level [i]))"
    "push_sized (fst i) (fst (snd i)) (snd (snd i)) (of_nat (ilen ?f level (cur @ [i]))) siz = Inr siz1"
    "push_sized (fst i) (fst (snd i)) (snd (snd i)) (of_nat (ilen ?f level [i])) (sizer_reset siz) = Inr siz0"
    and inv: "sizer_ok ?f (level = 0) level (cur @ [i]) siz1" "sizer_ok ?f (level = 0) level [i] siz0"
    and lt: "ilen ?f level (cur @ [i]) < 2 ^ 64" "ilen ?f level [i] < 2 ^ 64" .
  have go: "?S (length p + length c + 1) (if b then length p + length c + 1 else length p) (if b then sizer_reset s else s)
        (if b then r @ [(length p, length p + length c)] else r) =
      map_ok (\<lambda>gs. r @ ranges_from (length p) gs) (if b then map_ok ((#) (c @ [i])) (ref_chunks xxh64 ?f level rest [] d')
        else ref_chunks xxh64 ?f level rest (c @ [i]) d')"
    if "sizer_ok ?f (level = 0) level (c @ [i]) s" "counting ?f level seed factor (if b then [] else c @ [i]) d'"
      "p @ c = pre @ cur" for d' s r p c b
    using Cons.IH [of p "c @ [i]" s d' r] Cons.IH [of "p @ c @ [i]" "[]" "sizer_reset s" d' "r @ [(length p, length p + length c)]"]
      that sizer_reset_ok [OF that(1)] Cons.prems(1) by (cases b) auto
  have tail: "(if ?limit < of_nat (ilen ?f level (c @ [i])) then Inl (EntryTooLarge (of_nat (ilen ?f level (c @ [i]))) ?limit)
      else and_then (push_sized (fst i) (fst (snd i)) (snd (snd i)) (of_nat (ilen ?f level (c @ [i]))) s) (\<lambda>siz.
        if ?limit \<le> of_nat (ilen ?f level (c @ [i])) \<or> cs_max (tf_chunking ?f) \<le> of_nat (length p + length c - length p + 1) \<or>
          (cs_min (tf_chunking ?f) \<le> of_nat (length p + length c - length p + 1) \<and> ?h)
        then ?S (length p + length c + 1) (length p + length c + 1) (sizer_reset siz) (r @ [(length p, length p + length c)])
        else ?S (length p + length c + 1) (length p) siz r)) =
      map_ok (\<lambda>gs. r @ ranges_from (length p) gs) (ref_chunks xxh64 ?f level (i # rest) c d')" (is "?L = ?R")
    if c: "push_sized (fst i) (fst (snd i)) (snd (snd i)) (of_nat (ilen ?f level (c @ [i]))) s = Inr s1"
      "sizer_ok ?f (level = 0) level (c @ [i]) s1" "counting ?f level seed factor c d'" "p @ c = pre @ cur"
      "\<not> (c \<noteq> [] \<and> unat ?limit < ilen ?f level (c @ [i]))" "ilen ?f level (c @ [i]) < 2 ^ 64" for d' s s1 r p c
  proof (cases "unat ?limit < ilen ?f level (c @ [i])")
    case True
    then show ?thesis using c(5) u64_less_of_nat [OF c(6)] by (auto simp: Let_def)
  next
    case False
    have lev: "level_ok ?f level (c @ i # rest)"
      using assms(1) Cons.prems(1) c(4) level_ok_append [of ?f level p "c @ i # rest"] by (metis append.assoc)
    obtain d1 where d1: "ref_chunks xxh64 ?f level (i # rest) c d' =
        (if unat ?limit \<le> ilen ?f level (c @ [i]) \<or> count_boundary ?f (length c + 1) ?h
         then map_ok ((#) (c @ [i])) (ref_chunks xxh64 ?f level rest [] d1) else ref_chunks xxh64 ?f level rest (c @ [i]) d1)"
      "counting ?f level seed factor (if unat ?limit \<le> ilen ?f level (c @ [i]) \<or> count_boundary ?f (length c + 1) ?h
         then [] else c @ [i]) d1"
      using ref_close [OF c(3) lev c(5) _ refl refl] False by (metis not_less)
    have le: "?limit \<le> of_nat (ilen ?f level (c @ [i])) \<longleftrightarrow> unat ?limit \<le> ilen ?f level (c @ [i])"
      using c(6) by (simp add: word_le_nat_alt unat_of_nat_u64)
    show ?thesis
      using False go [OF c(2) d1(2) c(4), of r] unfolding d1(1) c(1) and_then_simps le u64_less_of_nat [OF c(6)]
      by (auto simp: count_boundary_def split: if_splits)
  qed
  have hs: "hs (i # rest) = ?h # hs rest" by (simp add: assms(3))
  note unfold = item_entries_Cons hs zip_Cons_Cons hashes_loop.simps fst_conv snd_conv Let_def step(1)
    previous_key_eq [OF Cons.prems(1)] step(2,3) and_then_simps
  show ?case
  proof (cases "cur \<noteq> [] \<and> unat ?limit < ilen ?f level (cur @ [i])")
    case True
    then have flush: "length pre < length pre + length cur \<and> ?limit < of_nat (ilen ?f level (cur @ [i]))"
      using u64_less_of_nat [OF lt(1)] by simp
    note t = tail [of "[]" _ _ _ "pre @ cur", unfolded append_Nil append_Nil2 length_append list.size add_0_right,
        OF step(5) inv(2) counting_reset [OF Cons.prems(3)] refl _ lt(2)]
    show ?thesis
      unfolding unfold if_P [OF flush] prod.case ref_flush [OF conjunct1 [OF True] conjunct2 [OF True]]
      by (subst t) simp_all
  next
    case False
    then have stay: "\<not> (length pre < length pre + length cur \<and> ?limit < of_nat (ilen ?f level (cur @ [i])))"
      using u64_less_of_nat [OF lt(1)] by simp
    show ?thesis
      unfolding unfold if_not_P [OF stay] prod.case
      by (rule tail [OF step(4) inv(1) Cons.prems(3) refl False lt(1)])
  qed
qed

section \<open>The dispatch\<close>

definition level_counts :: "u8 \<Rightarrow> item list \<Rightarrow> u64 list option" where
  "level_counts level items = (if level = 0 then None else Some (item_counts items))"

lemma internal_item_counts:
  assumes "items_ok False items"
  shows "length (item_counts items) = length items \<and> (\<forall>i < length items. snd (snd (items ! i)) = Some (item_counts items ! i))"
  using assms
proof (induction items)
  case (Cons x items)
  obtain k v c where x: "x = (k, v, Some c)"
    using Cons.prems by (cases x) (auto simp: items_ok_def validate_child_count_def split: option.splits if_splits)
  show ?case using Cons by (auto simp: x item_counts_def items_ok_def List.map_filter_simps nth_Cons split: nat.splits)
qed (simp add: item_counts_def List.map_filter_simps)

lemma level_counts_ok:
  assumes "level_ok f level items"
  shows "counts_match (level_counts level items) items"
    "\<not> (if level = 0 then level_counts level items \<noteq> None
        else (case level_counts level items of None \<Rightarrow> True | Some counts \<Rightarrow> length counts \<noteq> length (item_entries items)))"
proof -
  have "items_ok (level = 0) items" using assms by (simp add: level_ok_def)
  then have leaf: "level = 0 \<Longrightarrow> i < length items \<Longrightarrow> snd (snd (items ! i)) = None" and inner: "level \<noteq> 0 \<Longrightarrow> items_ok False items" for i
    by (auto simp: items_ok_def validate_child_count_def dest!: nth_mem split: option.splits prod.splits)
      (metis prod.collapse)
  then show "counts_match (level_counts level items) items"
    "\<not> (if level = 0 then level_counts level items \<noteq> None
        else (case level_counts level items of None \<Rightarrow> True | Some counts \<Rightarrow> length counts \<noteq> length (item_entries items)))"
    using internal_item_counts [OF inner] by (auto simp: counts_match_def level_counts_def)
qed

lemma upper_len_member: "i \<in> set g \<Longrightarrow> length (fst i) + length (fst (snd i)) + 64 \<le> upper_len g"
proof (induction g)
  case (Cons j g)
  then show ?case by (cases j) auto
qed simp

lemma upper_len_le: "(\<And>i. i \<in> set g \<Longrightarrow> length (fst i) + length (fst (snd i)) + 64 \<le> m) \<Longrightarrow> upper_len g \<le> length g * m"
proof (induction g)
  case (Cons i g)
  then have "upper_len g \<le> length g * m" "length (fst i) + length (fst (snd i)) + 64 \<le> m" by auto
  then show ?case by (cases i) simp
qed simp

text \<open>No node of at most \<open>max\<close> entries can reach the cap when the bound of the dispatch holds.\<close>

lemma upper_bound_fits:
  assumes "level_ok f level g" "length g \<le> unat mx" "sz = of_nat (ilen f level [])"
    "\<And>i. i \<in> set g \<Longrightarrow> saturating_add (saturating_add (of_nat (length (fst i))) (of_nat (length (fst (snd i))))) 64 \<le> bound"
    "saturating_add sz (saturating_mul bound mx) \<le> limit"
  shows "ilen f level g \<le> unat limit"
proof -
  have lt: "ilen f level g < 2 ^ 64" "ilen f level g \<le> ilen f level [] + upper_len g" "ilen f level [] < 2 ^ 64"
    using ilen_eq [OF assms(1)] ilen_eq(4) [of f level "[]"] level_ok_append [of f level "[]" g] assms(1) by auto
  have up: "upper_len g < 2 ^ 64" using assms(1) by (auto simp: level_ok_def)
  have "length (fst i) + length (fst (snd i)) + 64 \<le> unat bound" if i: "i \<in> set g" for i
  proof -
    have "length (fst i) + length (fst (snd i)) + 64 \<le> upper_len g" using upper_len_member [OF i] .
    then have "length (fst i) + length (fst (snd i)) + 64 < 2 ^ 64" using up by simp
    with assms(4) [OF i] show ?thesis
      using saturating_add_of_nat [of "length (fst i)" "length (fst (snd i))"]
        saturating_add_of_nat [of "length (fst i) + length (fst (snd i))" 64]
      by (simp add: word_le_nat_alt unat_of_nat_u64 del: of_nat_add)
  qed
  then have "upper_len g \<le> length g * unat bound" by (rule upper_len_le)
  also have "\<dots> \<le> unat bound * unat mx" using assms(2) by simp
  finally show ?thesis
    using lt assms(3,5) by (auto simp: word_le_nat_alt unat_saturating_add unat_saturating_mul unat_of_nat_u64 min_def split: if_splits)
qed

lemma collect_results_total: "(\<And>x. x \<in> set xs \<Longrightarrow> r x = Inr (g x)) \<Longrightarrow> collect_results (map r xs) = Inr (map g xs)"
  by (induction xs) auto

lemma fold_max_ge: "x \<in> set xs \<Longrightarrow> (x :: u64) \<le> fold max xs a"
proof (induction xs arbitrary: a)
  case (Cons y ys)
  have "a \<le> fold max zs a" for zs and a :: u64
  proof (induction zs arbitrary: a)
    case (Cons z zs)
    then show ?case using order_trans [of a "max z a" "fold max zs (max z a)"] by simp
  qed simp
  from this [of "max y a" ys] Cons show ?case by auto
qed simp

text \<open>
  Every call of the dispatch is the reference under some detector: the level's own detector in
  the serial loop, and one that keeps the unadjusted bounds in the parallel loops.
\<close>

lemma dispatch_serial:
  assumes "level_ok (cfg_format cfg) level items" "detector_new (tf_chunking (cfg_format cfg)) (ucast level) = Inr det"
    "parallel_hashing \<Longrightarrow> \<not> supports_independent_hashing det"
  shows "chunk_ranges_for_entries_impl xxh64 cfg level (item_entries items) (level_counts level items) parallel_hashing =
    map_ok (ranges_from 0) (ref_chunks xxh64 (cfg_format cfg) level items [] det)"
proof -
  obtain siz where siz: "sizer_new (cfg_format cfg) (level = 0) level = Inr siz"
    using assms(1) sizer_new_total [of "cfg_format cfg" "level = 0" level] by (auto simp: level_ok_def)
  have serial: "\<not> (parallel_hashing \<and> supports_independent_hashing det)" using assms(3) by blast
  from serial_ranges_ref [OF assms(1) level_counts_ok(1) [OF assms(1)], of "[]" "[]" items siz xxh64 det "[]"] sizer_new_ok [OF siz]
  show ?thesis
    unfolding chunk_ranges_for_entries_impl_def if_not_P [OF level_counts_ok(2) [OF assms(1)]] assms(2) and_then_simps siz if_not_P [OF serial]
    by (simp add: siz)
qed

lemma entry_boundary_hit:
  assumes "counting f level seed factor cur det"
  shows "entry_boundary xxh64 det e = Inr (hit xxh64 seed (cs_input (tf_chunking f)) factor (fst e, snd e, c),
    saturating_add (saturating_add (of_nat (length (fst e))) (of_nat (length (snd e)))) 64)"
proof -
  have "cs_measure (tf_chunking f) = EntryCount" "cs_rule (tf_chunking f) = HashThreshold factor" "factor \<noteq> 0"
    "bd_seed det = seed" "bd_spec det = tf_chunking f" using assms by (auto simp: counting_def)
  then show ?thesis by (simp add: entry_boundary_def independent_hash_boundary_def threshold_hit_def hit_def)
qed

lemma entry_boundary_spec:
  "cs_rule s = cs_rule (bd_spec det) \<Longrightarrow> cs_measure s = cs_measure (bd_spec det) \<Longrightarrow> cs_input s = cs_input (bd_spec det) \<Longrightarrow>
    entry_boundary xxh64 (det\<lparr>bd_spec := s\<rparr>) e = entry_boundary xxh64 det e"
  by (simp add: entry_boundary_def independent_hash_boundary_def split: boundary_rule.split)

definition upper :: "item \<Rightarrow> u64" where
  "upper i = saturating_add (saturating_add (of_nat (length (fst i))) (of_nat (length (fst (snd i))))) 64"

lemma counts_dispatch:
  assumes "level_ok f level items" "counting f level seed factor [] det" "0 < unat (cs_max (tf_chunking f))"
    "marks = map (\<lambda>i. (hit xxh64 seed (cs_input (tf_chunking f)) factor i, upper i)) items"
    "saturating_add (of_nat (ilen f level [])) (saturating_mul (fold max (map snd marks) 0) (cs_max (tf_chunking f)))
      \<le> cs_hard_max_node_bytes (tf_chunking f)"
  shows "Inr (chunk_ranges_from_independent_counts (tf_chunking f) marks) =
    map_ok (ranges_from 0) (ref_chunks xxh64 f level items [] det)"
proof -
  have fits: "ilen f level g \<le> unat (cs_hard_max_node_bytes (tf_chunking f))"
    if g: "level_ok f level g" "set g \<subseteq> set items" "length g \<le> unat (cs_max (tf_chunking f))" for g
  proof (rule upper_bound_fits [OF g(1,3) refl _ assms(5)])
    fix i assume "i \<in> set g"
    then have "upper i \<in> set (map snd marks)" using g(2) by (auto simp: assms(4))
    then show "saturating_add (saturating_add (of_nat (length (fst i))) (of_nat (length (fst (snd i))))) 64
        \<le> fold max (map snd marks) 0" unfolding upper_def by (rule fold_max_ge)
  qed
  from counts_loop_ref [OF assms(1) this, of "[]" "[]" items seed factor det xxh64 upper "[]"] assms(2,3)
  show ?thesis unfolding chunk_ranges_from_independent_counts_def assms(4) length_map Let_def by simp
qed

lemma hashes_dispatch:
  assumes "level_ok (cfg_format cfg) level items" "counting (cfg_format cfg) level seed factor [] det"
  shows "chunk_ranges_from_independent_hashes cfg level (item_entries items) (level_counts level items)
      (map (hit xxh64 seed (cs_input (tf_chunking (cfg_format cfg))) factor) items) =
    map_ok (ranges_from 0) (ref_chunks xxh64 (cfg_format cfg) level items [] det)"
proof -
  obtain siz where siz: "sizer_new (cfg_format cfg) (level = 0) level = Inr siz"
    using assms(1) sizer_new_total [of "cfg_format cfg" "level = 0" level] by (auto simp: level_ok_def)
  from hashes_loop_ref [OF assms(1) level_counts_ok(1) [OF assms(1)] refl, of "[]" "[]" items siz seed factor det xxh64 "[]"]
    sizer_new_ok [OF siz] assms(2)
  show ?thesis by (simp add: chunk_ranges_from_independent_hashes_def siz)
qed

lemma dispatch_parallel:
  assumes "level_ok (cfg_format cfg) level items" "detector_new (tf_chunking (cfg_format cfg)) (ucast level) = Inr det"
    "supports_independent_hashing det"
  shows "chunk_ranges_for_entries_impl xxh64 cfg level (item_entries items) (level_counts level items) True =
    map_ok (ranges_from 0) (ref_chunks xxh64 (cfg_format cfg) level items [] (det\<lparr>bd_spec := tf_chunking (cfg_format cfg)\<rparr>))"
proof -
  let ?f = "cfg_format cfg" let ?spec = "tf_chunking ?f" let ?det = "det\<lparr>bd_spec := ?spec\<rparr>"
  obtain siz where siz: "sizer_new ?f (level = 0) level = Inr siz"
    using assms(1) sizer_new_total [of ?f "level = 0" level] by (auto simp: level_ok_def)
  note ok = sizer_new_ok [OF siz]
  have valid: "chunking_validate ?spec = Inr ()" and bd: "bd_spec det = level_spec ?spec (ucast level)"
    and zero: "bd_entries det = 0" "bd_encoded_bytes det = 0"
    using assms(2) by (auto simp: detector_new_def and_then_Inr_iff Let_def)
  then have same: "cs_rule ?spec = cs_rule (bd_spec det)" "cs_measure ?spec = cs_measure (bd_spec det)" "cs_input ?spec = cs_input (bd_spec det)"
    by (auto simp: level_spec_def)
  obtain factor where factor: "cs_rule ?spec = HashThreshold factor" "cs_measure ?spec = EntryCount"
    using assms(3) same by (auto simp: supports_independent_hashing_def split: boundary_rule.splits)
  then have cnt: "counting ?f level (bd_seed det) factor [] ?det"
    using valid zero by (auto simp: counting_def chunking_validate_iff)
  let ?hit = "hit xxh64 (bd_seed det) (cs_input ?spec) factor"
  let ?marks = "map (\<lambda>i. (?hit i, upper i)) items"
  have eb: "collect_results (map (entry_boundary xxh64 det) (item_entries items)) = Inr ?marks"
    using entry_boundary_hit [OF cnt, unfolded entry_boundary_spec [OF same], of xxh64]
    by (auto simp: item_entries_def upper_def intro: collect_results_total)
  have max_pos: "0 < unat (cs_max ?spec)"
    using valid by (auto simp: chunking_validate_iff unat_gt_0)
  have "sz_size siz = of_nat (ilen ?f level [])" using sizer_new_ok [OF siz] by (simp add: sizer_ok_def ilen_def)
  with counts_dispatch [OF assms(1) cnt max_pos refl, of xxh64] hashes_dispatch [OF assms(1) cnt, of xxh64]
  show ?thesis
    unfolding chunk_ranges_for_entries_impl_def if_not_P [OF level_counts_ok(2) [OF assms(1)]] assms(2) and_then_simps siz
    using assms(3) by (simp add: eb Let_def comp_def)
qed

lemma detector_new_total:
  "level_ok f level items \<Longrightarrow> \<exists>det. detector_new (tf_chunking f) (ucast level) = Inr det"
  by (auto simp: level_ok_def format_validate_def and_then_Inr_iff detector_new_def Let_def)

lemma dispatch_ref:
  assumes "level_ok (cfg_format cfg) level items"
  obtains det where "chunk_ranges_for_entries_impl xxh64 cfg level (item_entries items) (level_counts level items) parallel_hashing =
    map_ok (ranges_from 0) (ref_chunks xxh64 (cfg_format cfg) level items [] det)"
    "detector_ok xxh64 det []" "cs_hard_max_node_bytes (bd_spec det) = hard_max cfg"
proof -
  obtain det where det: "detector_new (tf_chunking (cfg_format cfg)) (ucast level) = Inr det"
    using detector_new_total [OF assms] by blast
  note ok = detector_new_ok [OF det, of xxh64]
  have valid: "chunking_validate (tf_chunking (cfg_format cfg)) = Inr ()"
    using det by (auto simp: detector_new_def and_then_Inr_iff)
  show thesis
  proof (cases "parallel_hashing \<and> supports_independent_hashing det")
    case True
    then have "\<not> is_rolling (cs_rule (tf_chunking (cfg_format cfg)))"
      using ok by (auto simp: supports_independent_hashing_def level_spec_def split: boundary_rule.splits if_splits)
    then have "detector_ok xxh64 (det\<lparr>bd_spec := tf_chunking (cfg_format cfg)\<rparr>) []"
      using valid by (auto simp: detector_ok_def split: boundary_rule.split)
    then show ?thesis
      using True that [of "det\<lparr>bd_spec := tf_chunking (cfg_format cfg)\<rparr>"] dispatch_parallel [OF assms det, of xxh64]
      by (simp add: hard_max_def)
  next
    case False
    have "cs_hard_max_node_bytes (bd_spec det) = hard_max cfg" using ok by (simp add: level_spec_def hard_max_def)
    then show ?thesis using that [of det] dispatch_serial [OF assms det, of parallel_hashing xxh64] ok False by blast
  qed
qed

lemma ref_chunks_error:
  assumes "level_ok f level (cur @ rest)" "detector_ok xxh64 d fed"
    "cs_hard_max_node_bytes (bd_spec d) = cs_hard_max_node_bytes (tf_chunking f)"
    "ref_chunks xxh64 f level rest cur d = Inl e"
  shows "\<exists>i \<in> set rest. unat (cs_hard_max_node_bytes (tf_chunking f)) < ilen f level [i] \<and>
    e = EntryTooLarge (of_nat (ilen f level [i])) (cs_hard_max_node_bytes (tf_chunking f))"
  using assms
proof (induction rest arbitrary: cur d fed)
  case (Cons i rest)
  let ?limit = "cs_hard_max_node_bytes (tf_chunking f)"
  define flush where "flush \<longleftrightarrow> cur \<noteq> [] \<and> unat ?limit < ilen f level (cur @ [i])"
  define base where "base = (if flush then [] else cur)"
  define det where "det = (if flush then detector_reset d else d)"
  note P = Cons.prems(4) [unfolded ref_chunks.simps Let_def, folded flush_def, folded base_def det_def]
  have lev: "level_ok f level (base @ [i])" "level_ok f level (base @ i # rest)"
    using Cons.prems(1) level_ok_append [of f level cur "i # rest"] level_ok_append [of f level "base @ [i]" rest]
    by (auto simp: base_def)
  have spec: "bd_spec (detector_reset x) = bd_spec x" for x by (simp add: detector_reset_def)
  obtain fed' where ok: "detector_ok xxh64 det fed'" "bd_spec det = bd_spec d"
    using Cons.prems(2) detector_ok_reset [OF Cons.prems(2)] spec by (cases flush) (auto simp: det_def)
  show ?case
  proof (cases "unat ?limit < ilen f level (base @ [i])")
    case True
    then have "base = []" by (auto simp: base_def flush_def split: if_splits)
    then show ?thesis using P True by auto
  next
    case False
    let ?enc = "of_nat (ilen f level (base @ [i]) - ilen f level base) :: u64"
    have "\<not> ?limit < ?enc"
      using False ilen_eq(4) [OF lev(1)] by (simp add: word_less_nat_alt unat_of_nat_u64 del: of_nat_diff)
    then have "\<not> (bd_entries det = 0 \<and> cs_hard_max_node_bytes (bd_spec det) < ?enc)" using ok(2) Cons.prems(3) by simp
    from observe_step [OF ok(1) this, of "fst i" "fst (snd i)"] obtain b d2 where
      o: "observe xxh64 (fst i) (fst (snd i)) ?enc det = Inr (b, if b then detector_reset d2 else d2)"
      and s: "same_counters (observe_counters (fst i) (fst (snd i)) ?enc det) d2"
      and ok2: "detector_ok xxh64 d2 (fed' @ hash_input (cs_input (bd_spec det)) (fst i) (fst (snd i)))" .
    have "cs_hard_max_node_bytes (bd_spec (if b then detector_reset d2 else d2)) = ?limit"
      using s ok(2) Cons.prems(3) spec by (simp add: same_counters_def observe_counters_def)
    moreover have "ref_chunks xxh64 f level rest (if b then [] else base @ [i]) (if b then detector_reset d2 else d2) = Inl e"
      using P False by (auto simp: o and_then_def split: sum.splits if_splits)
    moreover have "level_ok f level ((if b then [] else base @ [i]) @ rest)"
      using lev(2) level_ok_append [of f level "base @ [i]" rest] by auto
    moreover have "detector_ok xxh64 (if b then detector_reset d2 else d2)
        (if b then [] else fed' @ hash_input (cs_input (bd_spec det)) (fst i) (fst (snd i)))"
      using ok2 detector_ok_reset by auto
    ultimately show ?thesis using Cons.IH by (meson list.set_intros(2))
  qed
qed (simp split: if_splits)

text \<open>
  The parallel loops take the bounds of the configuration, not those the detector raises on
  internal levels.  With a maximum of one every internal entry then becomes a node of its own.
\<close>

lemma count_boundary_unit: "cs_max (tf_chunking f) = 1 \<Longrightarrow> count_boundary f (length [] + 1) h"
  by (simp add: count_boundary_def)

lemma ref_chunks_unit:
  assumes "cs_max (tf_chunking f) = 1"
  shows "level_ok f level rest \<Longrightarrow> counting f level seed factor [] d \<Longrightarrow> ref_chunks xxh64 f level rest [] d = Inr gs \<Longrightarrow>
    length gs = length rest"
proof (induction rest arbitrary: d gs)
  case (Cons i rest)
  have lev: "level_ok f level ([] @ [i])" "level_ok f level rest"
    using level_ok_append [of f level "[i]" rest] Cons.prems(1) by auto
  have fits: "ilen f level ([] @ [i]) \<le> unat (cs_hard_max_node_bytes (tf_chunking f))"
    using Cons.prems(3) by (auto simp: Let_def split: if_splits)
  obtain d' where d': "ref_chunks xxh64 f level (i # rest) [] d = map_ok ((#) [i]) (ref_chunks xxh64 f level rest [] d')"
    "counting f level seed factor [] d'"
    using ref_step [OF Cons.prems(2) lev(1) _ fits refl, of xxh64 rest] count_boundary_unit [OF assms] by auto
  obtain hs where "gs = [i] # hs" "ref_chunks xxh64 f level rest [] d' = Inr hs"
    using Cons.prems(3) unfolding d'(1) map_ok_Inr_iff by blast
  then show ?case using Cons.IH [OF lev(2) d'(2)] by simp
qed simp

lemma unit_chunks_never_shrink:
  assumes "level_ok (cfg_format cfg) level items" "tf_chunking (cfg_format cfg) = unit_chunks" "1024 \<le> length items"
    "chunk_ranges_for_entries_parallel xxh64 cfg level (item_entries items) (level_counts level items) = Inr ranges"
  shows "length ranges = length items"
proof -
  obtain det where det: "detector_new (tf_chunking (cfg_format cfg)) (ucast level) = Inr det"
    using detector_new_total [OF assms(1)] by blast
  have bd: "bd_spec det = level_spec unit_chunks (ucast level)" "bd_entries det = 0" "bd_encoded_bytes det = 0"
    using det by (auto simp: assms(2) detector_new_def and_then_Inr_iff Let_def)
  then have "supports_independent_hashing det"
    by (simp add: supports_independent_hashing_def level_spec_def unit_chunks_def chunking_default_def entry_count_key_hash_def)
  from dispatch_parallel [OF assms(1) det this, of xxh64] assms(3,4) obtain gs where
    gs: "ref_chunks xxh64 (cfg_format cfg) level items [] (det\<lparr>bd_spec := unit_chunks\<rparr>) = Inr gs" "ranges = ranges_from 0 gs"
    by (auto simp: chunk_ranges_for_entries_parallel_def parallel_boundary_hash_min_entries_def map_ok_def and_then_Inr_iff assms(2))
  obtain factor where "counting (cfg_format cfg) level (bd_seed det) factor [] (det\<lparr>bd_spec := unit_chunks\<rparr>)"
    using bd by (simp add: counting_def assms(2) unit_chunks_def chunking_default_def entry_count_key_hash_def default_chunking_factor_def)
  from ref_chunks_unit [OF _ assms(1) this gs(1)] have "length gs = length items"
    by (simp add: assms(2) unit_chunks_def)
  moreover have "length (ranges_from s hs) = length hs" for s and hs :: "item list list"
    by (induction hs arbitrary: s) auto
  ultimately show ?thesis using gs(2) by simp
qed

section \<open>Errors\<close>

text \<open>The bytes of the custom value encoding's name, the only part of a registered format without a fixed bound.\<close>

definition name_len :: "tree_format \<Rightarrow> nat" where
  "name_len f = (case tf_value_encoding f of CustomEncoding name \<Rightarrow> length name | _ \<Rightarrow> 0)"

lemma item_len_empty:
  assumes "format_validate f = Inr ()" "registered f"
  obtains n where "item_len f leaf level [] = Inr n" "n \<le> 128 + name_len f"
proof -
  obtain fb where fb: "node_format_bytes f = Inr fb"
    using assms(1) by (cases "f = tree_format_default") (auto simp: node_format_bytes_def canonical_bytes_def)
  have "length fb \<le> 64 + name_len f"
    using fb length_canonical_bytes [of f fb] assms(2)
    by (auto simp: node_format_bytes_def name_len_def split: if_splits node_layout_spec.splits)
  moreover obtain n where "item_len f leaf level [] = Inr n" "n \<le> 4 + 10 + 10 + length fb + 10 + 10 + 10 + 10"
    using fb varint_len_le_10 [of "of_nat (length fb)"] varint_len_le_10 [of compact_version] varint_len_le_10 [of "ucast level"]
      varint_len_le_10 [of 0] varint_len_le_10 [of 1] assms(2)
    by (cases "tf_node_layout f"; cases leaf)
      (simp_all add: item_len_def try_encoded_len_def compact_magic_def entries_len_def node_entries_def)
  ultimately show thesis using that by simp
qed

lemma level_cut_error:
  assumes "level_ok (cfg_format cfg) level items"
    "chunk_ranges_for_entries_impl xxh64 cfg level (item_entries items) (level_counts level items) parallel_hashing = Inl e"
  shows "\<exists>i \<in> set items. \<exists>bs. to_bytes (item_node (cfg_format cfg) (level = 0) level [i]) = Inr bs \<and>
    unat (hard_max cfg) < length bs \<and> e = EntryTooLarge (of_nat (length bs)) (hard_max cfg)"
proof -
  obtain det where det: "chunk_ranges_for_entries_impl xxh64 cfg level (item_entries items) (level_counts level items) parallel_hashing =
      map_ok (ranges_from 0) (ref_chunks xxh64 (cfg_format cfg) level items [] det)"
    "detector_ok xxh64 det []" "cs_hard_max_node_bytes (bd_spec det) = hard_max cfg"
    by (rule dispatch_ref [OF assms(1)])
  have "ref_chunks xxh64 (cfg_format cfg) level items [] det = Inl e"
    using det(1) assms(2) by (cases "ref_chunks xxh64 (cfg_format cfg) level items [] det") auto
  from ref_chunks_error [of _ _ "[]", OF _ det(2) _ this] assms(1) det(3) obtain i where
    i: "i \<in> set items" "unat (hard_max cfg) < ilen (cfg_format cfg) level [i]"
    "e = EntryTooLarge (of_nat (ilen (cfg_format cfg) level [i])) (hard_max cfg)" by (auto simp: hard_max_def)
  have "level_ok (cfg_format cfg) level [i]"
    using i(1) assms(1) level_ok_part [of _ level _ "[i]"] by (metis append_Cons append_Nil split_list)
  then obtain bs where "to_bytes (item_node (cfg_format cfg) (level = 0) level [i]) = Inr bs"
    "length bs = ilen (cfg_format cfg) level [i]" using item_len_to_bytes [OF ilen_eq(1)] by blast
  with i show ?thesis by (intro bexI [of _ i] exI [of _ bs]) simp_all
qed

text \<open>The rows of a level from its entries and the counts of its children.\<close>

definition items_of :: "entry list \<Rightarrow> u64 list option \<Rightarrow> item list" where
  "items_of entries child_counts =
     (case child_counts of None \<Rightarrow> map (\<lambda>(k, v). (k, v, None)) entries
      | Some counts \<Rightarrow> map2 (\<lambda>(k, v) c. (k, v, Some c)) entries counts)"

definition aligned :: "u8 \<Rightarrow> entry list \<Rightarrow> u64 list option \<Rightarrow> bool" where
  "aligned level entries child_counts \<longleftrightarrow>
     (case child_counts of None \<Rightarrow> level = 0 | Some counts \<Rightarrow> level \<noteq> 0 \<and> length counts = length entries)"

lemma items_of_nth:
  assumes "aligned level entries child_counts"
  shows "length (items_of entries child_counts) = length entries"
    "i < length entries \<Longrightarrow> items_of entries child_counts ! i =
      (fst (entries ! i), snd (entries ! i), map_option (\<lambda>counts. counts ! i) child_counts)"
  using assms by (auto simp: items_of_def aligned_def split: option.splits prod.split)

lemma items_of_level:
  assumes "aligned level entries child_counts"
  shows "item_entries (items_of entries child_counts) = entries" "level_counts level (items_of entries child_counts) = child_counts"
    "upper_len (items_of entries child_counts) = sum_list (map (\<lambda>(k, v). length k + length v + 64) entries)"
proof -
  note len = items_of_nth(1) [OF assms] and nth = items_of_nth(2) [OF assms]
  show "item_entries (items_of entries child_counts) = entries"
    by (rule nth_equalityI) (simp_all add: item_entries_def len nth)
  have "upper_len items = sum_list (map (\<lambda>(k, v). length k + length v + 64) (item_entries items))" for items
    by (induction items) (auto simp: item_entries_def)
  then show "upper_len (items_of entries child_counts) = sum_list (map (\<lambda>(k, v). length k + length v + 64) entries)"
    by (simp add: \<open>item_entries (items_of entries child_counts) = entries\<close>)
  have "item_counts (map2 (\<lambda>(k, v) c. (k, v, Some c)) es cs) = cs" if "length cs = length es" for es :: "entry list" and cs
    using that by (induction es cs rule: list_induct2') (auto simp: item_counts_def List.map_filter_simps)
  then show "level_counts level (items_of entries child_counts) = child_counts"
    using assms by (auto simp: level_counts_def items_of_def aligned_def split: option.splits)
qed

lemma items_of_level_ok:
  assumes "aligned level entries child_counts" "\<forall>counts. child_counts = Some counts \<longrightarrow> 0 \<notin> set counts"
    "format_validate f = Inr ()" "registered f"
    "128 + name_len f + sum_list (map (\<lambda>(k, v). length k + length v + 64) entries) < 2 ^ 64"
  shows "level_ok f level (items_of entries child_counts)"
proof -
  obtain n where "item_len f (level = 0) level [] = Inr n" "n \<le> 128 + name_len f"
    by (rule item_len_empty [OF assms(3,4)])
  moreover have "validate_child_count (level = 0) (map_option (\<lambda>counts. counts ! i) child_counts) = Inr ()" if "i < length entries" for i
  proof (cases child_counts)
    case (Some counts)
    then have "counts ! i \<in> set counts" using assms(1) that by (auto simp: aligned_def)
    then have "counts ! i \<noteq> 0" using assms(2) Some by metis
    then show ?thesis using Some assms(1) by (simp add: validate_child_count_def aligned_def word_le_nat_alt unat_gt_0 Suc_le_eq)
  qed (use assms(1) in \<open>simp add: validate_child_count_def aligned_def\<close>)
  then have "items_ok (level = 0) (items_of entries child_counts)"
    using items_of_nth [OF assms(1)] by (auto simp: items_ok_def in_set_conv_nth)
  ultimately show ?thesis using assms(3-5) items_of_level(3) [OF assms(1)] by (auto simp: level_ok_def)
qed

text \<open>A child count of zero is refused when it is reached; up to there it is cut like a count of one.\<close>

definition fails_or_same :: "'e \<Rightarrow> 'e + 'a \<Rightarrow> 'e + 'a \<Rightarrow> bool" where
  "fails_or_same e a b \<longleftrightarrow> a = Inl e \<or> a = b"

lemma fails_or_same_refl [simp]: "fails_or_same e a a"
  by (simp add: fails_or_same_def)

lemma fails_or_same_and_then:
  "(\<And>x. m = Inr x \<Longrightarrow> fails_or_same e (f x) (g x)) \<Longrightarrow> fails_or_same e (and_then m f) (and_then m g)"
  by (cases m) (auto simp: fails_or_same_def)

lemma fails_or_same_if:
  "fails_or_same e a a' \<Longrightarrow> fails_or_same e b b' \<Longrightarrow> fails_or_same e (if c then a else b) (if c then a' else b')"
  by simp

lemma fails_or_same_prod:
  "(\<And>x y. fails_or_same e (f x y) (g x y)) \<Longrightarrow> fails_or_same e (case p of (x, y) \<Rightarrow> f x y) (case p of (x, y) \<Rightarrow> g x y)"
  by (cases p) simp

lemmas fails_or_same_intros = fails_or_same_and_then fails_or_same_prod fails_or_same_if

lemma size_after_zero: "size_after previous key val (Some 0) s = Inl InvalidNode"
  by (cases "sz_leaf s") (simp_all add: size_after_def validate_child_count_def)

lemma max_one_nth: "i < length counts \<Longrightarrow> counts ! i \<noteq> 0 \<Longrightarrow> map (max 1) counts ! i = (counts ! i :: u64)"
  by (simp add: max_def word_le_nat_alt unat_gt_0 Suc_le_eq)

lemma serial_ranges_zero:
  assumes "index + length rest = length counts"
  shows "fails_or_same InvalidNode (serial_ranges xxh64 cfg entries (Some counts) rest index start det siz ranges)
    (serial_ranges xxh64 cfg entries (Some (map (max 1) counts)) rest index start det siz ranges)"
  using assms
proof (induction rest arbitrary: index start det siz ranges)
  case (Cons e rest)
  show ?case
  proof (cases "counts ! index = 0")
    case False
    then have "map (max 1) counts ! index = counts ! index" using Cons.prems by (intro max_one_nth) simp_all
    then show ?thesis
      unfolding serial_ranges.simps Let_def option.map
      by (simp only:) (intro fails_or_same_intros Cons.IH, use Cons.prems in simp_all)
  qed (simp add: size_after_zero fails_or_same_def)
qed simp

lemma hashes_loop_zero:
  assumes "index + length rest = length counts"
  shows "fails_or_same InvalidNode (hashes_loop cfg entries (Some counts) rest index start siz ranges)
    (hashes_loop cfg entries (Some (map (max 1) counts)) rest index start siz ranges)"
  using assms
proof (induction rest arbitrary: index start siz ranges)
  case (Cons e rest)
  show ?case
  proof (cases "counts ! index = 0")
    case False
    then have "map (max 1) counts ! index = counts ! index" using Cons.prems by (intro max_one_nth) simp_all
    then show ?thesis
      unfolding hashes_loop.simps Let_def option.map
      by (simp only:) (intro fails_or_same_intros Cons.IH, use Cons.prems in simp_all)
  qed (simp add: size_after_zero fails_or_same_def)
qed simp

lemma length_collect_results: "collect_results xs = Inr ys \<Longrightarrow> length ys = length xs"
  by (induction xs arbitrary: ys) (auto simp: and_then_Inr_iff)

lemma chunk_ranges_zero:
  assumes "length counts = length entries" "level \<noteq> 0"
  shows "fails_or_same InvalidNode (chunk_ranges_for_entries_impl xxh64 cfg level entries (Some counts) parallel_hashing)
    (chunk_ranges_for_entries_impl xxh64 cfg level entries (Some (map (max 1) counts)) parallel_hashing)"
  unfolding chunk_ranges_for_entries_impl_def chunk_ranges_from_independent_hashes_def Let_def option.case length_map if_not_P [OF assms(2)]
  by (intro fails_or_same_intros serial_ranges_zero hashes_loop_zero)
    (use assms(1) in \<open>auto dest!: length_collect_results\<close>)

lemma item_len_max_one: "item_len f leaf level [(k, v, Some (max 1 c))] = item_len f leaf level [(k, v, Some c)]"
proof (cases "c = 0")
  case True
  have "varint_len (1 :: u64) = varint_len 0" by (simp add: varint_len.simps word_le_nat_alt)
  with True show ?thesis
    by (simp add: item_len_def try_encoded_len_def entries_len_def item_node_def item_counts_def List.map_filter_simps node_entries_def
        count_len_def count_at_def Let_def split: node_layout_spec.split)
next
  case False
  then show ?thesis by (simp add: max_def word_le_nat_alt unat_gt_0 Suc_le_eq)
qed

text \<open>The errors before the loops: the codec of the format, which is looked up after the hashes are computed.\<close>

lemma entry_boundaries_total:
  assumes "detector_new spec level = Inr det" "supports_independent_hashing det"
  shows "\<exists>marks. collect_results (map (entry_boundary xxh64 det) entries) = Inr marks"
proof -
  have "chunking_validate (bd_spec det) = Inr ()" using detector_new_ok [OF assms(1), of xxh64] unfolding detector_ok_def by blast
  then obtain factor where "cs_rule (bd_spec det) = HashThreshold factor" "factor \<noteq> 0" "cs_measure (bd_spec det) = EntryCount"
    using assms(2) by (auto simp: supports_independent_hashing_def chunking_validate_iff split: boundary_rule.splits)
  then have "\<exists>mark. entry_boundary xxh64 det e = Inr mark" for e
    by (simp add: entry_boundary_def independent_hash_boundary_def threshold_hit_def)
  then obtain mark where "\<And>e. entry_boundary xxh64 det e = Inr (mark e)" by metis
  then have "collect_results (map (entry_boundary xxh64 det) entries) = Inr (map mark entries)" by (induction entries) simp_all
  then show ?thesis by blast
qed

lemma chunk_ranges_codec_error:
  assumes "aligned level entries child_counts" "sizer_new (cfg_format cfg) (level = 0) level = Inl e"
  shows "chunk_ranges_for_entries_impl xxh64 cfg level entries child_counts parallel_hashing = Inl e"
proof -
  have ok: "\<not> (if level = 0 then child_counts \<noteq> None
      else (case child_counts of None \<Rightarrow> True | Some counts \<Rightarrow> length counts \<noteq> length entries))"
    using assms(1) by (auto simp: aligned_def split: option.splits)
  show ?thesis
  proof (cases "detector_new (tf_chunking (cfg_format cfg)) (ucast level)")
    case (Inl e')
    then have "chunking_validate (tf_chunking (cfg_format cfg)) = Inl e'"
      by (auto simp: detector_new_def Let_def and_then_def split: sum.splits)
    then have "e' = e" using assms(2) by (simp add: sizer_new_def format_validate_def)
    then show ?thesis using Inl ok by (simp add: chunk_ranges_for_entries_impl_def)
  next
    case (Inr det)
    then show ?thesis
      using ok entry_boundaries_total [OF Inr, of xxh64 entries] assms(2)
      by (auto simp: chunk_ranges_for_entries_impl_def Let_def)
  qed
qed

lemma sizer_new_error:
  assumes "sizer_new f leaf level = Inl e" "128 + name_len f < 2 ^ 64"
  shows "format_validate f = Inl e \<or> (\<not> registered f \<and> e = InvalidFormat ''node layout has no registered codec'')"
proof (cases "format_validate f")
  case (Inl e')
  then show ?thesis using assms(1) by (simp add: sizer_new_def)
next
  case (Inr u)
  show ?thesis
  proof (cases "registered f")
    case True
    obtain n where "item_len f leaf level [] = Inr n" "n \<le> 128 + name_len f"
      using item_len_empty [of f leaf level] Inr True by auto
    then show ?thesis using sizer_new_total [of f leaf level n] Inr True assms by auto
  next
    case False
    then show ?thesis using Inr assms(1) by (auto simp: sizer_new_def)
  qed
qed

lemma level_cut_position:
  assumes "aligned level entries child_counts" "\<forall>counts. child_counts = Some counts \<longrightarrow> 0 \<notin> set counts"
    "format_validate (cfg_format cfg) = Inr ()" "registered (cfg_format cfg)"
    "128 + name_len (cfg_format cfg) + sum_list (map (\<lambda>(k, v). length k + length v + 64) entries) < 2 ^ 64"
    "chunk_ranges_for_entries_impl xxh64 cfg level entries child_counts parallel_hashing = Inl e"
  obtains i n where "i < length entries"
    "item_len (cfg_format cfg) (level = 0) level
      [(fst (entries ! i), snd (entries ! i), map_option (\<lambda>counts. counts ! i) child_counts)] = Inr n"
    "unat (hard_max cfg) < n" "e = EntryTooLarge (of_nat n) (hard_max cfg)"
proof -
  let ?items = "items_of entries child_counts"
  note lev = items_of_level_ok [OF assms(1-5)]
  from level_cut_error [OF lev, of xxh64 parallel_hashing e] items_of_level [OF assms(1)] assms(6)
  obtain x bs where x: "x \<in> set ?items" "to_bytes (item_node (cfg_format cfg) (level = 0) level [x]) = Inr bs"
    "unat (hard_max cfg) < length bs" "e = EntryTooLarge (of_nat (length bs)) (hard_max cfg)" by auto
  obtain i where i: "i < length entries" "x = ?items ! i" using x(1) items_of_nth(1) [OF assms(1)] by (auto simp: in_set_conv_nth)
  have "level_ok (cfg_format cfg) level [x]"
    using x(1) lev level_ok_part [of _ level _ "[x]"] by (metis append_Cons append_Nil split_list)
  then have "item_len (cfg_format cfg) (level = 0) level [x] = Inr (length bs)"
    using item_len_to_bytes [OF ilen_eq(1)] ilen_eq(1) x(2) by (metis Inr_inject)
  with that [OF i(1), of "length bs"] x(3,4) i items_of_nth(2) [OF assms(1) i(1)] show thesis by simp
qed

lemma chunk_ranges_nonzero:
  assumes "chunk_ranges_for_entries_impl xxh64 cfg level entries child_counts parallel_hashing = Inl e" "aligned level entries child_counts"
    "\<not> (e = InvalidNode \<and> (\<exists>counts. child_counts = Some counts \<and> 0 \<in> set counts))"
  shows "chunk_ranges_for_entries_impl xxh64 cfg level entries (map_option (map (max 1)) child_counts) parallel_hashing = Inl e"
proof (cases child_counts)
  case (Some counts)
  show ?thesis
  proof (cases "0 \<in> set counts")
    case True
    then show ?thesis
      using assms Some chunk_ranges_zero [of counts entries level xxh64 cfg parallel_hashing] by (auto simp: aligned_def fails_or_same_def)
  next
    case False
    then have "map (max 1) counts = counts"
      by (intro nth_equalityI) (auto simp: max_one_nth in_set_conv_nth simp del: nth_map)
    then show ?thesis using assms(1) Some by simp
  qed
qed (use assms(1) in simp)

section \<open>Properties\<close>

text \<open>
  C28 (\<open>chunk_ranges_for_entries_impl\<close>).  The ranges cover the entries of the level exactly once and
  in order, and the node of every range, encoded in the configured layout, fits the hard byte
  cap; this holds for the serial loop and for both parallel loops.
\<close>

theorem chunk_ranges_partition:
  assumes "level_ok (cfg_format cfg) level items"
    "chunk_ranges_for_entries_impl xxh64 cfg level (item_entries items) (level_counts level items) parallel_hashing = Inr ranges"
  shows "concat (map (\<lambda>(s, e). [s..<e + 1]) ranges) = [0..<length items] \<and>
    (\<forall>(s, e) \<in> set ranges. s \<le> e \<and> (\<exists>bs. to_bytes (item_node (cfg_format cfg) (level = 0) level (take (e + 1 - s) (drop s items))) = Inr bs \<and>
       length bs \<le> unat (hard_max cfg)))"
proof -
  obtain det where "chunk_ranges_for_entries_impl xxh64 cfg level (item_entries items) (level_counts level items) parallel_hashing =
      map_ok (ranges_from 0) (ref_chunks xxh64 (cfg_format cfg) level items [] det)"
    by (rule dispatch_ref [OF assms(1)])
  with assms(2) have "map_ok (ranges_from 0) (ref_chunks xxh64 (cfg_format cfg) level items [] det) = Inr ranges" by simp
  then obtain gs where gs: "ref_chunks xxh64 (cfg_format cfg) level items [] det = Inr gs" "ranges = ranges_from 0 gs"
    unfolding map_ok_Inr_iff by blast
  have sound: "concat gs = items" "[] \<notin> set gs" "\<And>g. g \<in> set gs \<Longrightarrow> ilen (cfg_format cfg) level g \<le> unat (hard_max cfg)"
    using ref_chunks_sound [OF gs(1)] by (auto simp: hard_max_def)
  have "s \<le> e \<and> (\<exists>bs. to_bytes (item_node (cfg_format cfg) (level = 0) level (take (e + 1 - s) (drop s items))) = Inr bs \<and>
       length bs \<le> unat (hard_max cfg))" if "(s, e) \<in> set ranges" for s e
  proof -
    from that obtain g where g: "g \<in> set gs" "s \<le> e" "take (e + 1 - s) (drop s items) = g"
      using ranges_from_slice [OF _ sound(2), of s e 0] by (auto simp: gs(2) sound(1))
    then obtain xs ys where "gs = xs @ g # ys" by (meson split_list)
    then have "level_ok (cfg_format cfg) level g"
      using assms(1) level_ok_part [of "cfg_format cfg" level "concat xs" g "concat ys"] by (simp add: sound(1) [symmetric])
    then obtain bs where "to_bytes (item_node (cfg_format cfg) (level = 0) level g) = Inr bs"
      "length bs = ilen (cfg_format cfg) level g" using item_len_to_bytes [OF ilen_eq(1)] by blast
    with g sound(3) [OF g(1)] show ?thesis by auto
  qed
  then show ?thesis using ranges_from_cover [OF sound(2), of 0] by (auto simp: gs(2) sound(1))
qed

lemma sized_items_level: "level_ok (cfg_format config_default) 1 sized_items"
proof -
  have "cfg_format config_default = tree_format_default" by (simp add: config_default_def)
  then show ?thesis using sized_items_ok default_valid
    by (auto simp: level_ok_def sized_items_def upper_len_def)
qed

lemma sized_items_chunked:
  "\<exists>ranges. chunk_ranges_for_entries_impl (\<lambda>seed bs. 0) config_default 1 (item_entries sized_items) (level_counts 1 sized_items) parallel_hashing = Inr ranges"
proof -
  let ?r = "chunk_ranges_for_entries_impl (\<lambda>seed bs. 0) config_default 1 (item_entries sized_items) (level_counts 1 sized_items) parallel_hashing"
  obtain det where det: "?r = map_ok (ranges_from 0) (ref_chunks (\<lambda>seed bs. 0) (cfg_format config_default) 1 sized_items [] det)"
    "detector_ok (\<lambda>seed bs. 0) det []" "cs_hard_max_node_bytes (bd_spec det) = hard_max config_default"
    by (rule dispatch_ref [OF sized_items_level])
  have "ilen (cfg_format config_default) 1 [i] \<le> unat (hard_max config_default)" if i: "i \<in> set sized_items" for i
  proof -
    have "level_ok (cfg_format config_default) 1 [i]"
      using i sized_items_level level_ok_part [of _ 1 _ "[i]"] by (metis append_Cons append_Nil split_list)
    moreover have "upper_len [i] \<le> 70" using i by (auto simp: sized_items_def upper_len_def)
    moreover have "ilen (cfg_format config_default) 1 [] = 9"
      using sized_items_ok(3) by (simp add: ilen_def config_default_def)
    moreover have "unat (hard_max config_default) = 16777216"
      by (simp add: hard_max_def config_default_def tree_format_default_def chunking_default_def entry_count_key_hash_def)
    ultimately show ?thesis using ilen_eq(3) [of "cfg_format config_default" 1 "[i]"] by linarith
  qed
  then show ?thesis
    using ref_chunks_error [of _ 1 "[]" sized_items, OF _ det(2)] det(1,3) sized_items_level
    by (cases "ref_chunks (\<lambda>seed bs. 0) (cfg_format config_default) 1 sized_items [] det") (force simp: hard_max_def)+
qed

theorem chunk_ranges_partition_witness:
  "\<exists>ranges. chunk_ranges_for_entries_impl (\<lambda>seed bs. 0) config_default 1 (item_entries sized_items) (level_counts 1 sized_items) True = Inr ranges \<and>
     concat (map (\<lambda>(s, e). [s..<e + 1]) ranges) = [0, 1]"
proof -
  have "[0..<length sized_items] = [0, 1]" by (simp add: sized_items_def upt_rec)
  moreover obtain ranges where r: "chunk_ranges_for_entries_impl (\<lambda>seed bs. 0) config_default 1 (item_entries sized_items)
      (level_counts 1 sized_items) True = Inr ranges" using sized_items_chunked by blast
  ultimately show ?thesis using chunk_ranges_partition [OF sized_items_level r] by auto
qed

text \<open>
  C29 (\<open>chunk_ranges_for_entries_impl\<close>).  Every way in which cutting a level fails, for any
  configuration, entries and child counts that fit the address space: the child counts do not match
  the level or the entries, or one of them is zero; the format is invalid; its layout has
  no codec; or some entry, alone in a node, encodes to more bytes than the hard cap, and the error reports that size
  and the cap.  There is no panic and no other error, in any of the loops.
\<close>

theorem chunk_ranges_errors:
  assumes "chunk_ranges_for_entries_impl xxh64 cfg level entries child_counts parallel_hashing = Inl e"
    "128 + name_len (cfg_format cfg) + sum_list (map (\<lambda>(k, v). length k + length v + 64) entries) < 2 ^ 64"
  shows "(e = InvalidNode \<and> (case child_counts of None \<Rightarrow> level \<noteq> 0
      | Some counts \<Rightarrow> level = 0 \<or> length counts \<noteq> length entries \<or> 0 \<in> set counts)) \<or>
    format_validate (cfg_format cfg) = Inl e \<or>
    (\<not> registered (cfg_format cfg) \<and> e = InvalidFormat ''node layout has no registered codec'') \<or>
    (\<exists>i < length entries. \<exists>bs. to_bytes (item_node (cfg_format cfg) (level = 0) level
        [(fst (entries ! i), snd (entries ! i), map_option (\<lambda>counts. counts ! i) child_counts)]) = Inr bs \<and>
      unat (hard_max cfg) < length bs \<and> e = EntryTooLarge (of_nat (length bs)) (hard_max cfg))"
proof (cases "aligned level entries child_counts \<and> (\<exists>s. sizer_new (cfg_format cfg) (level = 0) level = Inr s) \<and>
    \<not> (e = InvalidNode \<and> (\<exists>counts. child_counts = Some counts \<and> 0 \<in> set counts))")
  case False
  then consider "\<not> aligned level entries child_counts"
    | e' where "aligned level entries child_counts" "sizer_new (cfg_format cfg) (level = 0) level = Inl e'"
    | "e = InvalidNode" "\<exists>counts. child_counts = Some counts \<and> 0 \<in> set counts"
    by (cases "sizer_new (cfg_format cfg) (level = 0) level") auto
  then show ?thesis
  proof cases
    case 1
    then show ?thesis using assms(1) by (auto simp: aligned_def chunk_ranges_for_entries_impl_def split: option.splits if_splits)
  next
    case 2
    from chunk_ranges_codec_error [OF this] assms(1) have "e' = e" by simp
    with sizer_new_error [OF 2(2)] assms(2) show ?thesis by auto
  qed auto
next
  case True
  then have fmt: "format_validate (cfg_format cfg) = Inr ()" "registered (cfg_format cfg)"
    by (auto simp: sizer_new_def and_then_Inr_iff)
  let ?counts = "map_option (map (max 1)) child_counts"
  have al: "aligned level entries ?counts" and nz: "\<forall>counts. ?counts = Some counts \<longrightarrow> 0 \<notin> set counts"
    using True by (auto simp: aligned_def max_def split: option.splits if_splits)
  have "chunk_ranges_for_entries_impl xxh64 cfg level entries ?counts parallel_hashing = Inl e"
    by (rule chunk_ranges_nonzero [OF assms(1)]) (use True in auto)
  from level_cut_position [OF al nz fmt assms(2) this] obtain i n where i: "i < length entries" "unat (hard_max cfg) < n"
    "e = EntryTooLarge (of_nat n) (hard_max cfg)"
    and n: "item_len (cfg_format cfg) (level = 0) level [(fst (entries ! i), snd (entries ! i), map_option (\<lambda>counts. counts ! i) ?counts)] = Inr n" .
  have "item_len (cfg_format cfg) (level = 0) level
      [(fst (entries ! i), snd (entries ! i), map_option (\<lambda>counts. counts ! i) child_counts)] = Inr n"
    using n i(1) True item_len_max_one by (cases child_counts) (auto simp: aligned_def)
  then show ?thesis by (rule item_len_to_bytes) (use i in auto)
qed

definition big_items :: "item list" where
  "big_items = [([1], replicate (2 ^ 25) 0, None)]"

lemma big_items_level: "level_ok (cfg_format config_default) 0 big_items"
  and big_items_len: "2 ^ 25 \<le> ilen (cfg_format config_default) 0 big_items"
proof -
  have e: "item_len tree_format_default True 0 [] = Inr 9" by code_simp
  show lev: "level_ok (cfg_format config_default) 0 big_items"
    using e sized_items_ok(4)
    by (simp add: level_ok_def config_default_def big_items_def upper_len_def items_ok_def validate_child_count_def)
  have "2 ^ 25 \<le> entry_cost (tf_node_layout tree_format_default) (payload_size []) (last_key []) [1] (replicate (2 ^ 25) 0) None"
    by (simp add: entry_cost_def tree_format_default_def Let_def)
  then show "2 ^ 25 \<le> ilen (cfg_format config_default) 0 big_items"
    using item_len_snoc [OF e, of None "[1]" "replicate (2 ^ 25) 0"]
    by (simp add: ilen_def config_default_def big_items_def validate_child_count_def)
qed

theorem chunk_ranges_errors_witness:
  "\<exists>n. chunk_ranges_for_entries_impl (\<lambda>seed bs. 0) config_default 0 (item_entries big_items) None True = Inl (EntryTooLarge n (hard_max config_default))"
proof -
  let ?r = "chunk_ranges_for_entries_impl (\<lambda>seed bs. 0) config_default 0 (item_entries big_items) None True"
  have none: "level_counts 0 big_items = None" by (simp add: level_counts_def)
  obtain det where det: "?r = map_ok (ranges_from 0) (ref_chunks (\<lambda>seed bs. 0) (cfg_format config_default) 0 big_items [] det)"
    by (rule dispatch_ref [OF big_items_level, unfolded none])
  have "unat (hard_max config_default) < ilen (cfg_format config_default) 0 big_items"
    using big_items_len by (simp add: hard_max_def config_default_def tree_format_default_def chunking_default_def entry_count_key_hash_def)
  then obtain e where r: "?r = Inl e" unfolding det by (auto simp: big_items_def Let_def hard_max_def)
  have room: "128 + name_len (cfg_format config_default) + sum_list (map (\<lambda>(k, v). length k + length v + 64) (item_entries big_items)) < 2 ^ 64"
    by (simp add: name_len_def config_default_def tree_format_default_def item_entries_def big_items_def)
  from chunk_ranges_errors [OF r room] big_items_level obtain n where "e = EntryTooLarge n (hard_max config_default)"
    by (auto simp: level_ok_def)
  with r show ?thesis by blast
qed



end
