(* ===== verification/Level_Emitter.thy ===== *)
theory Level_Emitter
  imports Chunk_Ranges
begin

text \<open>
  The streaming emitter of one level (\<open>LevelEmitter\<close> of \<^verbatim>\<open>src/src/prolly/builder/streaming.rs\<close>).
  It buffers one open node, asks the boundary detector after every entry, and returns the
  nodes it closes.  When boundaries are not measured in encoded bytes it tracks an upper bound
  of the encoded size and computes the exact size only when the bound passes the hard cap.
  The lemmas show that it closes the same groups as \<open>ref_chunks\<close>.  After an error the emitter is
  not used again, so error values carry no state.
\<close>

section \<open>Definitions\<close>

definition new_builder_node :: "config \<Rightarrow> bool \<Rightarrow> u8 \<Rightarrow> node" where
  "new_builder_node cfg leaf level =
     builder_build (builder_tree_format (cfg_format cfg) (builder_level level (builder_leaf leaf node_builder_new)))"

record node_summary =
  ns_cid :: cid
  ns_first_key :: bytes
  ns_count :: u64

record emitted_node =
  em_summary :: node_summary
  em_node :: node
  em_bytes :: bytes
  em_owned_payload_bytes :: u64

record level_emitter =
  le_config :: config
  le_leaf :: bool
  le_level :: u8
  le_current :: node
  le_detector :: detector
  le_sizer :: "sizer option"
  le_encoded_measure :: bool
  le_upper_size :: u64
  le_current_payload_bytes :: u64

definition conservative_entry_upper :: "bytes \<Rightarrow> bytes \<Rightarrow> u64 option \<Rightarrow> error + u64" where
  "conservative_entry_upper key val child_count =
     and_then (try_u64 (length key)) (\<lambda>key_len.
     and_then (try_u64 (length val)) (\<lambda>value_len.
     ok_or (Option.bind (checked_add key_len value_len) (\<lambda>sz.
       checked_add sz (if child_count \<noteq> None then 74 else 64))) InvalidNode))"

definition conservative_empty_upper :: "tree_format \<Rightarrow> error + u64" where
  "conservative_empty_upper format =
     and_then (case tf_value_encoding format of CustomEncoding name \<Rightarrow> try_u64 (length name) | _ \<Rightarrow> Inr 0)
       (\<lambda>custom_encoding_len. ok_or (checked_add 128 custom_encoding_len) InvalidNode)"

definition level_emitter_new :: "config \<Rightarrow> bool \<Rightarrow> u8 \<Rightarrow> error + level_emitter" where
  "level_emitter_new cfg leaf level =
     (if leaf \<noteq> (level = 0) then Inl InvalidNode
      else and_then (format_validate (cfg_format cfg)) (\<lambda>_.
      case tf_node_layout (cfg_format cfg) of
        CustomLayout ident parameters \<Rightarrow> Inl (InvalidFormat ''node layout has no registered codec'')
      | _ \<Rightarrow>
        let encoded_measure = (cs_measure (tf_chunking (cfg_format cfg)) = EncodedBytes) in
        and_then (if encoded_measure then map_ok Some (sizer_new (cfg_format cfg) leaf level) else Inr None) (\<lambda>siz.
        and_then (case siz of Some s \<Rightarrow> Inr (sz_size s) | None \<Rightarrow> conservative_empty_upper (cfg_format cfg)) (\<lambda>upper_size.
        and_then (detector_new (tf_chunking (cfg_format cfg)) (ucast level)) (\<lambda>det.
        Inr \<lparr>le_config = cfg, le_leaf = leaf, le_level = level, le_current = new_builder_node cfg leaf level,
          le_detector = det, le_sizer = siz, le_encoded_measure = encoded_measure, le_upper_size = upper_size,
          le_current_payload_bytes = 0\<rparr>)))))"

primrec sum_counts :: "u64 \<Rightarrow> u64 list \<Rightarrow> error + u64" where
  "sum_counts acc [] = Inr acc"
| "sum_counts acc (c # cs) =
     and_then (ok_or (checked_add acc c) (Panic ''attempt to add with overflow'')) (\<lambda>acc. sum_counts acc cs)"

definition flush_current :: "hash256 \<Rightarrow> level_emitter \<Rightarrow> error + emitted_node option \<times> level_emitter" where
  "flush_current sha256 e =
     (if nd_keys (le_current e) = [] then Inr (None, e)
      else let node = le_current e; node_payload_bytes = le_current_payload_bytes e;
               e = e\<lparr>le_current := new_builder_node (le_config e) (le_leaf e) (le_level e), le_current_payload_bytes := 0\<rparr>;
               limit = hard_max (le_config e) in
        and_then (to_bytes node) (\<lambda>bs.
        if limit < of_nat (length bs) then Inl (EntryTooLarge (of_nat (length bs)) limit)
        else and_then (if le_leaf e then Inr (of_nat (length (nd_keys node))) else sum_counts 0 (nd_child_counts node)) (\<lambda>count.
        let summary = \<lparr>ns_cid = cid_from_bytes sha256 bs, ns_first_key = nd_keys node ! 0, ns_count = count\<rparr> in
        and_then (case le_sizer e of
            Some s \<Rightarrow> Inr (e\<lparr>le_sizer := Some (sizer_reset s), le_upper_size := sz_size (sizer_reset s)\<rparr>)
          | None \<Rightarrow> and_then (conservative_empty_upper (cfg_format (le_config e))) (\<lambda>u. Inr (e\<lparr>le_upper_size := u\<rparr>))) (\<lambda>e.
        and_then (ok_or (Option.bind (checked_add node_payload_bytes (of_nat (length bs))) (\<lambda>payload.
            checked_add payload (of_nat (length (ns_first_key summary))))) InvalidNode) (\<lambda>owned_payload_bytes.
        Inr (Some \<lparr>em_summary = summary, em_node = node, em_bytes = bs, em_owned_payload_bytes = owned_payload_bytes\<rparr>, e))))))"

definition flush_nonempty :: "hash256 \<Rightarrow> string \<Rightarrow> level_emitter \<Rightarrow> error + emitted_node \<times> level_emitter" where
  "flush_nonempty sha256 message e =
     and_then (flush_current sha256 e) (\<lambda>(node, e).
     case node of None \<Rightarrow> Inl (Panic message) | Some n \<Rightarrow> Inr (n, e))"

primrec exact_size_loop :: "node \<Rightarrow> bool \<Rightarrow> nat list \<Rightarrow> sizer \<Rightarrow> error + sizer" where
  "exact_size_loop current leaf [] siz = Inr siz"
| "exact_size_loop current leaf (index # rest) siz =
     (let previous = (if index = 0 then None else Some (nd_keys current ! (index - 1))) in
      if \<not> leaf \<and> length (nd_child_counts current) \<le> index \<or> length (nd_vals current) \<le> index
      then Inl (Panic ''index out of bounds'')
      else let buffered_child_count = (if leaf then None else Some (nd_child_counts current ! index)) in
        and_then (size_after previous (nd_keys current ! index) (nd_vals current ! index) buffered_child_count siz) (\<lambda>sz.
        and_then (push_sized (nd_keys current ! index) (nd_vals current ! index) buffered_child_count sz siz) (\<lambda>siz.
        exact_size_loop current leaf rest siz)))"

definition last_option :: "'a list \<Rightarrow> 'a option" where
  "last_option xs = (if xs = [] then None else Some (last xs))"

definition exact_size_after :: "bytes \<Rightarrow> bytes \<Rightarrow> u64 option \<Rightarrow> level_emitter \<Rightarrow> error + u64" where
  "exact_size_after key val child_count e =
     and_then (sizer_new (cfg_format (le_config e)) (le_leaf e) (le_level e)) (\<lambda>siz.
     and_then (exact_size_loop (le_current e) (le_leaf e) [0..<length (nd_keys (le_current e))] siz) (\<lambda>siz.
     size_after (last_option (nd_keys (le_current e))) key val child_count siz))"

definition expect_sizer :: "level_emitter \<Rightarrow> error + sizer" where
  "expect_sizer e = ok_or (le_sizer e) (Panic ''encoded measure has a sizer'')"

text \<open>The branch of \<open>push_entry_with\<close> that measures encoded bytes: emitted nodes, encoded bytes of the entry.\<close>

definition push_measured ::
  "hash256 \<Rightarrow> bytes \<Rightarrow> bytes \<Rightarrow> u64 option \<Rightarrow> level_emitter \<Rightarrow> error + emitted_node list \<times> u64 \<times> level_emitter" where
  "push_measured sha256 key val child_count e =
     (let limit = hard_max (le_config e) in
      and_then (expect_sizer e) (\<lambda>siz.
      and_then (size_after (last_option (nd_keys (le_current e))) key val child_count siz) (\<lambda>encoded_size.
      and_then (if nd_keys (le_current e) \<noteq> [] \<and> limit < encoded_size
        then and_then (flush_nonempty sha256 ''nonempty node flushes'' e) (\<lambda>(node, e).
          let e = e\<lparr>le_detector := detector_reset (le_detector e)\<rparr> in
          and_then (expect_sizer e) (\<lambda>siz.
          and_then (size_after None key val child_count siz) (\<lambda>encoded_size. Inr ([node], encoded_size, e))))
        else Inr ([], encoded_size, e)) (\<lambda>(emitted, encoded_size, e).
      if limit < encoded_size then Inl (EntryTooLarge encoded_size limit)
      else and_then (expect_sizer e) (\<lambda>siz.
        let encoded_entry_bytes = saturating_sub encoded_size (sz_size siz) in
        and_then (push_sized key val child_count encoded_size siz) (\<lambda>siz.
        Inr (emitted, encoded_entry_bytes, e\<lparr>le_sizer := Some siz, le_upper_size := encoded_size\<rparr>)))))))"

text \<open>The other branch: the upper bound, with the exact size as fallback.\<close>

definition push_bounded ::
  "hash256 \<Rightarrow> bytes \<Rightarrow> bytes \<Rightarrow> u64 option \<Rightarrow> level_emitter \<Rightarrow> error + emitted_node list \<times> u64 \<times> level_emitter" where
  "push_bounded sha256 key val child_count e =
     (let limit = hard_max (le_config e) in
      and_then (conservative_entry_upper key val child_count) (\<lambda>entry_upper.
      and_then (ok_or (checked_add (le_upper_size e) entry_upper) InvalidNode) (\<lambda>encoded_size.
      and_then (if limit < encoded_size
        then and_then (exact_size_after key val child_count e) (\<lambda>encoded_size.
          and_then (if nd_keys (le_current e) \<noteq> [] \<and> limit < encoded_size
            then and_then (flush_nonempty sha256 ''nonempty node flushes'' e) (\<lambda>(node, e).
              let e = e\<lparr>le_detector := detector_reset (le_detector e)\<rparr> in
              and_then (exact_size_after key val child_count e) (\<lambda>encoded_size. Inr ([node], encoded_size, e)))
            else Inr ([], encoded_size, e)) (\<lambda>(emitted, encoded_size, e).
          if limit < encoded_size then Inl (EntryTooLarge encoded_size limit) else Inr (emitted, encoded_size, e)))
        else Inr ([], encoded_size, e)) (\<lambda>(emitted, encoded_size, e).
      Inr (emitted, 0, e\<lparr>le_upper_size := encoded_size\<rparr>)))))"

definition push_entry_with ::
  "hash256 \<Rightarrow> xxhash \<Rightarrow> bytes \<Rightarrow> bytes \<Rightarrow> u64 option \<Rightarrow> level_emitter \<Rightarrow> error + emitted_node list \<times> level_emitter" where
  "push_entry_with sha256 xxh64 key val child_count e =
     and_then (if le_encoded_measure e then push_measured sha256 key val child_count e
               else push_bounded sha256 key val child_count e) (\<lambda>(emitted, encoded_entry_bytes, e).
     and_then (observe xxh64 key val encoded_entry_bytes (le_detector e)) (\<lambda>(boundary, det).
     and_then (ok_or (Option.bind (checked_add (le_current_payload_bytes e) (of_nat (length key))) (\<lambda>bytes.
         Option.bind (checked_add bytes (of_nat (length val))) (\<lambda>bytes.
         checked_add bytes (if child_count \<noteq> None then 8 else 0)))) InvalidNode) (\<lambda>payload.
     let e = e\<lparr>le_detector := det, le_current_payload_bytes := payload,
       le_current := (le_current e)\<lparr>nd_keys := nd_keys (le_current e) @ [key], nd_vals := nd_vals (le_current e) @ [val],
         nd_child_counts := nd_child_counts (le_current e) @ (case child_count of None \<Rightarrow> [] | Some c \<Rightarrow> [c])\<rparr>\<rparr> in
     if boundary
     then and_then (flush_nonempty sha256 ''observed entry makes node nonempty'' e) (\<lambda>(node, e). Inr (emitted @ [node], e))
     else Inr (emitted, e))))"

definition emitter_push_leaf ::
  "hash256 \<Rightarrow> xxhash \<Rightarrow> bytes \<Rightarrow> bytes \<Rightarrow> level_emitter \<Rightarrow> error + emitted_node list \<times> level_emitter" where
  "emitter_push_leaf sha256 xxh64 key val e =
     (if \<not> le_leaf e then Inl InvalidNode else push_entry_with sha256 xxh64 key val None e)"

definition emitter_push_child ::
  "hash256 \<Rightarrow> xxhash \<Rightarrow> node_summary \<Rightarrow> level_emitter \<Rightarrow> error + emitted_node list \<times> level_emitter" where
  "emitter_push_child sha256 xxh64 child e =
     (if le_leaf e then Inl InvalidNode
      else push_entry_with sha256 xxh64 (ns_first_key child) (ns_cid child) (Some (ns_count child)) e)"

definition emitter_finish :: "hash256 \<Rightarrow> level_emitter \<Rightarrow> error + emitted_node option \<times> level_emitter" where
  "emitter_finish sha256 e = flush_current sha256 e"

definition emitter_is_empty :: "level_emitter \<Rightarrow> bool" where
  "emitter_is_empty e \<longleftrightarrow> nd_keys (le_current e) = []"

definition emitter_retained_payload_bytes :: "level_emitter \<Rightarrow> u64" where
  "emitter_retained_payload_bytes e = le_current_payload_bytes e"

section \<open>Bounds\<close>

definition bound_len :: "tree_format \<Rightarrow> item list \<Rightarrow> nat" where
  "bound_len f items = 128 + name_len f + upper_len items + 10 * length items"

text \<open>A level whose buffers, bounds and entry counts stay below the 64-bit limits.\<close>

definition level_room :: "tree_format \<Rightarrow> u8 \<Rightarrow> item list \<Rightarrow> bool" where
  "level_room f level items \<longleftrightarrow>
     level_ok f level items \<and> bound_len f items < 2 ^ 60 \<and> sum_list (map unat (item_counts items)) < 2 ^ 64"

lemma item_counts_append: "item_counts (xs @ ys) = item_counts xs @ item_counts ys"
  by (induction xs) (auto simp: item_counts_def List.map_filter_simps split: option.split)

lemma level_room_part: "level_room f level (xs @ ys @ zs) \<Longrightarrow> level_room f level ys"
  using level_ok_part [of f level xs ys zs]
  by (auto simp: level_room_def bound_len_def item_counts_append)

lemma level_room_append: "level_room f level (xs @ ys) \<Longrightarrow> level_room f level xs \<and> level_room f level ys"
  using level_room_part [of f level "[]" xs ys] level_room_part [of f level xs ys "[]"] by simp

lemma u64_word_bounds: "a + b < 2 ^ 64 \<Longrightarrow> checked_add (of_nat a) (of_nat b) = Some (of_nat (a + b))"
  by (simp add: checked_add_def unat_of_nat_u64)

lemma conservative_empty_upper_eq:
  assumes "128 + name_len f < 2 ^ 64"
  shows "conservative_empty_upper f = Inr (of_nat (128 + name_len f))"
proof -
  have "(case tf_value_encoding f of CustomEncoding name \<Rightarrow> try_u64 (length name) | _ \<Rightarrow> Inr 0) = Inr (of_nat (name_len f))"
    using assms by (auto simp: name_len_def try_u64_def split: encoding.split)
  then show ?thesis
    using u64_word_bounds [of 128 "name_len f"] assms
    by (simp add: conservative_empty_upper_def ok_or_def del: of_nat_add)
qed

lemma ilen_empty_bound:
  assumes "level_ok f level items"
  shows "ilen f level [] \<le> 128 + name_len f"
proof -
  obtain n where "item_len f (level = 0) level [] = Inr n" "n \<le> 128 + name_len f"
    using item_len_empty [of f "level = 0" level] assms by (auto simp: level_ok_def)
  then show ?thesis by (simp add: ilen_def)
qed

lemma level_roomI:
  assumes "format_validate f = Inr ()" "registered f" "items_ok (level = 0) items" "bound_len f items < 2 ^ 60"
    "sum_list (map unat (item_counts items)) < 2 ^ 64"
  shows "level_room f level items"
proof -
  obtain n where "item_len f (level = 0) level [] = Inr n" "n \<le> 128 + name_len f"
    by (rule item_len_empty [OF assms(1,2)])
  moreover from this have "n + upper_len items < 2 ^ 64" using assms(4) by (simp add: bound_len_def)
  ultimately show ?thesis using assms by (auto simp: level_room_def level_ok_def)
qed

lemma varint_len_step: "unat b \<le> unat a + 1 \<Longrightarrow> varint_len b \<le> varint_len a + 1"
proof (induction b arbitrary: a rule: varint_len.induct)
  case (1 b)
  consider "\<not> 0x80 \<le> b" | "0x80 \<le> b" "0x80 \<le> a" | "0x80 \<le> b" "\<not> 0x80 \<le> a" by blast
  then show ?case
  proof cases
    case 1
    then show ?thesis by (subst varint_len.simps) simp
  next
    case 2
    have "varint_len (drop_bit 7 b) \<le> varint_len (drop_bit 7 a) + 1"
      using "1.prems" by (intro "1.IH" [OF 2(1)]) (simp add: unat_drop_bit_7)
    then show ?thesis using 2 by (subst (1 2) varint_len.simps) simp
  next
    case 3
    then have "unat b = 128" using "1.prems" by (simp add: word_le_nat_alt)
    then have "\<not> 0x80 \<le> drop_bit 7 b" by (simp add: word_le_nat_alt unat_drop_bit_7)
    then have "varint_len (drop_bit 7 b) = 1" by (subst varint_len.simps) simp
    then show ?thesis using 3(1) varint_len_pos [of a] by (subst varint_len.simps) simp
  qed
qed

lemma ilen_step_bound:
  assumes "level_ok f level (cur @ [i])"
  shows "ilen f level (cur @ [i]) \<le> ilen f level cur + length (fst i) + length (fst (snd i)) + 64"
proof -
  obtain k v c where i: "i = (k, v, c)" by (cases i)
  note ok = level_ok_append [OF assms, THEN conjunct1] assms [unfolded i]
  have valid: "items_ok (level = 0) cur" "validate_child_count (level = 0) c = Inr ()"
    using ok(2) by (auto simp: level_ok_def items_ok_def)
  have room: "length cur + 1 < 2 ^ 64" "payload_size cur + length k + length v < 2 ^ 64"
    using ilen_eq(5) [OF ok(2)] by (auto simp: in_memory_snoc)
  let ?c = "entry_cost (tf_node_layout f) (payload_size cur) (last_key cur) k v c"
  have one: "len_len (length cur + 1) - len_len (length cur) \<le> 4"
  proof -
    have "len_len (length cur + 1) \<le> len_len (length cur) + 1"
      using room(1) by (intro varint_len_step) (simp add: unat_of_nat_u64 del: of_nat_add of_nat_Suc)
    then show ?thesis by simp
  qed
  have "len_len (payload_size cur + length k + length v) - len_len (payload_size cur) \<le> 9"
    using varint_len_le_10 [of "of_nat (payload_size cur + length k + length v)"] varint_len_pos [of "of_nat (payload_size cur)"]
    by linarith
  then have "?c \<le> length k + length v + 59"
    using entry_cost_upper [OF room(2), of "tf_node_layout f" "last_key cur" c] by (auto split: if_splits)
  then show ?thesis
    using item_len_snoc [OF ilen_eq(1) [OF ok(1)] valid room] ilen_eq(1) [OF ok(2)] one by (simp add: i)
qed

lemma conservative_entry_upper_eq:
  assumes "length key + length val + 74 < 2 ^ 64"
  shows "conservative_entry_upper key val c = Inr (of_nat (length key + length val + (if c \<noteq> None then 74 else 64)))"
proof -
  have "try_u64 (length key) = Inr (of_nat (length key))" "try_u64 (length val) = Inr (of_nat (length val))"
    using assms by (auto simp: try_u64_def)
  then show ?thesis
    using assms u64_word_bounds [of "length key" "length val"] u64_word_bounds [of "length key + length val" 74]
      u64_word_bounds [of "length key + length val" 64]
    by (auto simp: conservative_entry_upper_def ok_or_def simp del: of_nat_add)
qed

section \<open>Closing a node\<close>

definition item_bytes :: "tree_format \<Rightarrow> u8 \<Rightarrow> item list \<Rightarrow> bytes" where
  "item_bytes f level g = (case to_bytes (item_node f (level = 0) level g) of Inr bs \<Rightarrow> bs | Inl e \<Rightarrow> [])"

definition group_count :: "u8 \<Rightarrow> item list \<Rightarrow> u64" where
  "group_count level g = (if level = 0 then of_nat (length g) else sum_list (item_counts g))"

definition summary_of :: "hash256 \<Rightarrow> tree_format \<Rightarrow> u8 \<Rightarrow> item list \<Rightarrow> node_summary" where
  "summary_of sha256 f level g =
     \<lparr>ns_cid = sha256 (item_bytes f level g), ns_first_key = fst (hd g), ns_count = group_count level g\<rparr>"

definition held_bytes :: "u8 \<Rightarrow> item list \<Rightarrow> nat" where
  "held_bytes level g = payload_size g + (if level = 0 then 0 else 8 * length g)"

definition emitted_of :: "hash256 \<Rightarrow> tree_format \<Rightarrow> u8 \<Rightarrow> item list \<Rightarrow> emitted_node" where
  "emitted_of sha256 f level g =
     \<lparr>em_summary = summary_of sha256 f level g, em_node = item_node f (level = 0) level g, em_bytes = item_bytes f level g,
      em_owned_payload_bytes = of_nat (held_bytes level g + length (item_bytes f level g) + length (fst (hd g)))\<rparr>"

lemma item_bytes_eq:
  assumes "level_ok f level g"
  shows "to_bytes (item_node f (level = 0) level g) = Inr (item_bytes f level g)" "length (item_bytes f level g) = ilen f level g"
proof -
  obtain bs where "to_bytes (item_node f (level = 0) level g) = Inr bs" "length bs = ilen f level g"
    by (rule item_len_to_bytes [OF ilen_eq(1) [OF assms]])
  then show "to_bytes (item_node f (level = 0) level g) = Inr (item_bytes f level g)" "length (item_bytes f level g) = ilen f level g"
    by (simp_all add: item_bytes_def)
qed

lemma sum_counts_eq: "unat acc + sum_list (map unat cs) < 2 ^ 64 \<Longrightarrow> sum_counts acc cs = Inr (acc + sum_list cs)"
proof (induction cs arbitrary: acc)
  case (Cons c cs)
  then have "checked_add acc c = Some (acc + c)" "unat (acc + c) = unat acc + unat c"
    by (simp_all add: checked_add_def unat_word_ariths)
  then show ?case using Cons by (simp add: ok_or_def add.assoc)
qed simp

lemma upper_len_payload: "payload_size g + 64 * length g = upper_len g"
  by (simp add: upper_len_eq)

text \<open>The emitter's buffer holds \<open>cur\<close>; its size accounts for \<open>sized\<close>.\<close>

definition em_rel :: "config \<Rightarrow> u8 \<Rightarrow> item list \<Rightarrow> item list \<Rightarrow> level_emitter \<Rightarrow> bool" where
  "em_rel cfg level cur sized e \<longleftrightarrow>
     le_config e = cfg \<and> le_leaf e = (level = 0) \<and> le_level e = level \<and>
     le_current e = item_node (cfg_format cfg) (level = 0) level cur \<and>
     le_encoded_measure e = (cs_measure (tf_chunking (cfg_format cfg)) = EncodedBytes) \<and>
     le_current_payload_bytes e = of_nat (held_bytes level cur) \<and>
     (if le_encoded_measure e then \<exists>s. le_sizer e = Some s \<and> sizer_ok (cfg_format cfg) (level = 0) level sized s
      else le_sizer e = None \<and> ilen (cfg_format cfg) level sized \<le> unat (le_upper_size e) \<and>
        unat (le_upper_size e) \<le> bound_len (cfg_format cfg) sized)"

lemma new_builder_node_eq: "new_builder_node cfg leaf level = item_node (cfg_format cfg) leaf level []"
  by (simp add: new_builder_node_def builder_build_def builder_tree_format_def builder_level_def builder_leaf_def
      node_builder_new_def item_node_def)

lemma flush_current_ref:
  assumes "em_rel cfg level cur sized e" "sized = cur" "cur \<noteq> []" "level_room (cfg_format cfg) level cur"
    "ilen (cfg_format cfg) level cur \<le> unat (hard_max cfg)"
  obtains e' where "flush_current sha256 e = Inr (Some (emitted_of sha256 (cfg_format cfg) level cur), e')"
    "em_rel cfg level [] [] e'" "le_detector e' = le_detector e"
proof -
  let ?f = "cfg_format cfg" and ?bs = "item_bytes (cfg_format cfg) level cur"
  let ?e = "e\<lparr>le_current := item_node ?f (level = 0) level [], le_current_payload_bytes := 0\<rparr>"
  note rel = assms(1) [unfolded em_rel_def assms(2)]
  have lev: "level_ok ?f level cur" and small: "bound_len ?f cur < 2 ^ 60" and counts: "sum_list (map unat (item_counts cur)) < 2 ^ 64"
    using assms(4) by (auto simp: level_room_def)
  note bs = item_bytes_eq [OF lev]
  have fit: "\<not> hard_max cfg < of_nat (length ?bs)" using bs(2) assms(5) ilen_eq(4) [OF lev] by (simp add: u64_less_of_nat)
  have hd0: "map fst cur ! 0 = fst (hd cur)" using assms(3) by (cases cur) auto
  have cnt: "(if level = 0 then Inr (of_nat (length (map fst cur))) else sum_counts 0 (item_counts cur)) = Inr (group_count level cur)"
    using sum_counts_eq [of 0 "item_counts cur"] counts by (simp add: group_count_def)
  have "held_bytes level cur \<le> upper_len cur" by (simp add: held_bytes_def upper_len_eq)
  moreover have "length (fst (hd cur)) \<le> upper_len cur"
    using upper_len_member [of "hd cur" cur] assms(3) by simp
  moreover have "length ?bs \<le> 128 + name_len ?f + upper_len cur"
    using bs(2) ilen_eq(3) [OF lev] ilen_empty_bound [OF lev] by simp
  ultimately have "held_bytes level cur + length ?bs + length (fst (hd cur)) < 2 ^ 64"
    using small by (simp add: bound_len_def)
  then have owned: "Option.bind (checked_add (of_nat (held_bytes level cur)) (of_nat (length ?bs)))
      (\<lambda>payload. checked_add payload (of_nat (length (fst (hd cur))))) =
      Some (of_nat (held_bytes level cur + length ?bs + length (fst (hd cur))))"
    using u64_word_bounds [of "held_bytes level cur" "length ?bs"] u64_word_bounds [of "held_bytes level cur + length ?bs" "length (fst (hd cur))"]
    by (simp del: of_nat_add)
  obtain e' where e': "(case le_sizer ?e of
            Some s \<Rightarrow> Inr (?e\<lparr>le_sizer := Some (sizer_reset s), le_upper_size := sz_size (sizer_reset s)\<rparr>)
          | None \<Rightarrow> and_then (conservative_empty_upper ?f) (\<lambda>u. Inr (?e\<lparr>le_upper_size := u\<rparr>))) = Inr e'"
    "em_rel cfg level [] [] e'" "le_detector e' = le_detector e"
  proof (cases "le_encoded_measure e")
    case True
    then obtain s where s: "le_sizer e = Some s" "sizer_ok ?f (level = 0) level cur s" using rel by auto
    then show ?thesis
      using that [of "?e\<lparr>le_sizer := Some (sizer_reset s), le_upper_size := sz_size (sizer_reset s)\<rparr>"] rel sizer_reset_ok [OF s(2)] True
      by (auto simp: em_rel_def held_bytes_def)
  next
    case False
    have u: "conservative_empty_upper ?f = Inr (of_nat (128 + name_len ?f))"
      using small by (intro conservative_empty_upper_eq) (simp add: bound_len_def)
    have "unat (of_nat (128 + name_len ?f) :: u64) = 128 + name_len ?f"
      using small by (intro unat_of_nat_u64) (simp add: bound_len_def)
    then show ?thesis
      using that [of "?e\<lparr>le_upper_size := of_nat (128 + name_len ?f)\<rparr>"] rel False u ilen_empty_bound [OF lev]
      by (auto simp: em_rel_def held_bytes_def bound_len_def simp del: of_nat_add)
  qed
  have "flush_current sha256 e = Inr (Some (emitted_of sha256 ?f level cur), e')"
    using rel assms(3) fit owned e'(1) cnt hd0 bs(1)
    by (cases "level = 0"; cases "le_sizer e"; cases "conservative_empty_upper ?f")
      (simp_all add: flush_current_def new_builder_node_eq emitted_of_def summary_of_def ok_or_def cid_from_bytes_def Let_def
        del: of_nat_add)
  with that e' show thesis by blast
qed

section \<open>The exact size\<close>

lemma buffered_count:
  assumes "level_ok f level cur" "n < length cur"
  shows "(if level = 0 then None else Some (item_counts cur ! n)) = snd (snd (cur ! n))"
    "\<not> (\<not> level = 0 \<and> length (item_counts cur) \<le> n)"
  using level_counts_ok [OF assms(1)] assms(2) by (auto simp: counts_match_def level_counts_def split: if_splits)

lemma last_key_take: "n < length cur \<Longrightarrow> n \<noteq> 0 \<Longrightarrow> last_key (take n cur) = Some (fst (cur ! (n - 1)))"
  by (cases n) (auto simp: last_key_def take_Suc_conv_app_nth)

lemma exact_size_loop_ref:
  assumes "level_ok f level cur" "n \<le> length cur" "sizer_ok f (level = 0) level (take n cur) siz"
  shows "\<exists>siz'. exact_size_loop (item_node f (level = 0) level cur) (level = 0) [n..<length cur] siz = Inr siz' \<and>
    sizer_ok f (level = 0) level cur siz'"
  using assms(2,3)
proof (induction "length cur - n" arbitrary: n siz)
  case 0
  then show ?case by simp
next
  case (Suc m)
  then have n: "n < length cur" by simp
  let ?i = "cur ! n"
  have take: "take (Suc n) cur = take n cur @ [?i]" using n by (simp add: take_Suc_conv_app_nth)
  have lev: "level_ok f level (take n cur @ [?i])"
    using level_ok_append [of f level "take (Suc n) cur" "drop (Suc n) cur", unfolded append_take_drop_id] assms(1) take by simp
  note size = sizes_ok(1) [OF Suc.prems(2) lev]
  obtain siz1 where siz1: "push_sized (fst ?i) (fst (snd ?i)) (snd (snd ?i)) (of_nat (ilen f level (take n cur @ [?i]))) siz = Inr siz1"
    "sizer_ok f (level = 0) level (take (Suc n) cur) siz1" using push_ok [OF Suc.prems(2) lev] unfolding take by blast
  have prev: "(if n = 0 then None else Some (map fst cur ! (n - 1))) = last_key (take n cur)"
    using n last_key_take [OF n] by simp
  obtain siz' where siz': "exact_size_loop (item_node f (level = 0) level cur) (level = 0) [Suc n..<length cur] siz1 = Inr siz'"
    "sizer_ok f (level = 0) level cur siz'"
  proof -
    have "m = length cur - Suc n" using Suc.hyps(2) by simp
    with Suc.hyps(1) [of "Suc n" siz1] n siz1(2) that show ?thesis by auto
  qed
  have ok: "\<not> (\<not> level = 0 \<and> length (item_counts cur) \<le> n \<or> length (map (fst \<circ> snd) cur) \<le> n)"
    using buffered_count(2) [OF assms(1) n] n by simp
  have "exact_size_loop (item_node f (level = 0) level cur) (level = 0) (n # [Suc n..<length cur]) siz = Inr siz'"
    unfolding exact_size_loop.simps Let_def item_node_simps prev buffered_count(1) [OF assms(1) n] if_not_P [OF ok]
    using n size siz1(1) siz'(1) by simp
  then show ?case using siz'(2) n by (simp add: upt_conv_Cons)
qed

lemma last_option_key: "last_option (map fst cur) = last_key cur"
  by (cases cur rule: rev_cases) (auto simp: last_option_def last_key_def)

lemma exact_size_after_ref:
  assumes "em_rel cfg level cur sized e" "level_ok (cfg_format cfg) level (cur @ [i])"
  shows "exact_size_after (fst i) (fst (snd i)) (snd (snd i)) e = Inr (of_nat (ilen (cfg_format cfg) level (cur @ [i])))"
proof -
  let ?f = "cfg_format cfg"
  have lev: "level_ok ?f level cur" using level_ok_append [OF assms(2)] by blast
  obtain siz where siz: "sizer_new ?f (level = 0) level = Inr siz"
    using lev sizer_new_total [of ?f "level = 0" level] by (auto simp: level_ok_def)
  obtain siz' where "exact_size_loop (item_node ?f (level = 0) level cur) (level = 0) [0..<length cur] siz = Inr siz'"
    "sizer_ok ?f (level = 0) level cur siz'"
    using exact_size_loop_ref [OF lev, of 0 siz] sizer_new_ok [OF siz] by auto
  moreover have "le_config e = cfg" "le_leaf e = (level = 0)" "le_level e = level" "le_current e = item_node ?f (level = 0) level cur"
    using assms(1) by (auto simp: em_rel_def)
  ultimately show ?thesis
    using siz sizes_ok(1) [OF _ assms(2)] by (simp add: exact_size_after_def last_option_key)
qed

section \<open>Sizing one entry\<close>

lemma em_rel_measured:
  assumes "em_rel cfg level cur cur e" "le_encoded_measure e" "level_ok (cfg_format cfg) level (cur @ [i])"
  obtains s where "le_sizer e = Some s" "expect_sizer e = Inr s"
    "size_after (last_key cur) (fst i) (fst (snd i)) (snd (snd i)) s = Inr (of_nat (ilen (cfg_format cfg) level (cur @ [i])))"
    "\<exists>s'. push_sized (fst i) (fst (snd i)) (snd (snd i)) (of_nat (ilen (cfg_format cfg) level (cur @ [i]))) s = Inr s' \<and>
       em_rel cfg level cur (cur @ [i]) (e\<lparr>le_sizer := Some s', le_upper_size := of_nat (ilen (cfg_format cfg) level (cur @ [i]))\<rparr>)"
    "saturating_sub (of_nat (ilen (cfg_format cfg) level (cur @ [i]))) (sz_size s) =
       of_nat (ilen (cfg_format cfg) level (cur @ [i]) - ilen (cfg_format cfg) level cur)"
proof -
  obtain s where s: "le_sizer e = Some s" "sizer_ok (cfg_format cfg) (level = 0) level cur s"
    using assms(1,2) by (auto simp: em_rel_def)
  obtain s' where s': "push_sized (fst i) (fst (snd i)) (snd (snd i)) (of_nat (ilen (cfg_format cfg) level (cur @ [i]))) s = Inr s'"
    "sizer_ok (cfg_format cfg) (level = 0) level (cur @ [i]) s'" using push_ok [OF s(2) assms(3)] .
  have "em_rel cfg level cur (cur @ [i]) (e\<lparr>le_sizer := Some s', le_upper_size := of_nat (ilen (cfg_format cfg) level (cur @ [i]))\<rparr>)"
    using assms(1,2) s'(2) by (simp add: em_rel_def)
  moreover have "saturating_sub (of_nat (ilen (cfg_format cfg) level (cur @ [i]))) (sz_size s) =
       of_nat (ilen (cfg_format cfg) level (cur @ [i]) - ilen (cfg_format cfg) level cur)"
    using sizes_ok(2) [OF s(2) assms(3)] ilen_mono [OF assms(3)] ilen_eq(4) [OF assms(3)]
    by (simp add: saturating_sub_of_nat del: of_nat_diff)
  ultimately show thesis
    using that [OF s(1)] s(1) sizes_ok(1) [OF s(2) assms(3)] s'(1) by (simp add: expect_sizer_def ok_or_def)
qed

definition flushes :: "config \<Rightarrow> u8 \<Rightarrow> item list \<Rightarrow> item \<Rightarrow> bool" where
  "flushes cfg level cur i \<longleftrightarrow> cur \<noteq> [] \<and> unat (hard_max cfg) < ilen (cfg_format cfg) level (cur @ [i])"

lemma flush_nonempty_ref:
  assumes "em_rel cfg level cur cur e" "cur \<noteq> []" "level_room (cfg_format cfg) level cur"
    "ilen (cfg_format cfg) level cur \<le> unat (hard_max cfg)"
  obtains e' where "flush_nonempty sha256 message e = Inr (emitted_of sha256 (cfg_format cfg) level cur, e')"
    "em_rel cfg level [] [] e'" "le_detector e' = le_detector e" "le_encoded_measure e' = le_encoded_measure e"
    "em_rel cfg level [] [] (e'\<lparr>le_detector := d\<rparr>)"
proof -
  obtain e' where e': "flush_current sha256 e = Inr (Some (emitted_of sha256 (cfg_format cfg) level cur), e')"
    "em_rel cfg level [] [] e'" "le_detector e' = le_detector e"
    using flush_current_ref [OF assms(1) refl assms(2,3,4)] .
  moreover have "em_rel cfg level [] [] (e'\<lparr>le_detector := d\<rparr>)" using e'(2) by (simp add: em_rel_def)
  moreover have "le_encoded_measure e' = le_encoded_measure e" using e'(2) assms(1) by (simp add: em_rel_def)
  ultimately show thesis using that by (simp add: flush_nonempty_def)
qed

lemma push_measured_ref:
  assumes "em_rel cfg level cur cur e" "le_encoded_measure e" "level_room (cfg_format cfg) level (cur @ [i])"
    "cur \<noteq> [] \<Longrightarrow> ilen (cfg_format cfg) level cur \<le> unat (hard_max cfg)"
    "base = (if flushes cfg level cur i then [] else cur)"
  shows "if unat (hard_max cfg) < ilen (cfg_format cfg) level (base @ [i])
    then push_measured sha256 (fst i) (fst (snd i)) (snd (snd i)) e =
      Inl (EntryTooLarge (of_nat (ilen (cfg_format cfg) level (base @ [i]))) (hard_max cfg))
    else \<exists>e'. push_measured sha256 (fst i) (fst (snd i)) (snd (snd i)) e =
      Inr (if flushes cfg level cur i then [emitted_of sha256 (cfg_format cfg) level cur] else [],
        of_nat (ilen (cfg_format cfg) level (base @ [i]) - ilen (cfg_format cfg) level base), e') \<and>
      em_rel cfg level base (base @ [i]) e' \<and>
      le_detector e' = (if flushes cfg level cur i then detector_reset (le_detector e) else le_detector e)"
proof -
  let ?f = "cfg_format cfg"
  have lev: "level_ok ?f level (cur @ [i])" "level_ok ?f level ([] @ [i])" "level_room ?f level cur"
    using assms(3) level_room_append [OF assms(3)] by (auto simp: level_room_def)
  have cfg: "le_config e = cfg" "nd_keys (le_current e) = map fst cur" using assms(1) by (auto simp: em_rel_def)
  obtain s where s0: "le_sizer e = Some s" and s: "expect_sizer e = Inr s"
    "size_after (last_key cur) (fst i) (fst (snd i)) (snd (snd i)) s = Inr (of_nat (ilen ?f level (cur @ [i])))"
    "\<exists>s'. push_sized (fst i) (fst (snd i)) (snd (snd i)) (of_nat (ilen ?f level (cur @ [i]))) s = Inr s' \<and>
       em_rel cfg level cur (cur @ [i]) (e\<lparr>le_sizer := Some s', le_upper_size := of_nat (ilen ?f level (cur @ [i]))\<rparr>)"
    "saturating_sub (of_nat (ilen ?f level (cur @ [i]))) (sz_size s) = of_nat (ilen ?f level (cur @ [i]) - ilen ?f level cur)"
    using em_rel_measured [OF assms(1,2) lev(1)] .
  note lt = u64_less_of_nat [OF ilen_eq(4) [OF lev(1)]] u64_less_of_nat [OF ilen_eq(4) [OF lev(2)]]
  show ?thesis
  proof (cases "flushes cfg level cur i")
    case True
    then have ne: "cur \<noteq> []" "unat (hard_max cfg) < ilen ?f level (cur @ [i])" by (auto simp: flushes_def)
    obtain e' where e': "flush_nonempty sha256 ''nonempty node flushes'' e = Inr (emitted_of sha256 ?f level cur, e')"
      "em_rel cfg level [] [] (e'\<lparr>le_detector := detector_reset (le_detector e)\<rparr>)" "le_detector e' = le_detector e"
      "le_encoded_measure e' = le_encoded_measure e"
      using flush_nonempty_ref [OF assms(1) ne(1) lev(3) assms(4) [OF ne(1)]] by metis
    let ?e = "e'\<lparr>le_detector := detector_reset (le_detector e)\<rparr>"
    have enc: "le_encoded_measure ?e" using e'(4) assms(2) by simp
    obtain s0 where "le_sizer ?e = Some s0" and s0: "expect_sizer ?e = Inr s0"
      "size_after None (fst i) (fst (snd i)) (snd (snd i)) s0 = Inr (of_nat (ilen ?f level [i]))"
      "\<exists>s'. push_sized (fst i) (fst (snd i)) (snd (snd i)) (of_nat (ilen ?f level [i])) s0 = Inr s' \<and>
         em_rel cfg level [] [i] (?e\<lparr>le_sizer := Some s', le_upper_size := of_nat (ilen ?f level [i])\<rparr>)"
      "saturating_sub (of_nat (ilen ?f level [i])) (sz_size s0) = of_nat (ilen ?f level [i] - ilen ?f level [])"
      using em_rel_measured [OF e'(2) enc lev(2), unfolded append_Nil item_lists_simps] .
    show ?thesis
      using True ne s0 lt unfolding push_measured_def Let_def cfg s(1,2) last_option_key assms(5) and_then_simps
      by (auto simp: e'(1,3) and_then_def)
  next
    case False
    then have stay: "\<not> (map fst cur \<noteq> [] \<and> hard_max cfg < of_nat (ilen ?f level (cur @ [i])))" using lt by (auto simp: flushes_def)
    show ?thesis
      using False s(3,4) lt
      unfolding push_measured_def Let_def cfg s(1,2) last_option_key assms(5) and_then_simps if_not_P [OF stay] prod.case if_not_P [OF False]
      by (auto simp: and_then_def)
  qed
qed

lemma bound_len_snoc: "bound_len f (cur @ [i]) = bound_len f cur + length (fst i) + length (fst (snd i)) + 74"
  by (cases i) (simp add: bound_len_def)

lemma ilen_bound_len: "level_ok f level cur \<Longrightarrow> ilen f level cur \<le> bound_len f cur"
  using ilen_eq(3) [of f level cur] ilen_empty_bound [of f level cur] by (simp add: bound_len_def)

lemma em_rel_bounded:
  assumes "em_rel cfg level cur sized e" "\<not> le_encoded_measure e"
    "ilen (cfg_format cfg) level (cur @ [i]) \<le> n" "n \<le> bound_len (cfg_format cfg) (cur @ [i])" "n < 2 ^ 64"
  shows "em_rel cfg level cur (cur @ [i]) (e\<lparr>le_upper_size := of_nat n\<rparr>)"
  using assms by (simp add: em_rel_def unat_of_nat_u64)

lemma bounded_entry_fits:
  assumes "em_rel cfg level cur cur e" "\<not> le_encoded_measure e" "level_room (cfg_format cfg) level (cur @ [i])"
    "n = unat (le_upper_size e) + (length (fst i) + length (fst (snd i)) + (if snd (snd i) \<noteq> None then 74 else 64))"
  shows "conservative_entry_upper (fst i) (fst (snd i)) (snd (snd i)) =
      Inr (of_nat (length (fst i) + length (fst (snd i)) + (if snd (snd i) \<noteq> None then 74 else 64)))"
    "checked_add (le_upper_size e) (of_nat (length (fst i) + length (fst (snd i)) + (if snd (snd i) \<noteq> None then 74 else 64))) = Some (of_nat n)"
    "ilen (cfg_format cfg) level (cur @ [i]) \<le> n" "n \<le> bound_len (cfg_format cfg) (cur @ [i])" "n < 2 ^ 64"
proof -
  let ?f = "cfg_format cfg"
  have room: "bound_len ?f (cur @ [i]) < 2 ^ 60" "level_ok ?f level (cur @ [i])" using assms(3) by (auto simp: level_room_def)
  have u: "ilen ?f level cur \<le> unat (le_upper_size e)" "unat (le_upper_size e) \<le> bound_len ?f cur"
    using assms(1,2) by (auto simp: em_rel_def)
  have "length (fst i) + length (fst (snd i)) + 74 < 2 ^ 64" using room(1) by (simp add: bound_len_snoc)
  then show "conservative_entry_upper (fst i) (fst (snd i)) (snd (snd i)) =
      Inr (of_nat (length (fst i) + length (fst (snd i)) + (if snd (snd i) \<noteq> None then 74 else 64)))"
    by (rule conservative_entry_upper_eq)
  show n: "n \<le> bound_len ?f (cur @ [i])" "n < 2 ^ 64" using u room(1) assms(4) by (auto simp: bound_len_snoc)
  show "ilen ?f level (cur @ [i]) \<le> n" using ilen_step_bound [OF room(2)] u(1) assms(4) by auto
  show "checked_add (le_upper_size e) (of_nat (length (fst i) + length (fst (snd i)) + (if snd (snd i) \<noteq> None then 74 else 64))) = Some (of_nat n)"
    using u64_word_bounds [of "unat (le_upper_size e)"] n(2) unfolding assms(4) by (simp del: of_nat_add)
qed

lemma push_bounded_ref:
  assumes "em_rel cfg level cur cur e" "\<not> le_encoded_measure e" "level_room (cfg_format cfg) level (cur @ [i])"
    "cur \<noteq> [] \<Longrightarrow> ilen (cfg_format cfg) level cur \<le> unat (hard_max cfg)"
    "base = (if flushes cfg level cur i then [] else cur)"
  shows "if unat (hard_max cfg) < ilen (cfg_format cfg) level (base @ [i])
    then push_bounded sha256 (fst i) (fst (snd i)) (snd (snd i)) e =
      Inl (EntryTooLarge (of_nat (ilen (cfg_format cfg) level (base @ [i]))) (hard_max cfg))
    else \<exists>e'. push_bounded sha256 (fst i) (fst (snd i)) (snd (snd i)) e =
      Inr (if flushes cfg level cur i then [emitted_of sha256 (cfg_format cfg) level cur] else [], 0, e') \<and>
      em_rel cfg level base (base @ [i]) e' \<and>
      le_detector e' = (if flushes cfg level cur i then detector_reset (le_detector e) else le_detector e)"
proof -
  let ?f = "cfg_format cfg"
  define n where "n = unat (le_upper_size e) + (length (fst i) + length (fst (snd i)) + (if snd (snd i) \<noteq> None then 74 else 64))"
  note up = bounded_entry_fits [OF assms(1-3) n_def]
  have lev: "level_ok ?f level (cur @ [i])" "level_ok ?f level ([] @ [i])" "level_room ?f level cur"
    using assms(3) level_room_append [OF assms(3)] by (auto simp: level_room_def)
  have cfg: "le_config e = cfg" "nd_keys (le_current e) = map fst cur" using assms(1) by (auto simp: em_rel_def)
  note lt = u64_less_of_nat [OF ilen_eq(4) [OF lev(1)]] u64_less_of_nat [OF ilen_eq(4) [OF lev(2)]] u64_less_of_nat [OF up(5)]
  note exact = exact_size_after_ref [OF assms(1) lev(1)]
  note unfold = push_bounded_def Let_def cfg up(1,2) ok_or_simps and_then_simps
  have keep: "em_rel cfg level c (c @ [i]) (e1\<lparr>le_upper_size := of_nat (ilen ?f level (c @ [i]))\<rparr>)"
    if "em_rel cfg level c c e1" "le_encoded_measure e1 = le_encoded_measure e" "level_ok ?f level (c @ [i])" for c e1
    using em_rel_bounded [OF that(1) _ order_refl ilen_bound_len [OF that(3)] ilen_eq(4) [OF that(3)]] that(2) assms(2) by simp
  consider "\<not> unat (hard_max cfg) < n" | "unat (hard_max cfg) < n" "flushes cfg level cur i"
    | "unat (hard_max cfg) < n" "\<not> flushes cfg level cur i" by blast
  then show ?thesis
  proof cases
    case 1
    then have "\<not> unat (hard_max cfg) < ilen ?f level (cur @ [i])" using up(3) by simp
    moreover from this have "\<not> flushes cfg level cur i" by (simp add: flushes_def)
    ultimately show ?thesis
      unfolding unfold using 1 lt em_rel_bounded [OF assms(1,2) up(3-5)] by (simp add: assms(5))
  next
    case 2
    then have ne: "cur \<noteq> []" "unat (hard_max cfg) < ilen ?f level (cur @ [i])" by (auto simp: flushes_def)
    obtain e' where e': "flush_nonempty sha256 ''nonempty node flushes'' e = Inr (emitted_of sha256 ?f level cur, e')"
      "em_rel cfg level [] [] (e'\<lparr>le_detector := detector_reset (le_detector e)\<rparr>)" "le_detector e' = le_detector e"
      "le_encoded_measure e' = le_encoded_measure e"
      using flush_nonempty_ref [OF assms(1) ne(1) lev(3) assms(4) [OF ne(1)]] by metis
    note exact0 = exact_size_after_ref [OF e'(2) lev(2), unfolded append_Nil]
    show ?thesis
      unfolding unfold using 2 ne lt exact exact0 e' keep [OF e'(2) _ lev(2)] by (auto simp: assms(5))
  next
    case 3
    then have stay: "\<not> (map fst cur \<noteq> [] \<and> hard_max cfg < of_nat (ilen ?f level (cur @ [i])))" using lt by (auto simp: flushes_def)
    show ?thesis
      unfolding unfold exact if_not_P [OF stay] prod.case assms(5) if_not_P [OF 3(2)]
      using 3 lt keep [OF assms(1) refl lev(1)] by auto
  qed
qed

section \<open>Detectors that do not measure encoded bytes\<close>

abbreviation forget :: "detector \<Rightarrow> detector" where
  "forget d \<equiv> d\<lparr>bd_encoded_bytes := 0\<rparr>"

lemma roll_byte_forget: "roll_byte xxh64 b (forget d) = map_ok forget (roll_byte xxh64 b d)"
  by (auto simp: roll_byte_def map_ok_def and_then_def Let_def split: option.split prod.split sum.split)

lemma roll_bytes_forget: "roll_bytes xxh64 bs (forget d) = map_ok forget (roll_bytes xxh64 bs d)"
proof (induction bs arbitrary: d)
  case (Cons b bs)
  then show ?case by (cases "roll_byte xxh64 b d") (simp_all add: roll_byte_forget)
qed simp

lemma roll_byte_keeps: "roll_byte xxh64 b d = Inr d' \<Longrightarrow> bd_encoded_bytes d' = bd_encoded_bytes d \<and> bd_spec d' = bd_spec d"
  by (auto simp: roll_byte_def and_then_Inr_iff Let_def case_prod_unfold split: option.splits)

lemma roll_bytes_keeps: "roll_bytes xxh64 bs d = Inr d' \<Longrightarrow> bd_encoded_bytes d' = bd_encoded_bytes d \<and> bd_spec d' = bd_spec d"
proof (induction bs arbitrary: d)
  case (Cons b bs)
  then show ?case using roll_byte_keeps by (fastforce simp: and_then_Inr_iff)
qed simp

lemma observe_rolling_forget: "observe_rolling xxh64 key val (forget d) = map_ok forget (observe_rolling xxh64 key val d)"
proof (cases "is_rolling (cs_rule (bd_spec d))")
  case True
  have spec: "bd_spec d2 = bd_spec d1" if "roll_bytes xxh64 key d1 = Inr d2" for d1 d2 using roll_bytes_keeps [OF that] by simp
  show ?thesis
    using True
    by (cases "roll_bytes xxh64 (to_be_bytes64 (of_nat (length key))) d")
      (auto simp: observe_rolling_def rolling_feed_len_def roll_bytes_forget and_then_def split: sum.split)
qed (simp add: observe_rolling_def)

lemma observe_rolling_keeps:
  assumes "observe_rolling xxh64 key val d = Inr d'"
  shows "bd_encoded_bytes d' = bd_encoded_bytes d \<and> bd_spec d' = bd_spec d"
proof (cases "is_rolling (cs_rule (bd_spec d))")
  case True
  with assms obtain d1 d2 where "roll_bytes xxh64 (to_be_bytes64 (of_nat (length key))) d = Inr d1" "roll_bytes xxh64 key d1 = Inr d2"
    and rest: "(if cs_input (bd_spec d2) = KeyValue
      then and_then (rolling_feed_len xxh64 (of_nat (length val)) d2) (roll_bytes xxh64 val) else Inr d2) = Inr d'"
    by (auto simp: observe_rolling_def rolling_feed_len_def and_then_Inr_iff)
  then have d2: "bd_encoded_bytes d2 = bd_encoded_bytes d \<and> bd_spec d2 = bd_spec d" using roll_bytes_keeps by metis
  show ?thesis
  proof (cases "cs_input (bd_spec d2) = KeyValue")
    case True
    with rest obtain d3 where "roll_bytes xxh64 (to_be_bytes64 (of_nat (length val))) d2 = Inr d3" "roll_bytes xxh64 val d3 = Inr d'"
      by (auto simp: and_then_Inr_iff rolling_feed_len_def)
    then show ?thesis using d2 roll_bytes_keeps by metis
  qed (use rest d2 in simp)
qed (use assms in \<open>simp add: observe_rolling_def\<close>)

lemma decide_forget:
  assumes "cs_measure (bd_spec d) \<noteq> EncodedBytes" "bd_encoded_bytes d < cs_hard_max_node_bytes (bd_spec d)"
  shows "decide input_hash (forget d) = decide input_hash d"
proof -
  have "measure_of (forget d) = measure_of d" using assms(1) by (simp add: measure_of_def split: chunk_measure.split)
  moreover have "\<not> cs_hard_max_node_bytes (bd_spec d) \<le> 0" "\<not> cs_hard_max_node_bytes (bd_spec d) \<le> bd_encoded_bytes d"
    using assms(2) by (auto simp: word_le_nat_alt word_less_nat_alt)
  ultimately show ?thesis by (simp add: decide_def rule_boundary_def Let_def split: boundary_rule.split)
qed

lemma detector_reset_forget: "detector_reset (forget d) = detector_reset d" "forget (detector_reset d) = detector_reset d"
  by (simp_all add: detector_reset_def)

lemma observe_forget:
  assumes "cs_measure (bd_spec d) \<noteq> EncodedBytes" "\<not> cs_hard_max_node_bytes (bd_spec d) < enc"
    "saturating_add (bd_encoded_bytes d) enc < cs_hard_max_node_bytes (bd_spec d)"
  shows "observe xxh64 key val 0 (forget d) = map_ok (\<lambda>(b, d'). (b, forget d')) (observe xxh64 key val enc d)"
proof -
  have big: "\<not> (bd_entries d = 0 \<and> cs_hard_max_node_bytes (bd_spec d) < enc)"
    "\<not> (bd_entries (forget d) = 0 \<and> cs_hard_max_node_bytes (bd_spec (forget d)) < 0)" using assms(2) by auto
  let ?c = "observe_counters key val enc d"
  have c: "observe_counters key val 0 (forget d) = forget ?c"
    using assms(1) by (simp add: observe_counters_def measure_of_def saturating_add_def split: chunk_measure.split)
  have spec: "bd_spec ?c = bd_spec d" "bd_encoded_bytes ?c < cs_hard_max_node_bytes (bd_spec d)"
    using assms(3) by (simp_all add: observe_counters_def)
  have dec: "decide h (forget d2) = decide h d2"
    if "(if is_rolling (cs_rule (bd_spec d)) then observe_rolling xxh64 key val ?c else Inr ?c) = Inr d2" for d2 h
    using that observe_rolling_keeps [of xxh64 key val ?c d2] spec assms(1) by (intro decide_forget) (auto split: if_splits)
  show ?thesis
    unfolding observe_unfold [OF big(1)] observe_unfold [OF big(2)] c
    using dec by (cases "observe_rolling xxh64 key val ?c"; cases "is_rolling (cs_rule (bd_spec d))")
      (auto simp: observe_rolling_forget detector_reset_forget and_then_def split: sum.split)
qed

text \<open>The emitter's detector \<open>d\<close> and the reference's detector \<open>det\<close>, both with \<open>cur\<close> open.\<close>

definition det_rel :: "xxhash \<Rightarrow> config \<Rightarrow> u8 \<Rightarrow> item list \<Rightarrow> detector \<Rightarrow> detector \<Rightarrow> bool" where
  "det_rel xxh64 cfg level cur det d \<longleftrightarrow>
     (\<exists>fed. detector_ok xxh64 det fed) \<and> cs_hard_max_node_bytes (bd_spec det) = hard_max cfg \<and>
     cs_measure (bd_spec det) = cs_measure (tf_chunking (cfg_format cfg)) \<and>
     bd_encoded_bytes det = of_nat (ilen (cfg_format cfg) level cur - ilen (cfg_format cfg) level []) \<and>
     d = (if cs_measure (tf_chunking (cfg_format cfg)) = EncodedBytes then det else forget det)"

lemma det_rel_reset: "det_rel xxh64 cfg level cur det d \<Longrightarrow> det_rel xxh64 cfg level [] (detector_reset det) (detector_reset d)"
  using detector_ok_reset by (auto simp: det_rel_def detector_reset_forget) (auto simp: detector_reset_def)

lemma det_rel_observe:
  assumes "det_rel xxh64 cfg level base det d" "level_ok (cfg_format cfg) level (base @ [i])"
    "ilen (cfg_format cfg) level (base @ [i]) \<le> unat (hard_max cfg)"
    "enc = of_nat (ilen (cfg_format cfg) level (base @ [i]) - ilen (cfg_format cfg) level base)"
  obtains b det' d' where "observe xxh64 key val enc det = Inr (b, det')"
    "observe xxh64 key val (if cs_measure (tf_chunking (cfg_format cfg)) = EncodedBytes then enc else 0) d = Inr (b, d')"
    "det_rel xxh64 cfg level (if b then [] else base @ [i]) det' d'"
proof -
  let ?f = "cfg_format cfg" let ?encoded = "cs_measure (tf_chunking ?f) = EncodedBytes"
  note r = assms(1) [unfolded det_rel_def]
  then obtain fed where fed: "detector_ok xxh64 det fed" by blast
  have lev: "level_ok ?f level base" "level_ok ?f level []"
    using level_ok_append [OF assms(2)] level_ok_append [of ?f level "[]" base] by auto
  note mono = ilen_mono [OF assms(2)] ilen_eq(2) [OF lev(1)] ilen_pos [OF lev(2)] ilen_eq(4) [OF assms(2)]
  have small: "\<not> hard_max cfg < enc"
    using assms(3) mono by (simp add: assms(4) word_less_nat_alt unat_of_nat_u64 del: of_nat_diff)
  have add: "saturating_add (bd_encoded_bytes det) enc = of_nat (ilen ?f level (base @ [i]) - ilen ?f level [])"
  proof -
    have "ilen ?f level base - ilen ?f level [] + (ilen ?f level (base @ [i]) - ilen ?f level base) = ilen ?f level (base @ [i]) - ilen ?f level []"
      using mono by simp
    then show ?thesis
      using saturating_add_of_nat [of "ilen ?f level base - ilen ?f level []" "ilen ?f level (base @ [i]) - ilen ?f level base"] mono r
      by (simp add: assms(4) del: of_nat_diff)
  qed
  have big: "\<not> (bd_entries det = 0 \<and> cs_hard_max_node_bytes (bd_spec det) < enc)" using r small by auto
  from observe_step [OF fed big, of key val] obtain b d2 where
    o: "observe xxh64 key val enc det = Inr (b, if b then detector_reset d2 else d2)"
    and s: "same_counters (observe_counters key val enc det) d2"
    and ok2: "detector_ok xxh64 d2 (fed @ hash_input (cs_input (bd_spec det)) key val)" .
  have d2: "bd_spec d2 = bd_spec det" "bd_encoded_bytes d2 = of_nat (ilen ?f level (base @ [i]) - ilen ?f level [])"
    using s add by (simp_all add: same_counters_def observe_counters_def)
  let ?det' = "if b then detector_reset d2 else d2"
  let ?d' = "if ?encoded then ?det' else forget ?det'"
  have "observe xxh64 key val (if ?encoded then enc else 0) d = Inr (b, ?d')"
  proof (cases ?encoded)
    case True
    then show ?thesis using r o by simp
  next
    case False
    have "saturating_add (bd_encoded_bytes det) enc < cs_hard_max_node_bytes (bd_spec det)"
      unfolding add using r mono assms(3) by (simp add: word_less_nat_alt unat_of_nat_u64 del: of_nat_diff)
    from observe_forget [OF _ _ this, of xxh64 key val] False r small o show ?thesis by simp
  qed
  moreover have "det_rel xxh64 cfg level (if b then [] else base @ [i]) ?det' ?d'"
    using r d2 ok2 detector_ok_reset [OF ok2] by (auto simp: det_rel_def) (auto simp: detector_reset_def)
  ultimately show thesis using that o by blast
qed

section \<open>The emitter is the reference\<close>

definition ref_push :: "xxhash \<Rightarrow> tree_format \<Rightarrow> u8 \<Rightarrow> item \<Rightarrow> item list \<Rightarrow> detector \<Rightarrow> error + item list list \<times> item list \<times> detector" where
  "ref_push xxh64 f level i cur det =
     (let limit = cs_hard_max_node_bytes (tf_chunking f); flush = (cur \<noteq> [] \<and> unat limit < ilen f level (cur @ [i]));
          base = (if flush then [] else cur); det = (if flush then detector_reset det else det); node = base @ [i];
          size = ilen f level node in
      if unat limit < size then Inl (EntryTooLarge (of_nat size) limit)
      else and_then (observe xxh64 (fst i) (fst (snd i)) (of_nat (size - ilen f level base)) det) (\<lambda>(boundary, det).
        Inr ((if flush then [cur] else []) @ (if boundary then [node] else []), if boundary then [] else node, det)))"

lemma ref_chunks_push:
  "ref_chunks xxh64 f level (i # rest) cur det =
    and_then (ref_push xxh64 f level i cur det) (\<lambda>(gs, cur, det). map_ok ((@) gs) (ref_chunks xxh64 f level rest cur det))"
  by (auto simp: ref_push_def Let_def and_then_def map_ok_def split: sum.split prod.split)

definition em_ok :: "xxhash \<Rightarrow> config \<Rightarrow> u8 \<Rightarrow> item list \<Rightarrow> detector \<Rightarrow> level_emitter \<Rightarrow> bool" where
  "em_ok xxh64 cfg level cur det e \<longleftrightarrow>
     em_rel cfg level cur cur e \<and> det_rel xxh64 cfg level cur det (le_detector e) \<and>
     (cur \<noteq> [] \<longrightarrow> ilen (cfg_format cfg) level cur \<le> unat (hard_max cfg))"

lemma held_bytes_snoc:
  assumes "validate_child_count (level = 0) (snd (snd i)) = Inr ()"
  shows "held_bytes level (cur @ [i]) = held_bytes level cur + length (fst i) + length (fst (snd i)) + (if snd (snd i) \<noteq> None then 8 else 0)"
  using assms by (cases i; cases "level = 0") (auto simp: held_bytes_def validate_child_count_def split: option.splits)

lemma buffer_push:
  assumes "em_rel cfg level base (base @ [i]) e" "level_room (cfg_format cfg) level (base @ [i])"
  obtains payload where
    "Option.bind (checked_add (le_current_payload_bytes e) (of_nat (length (fst i)))) (\<lambda>bytes.
         Option.bind (checked_add bytes (of_nat (length (fst (snd i))))) (\<lambda>bytes.
         checked_add bytes (if snd (snd i) \<noteq> None then 8 else 0))) = Some payload"
    "em_rel cfg level (base @ [i]) (base @ [i]) (e\<lparr>le_detector := d, le_current_payload_bytes := payload,
       le_current := (le_current e)\<lparr>nd_keys := nd_keys (le_current e) @ [fst i], nd_vals := nd_vals (le_current e) @ [fst (snd i)],
         nd_child_counts := nd_child_counts (le_current e) @ (case snd (snd i) of None \<Rightarrow> [] | Some c \<Rightarrow> [c])\<rparr>\<rparr>)"
proof -
  have valid: "validate_child_count (level = 0) (snd (snd i)) = Inr ()"
    using assms(2) by (cases i) (auto simp: level_room_def level_ok_def items_ok_def)
  let ?c = "if snd (snd i) \<noteq> None then 8 else (0 :: nat)"
  have "held_bytes level (base @ [i]) \<le> upper_len (base @ [i])" by (simp add: held_bytes_def upper_len_eq)
  moreover have "upper_len (base @ [i]) < 2 ^ 64" using assms(2) by (simp add: level_room_def bound_len_def)
  ultimately have lt: "held_bytes level base + length (fst i) + length (fst (snd i)) + ?c < 2 ^ 64"
    using held_bytes_snoc [OF valid, of base] by linarith
  have p: "le_current_payload_bytes e = of_nat (held_bytes level base)" using assms(1) by (simp add: em_rel_def)
  have c: "(if snd (snd i) \<noteq> None then 8 else 0) = (of_nat ?c :: u64)" by simp
  have "Option.bind (checked_add (le_current_payload_bytes e) (of_nat (length (fst i)))) (\<lambda>bytes.
         Option.bind (checked_add bytes (of_nat (length (fst (snd i))))) (\<lambda>bytes.
         checked_add bytes (if snd (snd i) \<noteq> None then 8 else 0))) = Some (of_nat (held_bytes level (base @ [i])))"
    unfolding c p held_bytes_snoc [OF valid]
    using lt u64_word_bounds [of "held_bytes level base" "length (fst i)"]
      u64_word_bounds [of "held_bytes level base + length (fst i)" "length (fst (snd i))"]
      u64_word_bounds [of "held_bytes level base + length (fst i) + length (fst (snd i))" ?c]
    by (simp del: of_nat_add)
  moreover have "item_node (cfg_format cfg) (level = 0) level (base @ [i]) = (item_node (cfg_format cfg) (level = 0) level base)
      \<lparr>nd_keys := map fst base @ [fst i], nd_vals := map (fst \<circ> snd) base @ [fst (snd i)],
       nd_child_counts := item_counts base @ (case snd (snd i) of None \<Rightarrow> [] | Some c \<Rightarrow> [c])\<rparr>"
    by (cases i) (simp add: item_node_def)
  ultimately show thesis using assms(1) by (intro that) (auto simp: em_rel_def)
qed

lemma snoc_not_Nil: "xs @ [x] \<noteq> []"
  by simp

lemma emitter_push_ref:
  assumes "em_ok xxh64 cfg level cur det e" "level_room (cfg_format cfg) level (cur @ [i])"
  shows "case ref_push xxh64 (cfg_format cfg) level i cur det of
      Inl err \<Rightarrow> push_entry_with sha256 xxh64 (fst i) (fst (snd i)) (snd (snd i)) e = Inl err
    | Inr (gs, cur', det') \<Rightarrow> \<exists>e'. push_entry_with sha256 xxh64 (fst i) (fst (snd i)) (snd (snd i)) e =
        Inr (map (emitted_of sha256 (cfg_format cfg) level) gs, e') \<and> em_ok xxh64 cfg level cur' det' e'"
proof -
  let ?f = "cfg_format cfg" let ?flush = "flushes cfg level cur i" let ?E = "cs_measure (tf_chunking ?f) = EncodedBytes"
  note rel = assms(1) [unfolded em_ok_def]
  define base where "base = (if ?flush then [] else cur)"
  define det0 where "det0 = (if ?flush then detector_reset det else det)"
  define enc where "enc = (of_nat (ilen ?f level (base @ [i]) - ilen ?f level base) :: u64)"
  let ?sized = "if le_encoded_measure e then push_measured sha256 (fst i) (fst (snd i)) (snd (snd i)) e
               else push_bounded sha256 (fst i) (fst (snd i)) (snd (snd i)) e"
  have E: "le_encoded_measure e = ?E" using rel by (simp add: em_rel_def)
  have ref: "ref_push xxh64 ?f level i cur det =
      (if unat (hard_max cfg) < ilen ?f level (base @ [i]) then Inl (EntryTooLarge (of_nat (ilen ?f level (base @ [i]))) (hard_max cfg))
      else and_then (observe xxh64 (fst i) (fst (snd i)) enc det0) (\<lambda>(boundary, det).
        Inr ((if ?flush then [cur] else []) @ (if boundary then [base @ [i]] else []), if boundary then [] else base @ [i], det)))"
    unfolding ref_push_def Let_def base_def det0_def enc_def flushes_def hard_max_def by (rule refl)
  have sized: "if unat (hard_max cfg) < ilen ?f level (base @ [i])
    then ?sized = Inl (EntryTooLarge (of_nat (ilen ?f level (base @ [i]))) (hard_max cfg))
    else \<exists>e'. ?sized = Inr (if ?flush then [emitted_of sha256 ?f level cur] else [], if ?E then enc else 0, e') \<and>
      em_rel cfg level base (base @ [i]) e' \<and> le_detector e' = (if ?flush then detector_reset (le_detector e) else le_detector e)"
    using push_measured_ref [OF _ _ assms(2) _ base_def, of e sha256] push_bounded_ref [OF _ _ assms(2) _ base_def, of e sha256] rel E
    unfolding enc_def by (cases ?E) auto
  show ?thesis
  proof (cases "unat (hard_max cfg) < ilen ?f level (base @ [i])")
    case True
    then show ?thesis using sized by (simp add: ref push_entry_with_def)
  next
    case False
    then obtain e1 where e1: "?sized = Inr (if ?flush then [emitted_of sha256 ?f level cur] else [], if ?E then enc else 0, e1)"
      "em_rel cfg level base (base @ [i]) e1" "le_detector e1 = (if ?flush then detector_reset (le_detector e) else le_detector e)"
      using sized by auto
    have room: "level_room ?f level (base @ [i])" using assms(2) level_room_append [OF assms(2)] by (simp add: base_def)
    then have lev: "level_ok ?f level (base @ [i])" by (simp add: level_room_def)
    have "det_rel xxh64 cfg level base det0 (le_detector e1)"
      using rel det_rel_reset by (auto simp: base_def det0_def e1(3))
    then obtain b det' d' where obs: "observe xxh64 (fst i) (fst (snd i)) enc det0 = Inr (b, det')"
      "observe xxh64 (fst i) (fst (snd i)) (if ?E then enc else 0) (le_detector e1) = Inr (b, d')"
      "det_rel xxh64 cfg level (if b then [] else base @ [i]) det' d'"
      using det_rel_observe [OF _ lev _ enc_def] False by (metis not_less)
    from buffer_push [OF e1(2) room, of d'] obtain payload where
      pay: "Option.bind (checked_add (le_current_payload_bytes e1) (of_nat (length (fst i)))) (\<lambda>bytes.
         Option.bind (checked_add bytes (of_nat (length (fst (snd i))))) (\<lambda>bytes.
         checked_add bytes (if snd (snd i) \<noteq> None then 8 else 0))) = Some payload"
      and e2: "em_rel cfg level (base @ [i]) (base @ [i]) (e1\<lparr>le_detector := d', le_current_payload_bytes := payload,
       le_current := (le_current e1)\<lparr>nd_keys := nd_keys (le_current e1) @ [fst i], nd_vals := nd_vals (le_current e1) @ [fst (snd i)],
         nd_child_counts := nd_child_counts (le_current e1) @ (case snd (snd i) of None \<Rightarrow> [] | Some c \<Rightarrow> [c])\<rparr>\<rparr>)" (is "em_rel _ _ _ _ ?e2") .
    have push: "push_entry_with sha256 xxh64 (fst i) (fst (snd i)) (snd (snd i)) e =
        (if b then and_then (flush_nonempty sha256 ''observed entry makes node nonempty'' ?e2)
          (\<lambda>(node, e). Inr ((if ?flush then [emitted_of sha256 ?f level cur] else []) @ [node], e))
         else Inr (if ?flush then [emitted_of sha256 ?f level cur] else [], ?e2))"
      unfolding push_entry_with_def e1(1) and_then_simps prod.case obs(2) pay ok_or_simps Let_def by (rule refl)
    have "ilen ?f level (base @ [i]) \<le> unat (hard_max cfg)" using False by simp
    then obtain e3 where e3: "flush_nonempty sha256 ''observed entry makes node nonempty'' ?e2 = Inr (emitted_of sha256 ?f level (base @ [i]), e3)"
      "em_rel cfg level [] [] e3" "le_detector e3 = le_detector ?e2" "le_encoded_measure e3 = le_encoded_measure ?e2"
      "em_rel cfg level [] [] (e3\<lparr>le_detector := d'\<rparr>)"
      using flush_nonempty_ref [OF e2 snoc_not_Nil room] by blast
    show ?thesis
    proof (cases b)
      case True
      have "em_ok xxh64 cfg level [] det' e3" using e3(2,3) obs(3) True by (simp add: em_ok_def)
      then show ?thesis using True obs(1) False e3(1) by (auto simp: ref push)
    next
      case nb: False
      have "em_ok xxh64 cfg level (base @ [i]) det' ?e2" using e2 obs(3) nb False by (simp add: em_ok_def)
      then show ?thesis using nb obs(1) False by (auto simp: ref push)
    qed
  qed
qed

lemma level_emitter_new_ok:
  assumes "level_room (cfg_format cfg) level []" "detector_new (tf_chunking (cfg_format cfg)) (ucast level) = Inr det"
  obtains e where "level_emitter_new cfg (level = 0) level = Inr e" "em_ok xxh64 cfg level [] det e"
proof -
  let ?f = "cfg_format cfg" let ?E = "cs_measure (tf_chunking ?f) = EncodedBytes"
  have lev: "level_ok ?f level []" and small: "bound_len ?f [] < 2 ^ 60" using assms(1) by (auto simp: level_room_def)
  then have valid: "format_validate ?f = Inr ()" "registered ?f" by (auto simp: level_ok_def)
  obtain siz where siz: "sizer_new ?f (level = 0) level = Inr siz"
    using sizer_new_total [of ?f "level = 0" level] lev by (auto simp: level_ok_def)
  have upper: "conservative_empty_upper ?f = Inr (of_nat (128 + name_len ?f))"
    using small by (intro conservative_empty_upper_eq) (simp add: bound_len_def)
  define e where "e = \<lparr>le_config = cfg, le_leaf = (level = 0), le_level = level, le_current = new_builder_node cfg (level = 0) level,
    le_detector = det, le_sizer = (if ?E then Some siz else None), le_encoded_measure = ?E,
    le_upper_size = (if ?E then sz_size siz else of_nat (128 + name_len ?f)), le_current_payload_bytes = 0\<rparr>"
  have "level_emitter_new cfg (level = 0) level = Inr e"
    using valid siz upper assms(2)
    by (auto simp: level_emitter_new_def Let_def e_def simp del: of_nat_add split: node_layout_spec.split)
  moreover have "em_rel cfg level [] [] e"
    using sizer_new_ok [OF siz] ilen_empty_bound [OF lev] small
    by (auto simp: em_rel_def e_def new_builder_node_eq held_bytes_def payload_size_def bound_len_def unat_of_nat_u64 simp del: of_nat_add)
  moreover have "det_rel xxh64 cfg level [] det det"
  proof -
    have "bd_encoded_bytes det = 0" "bd_spec det = level_spec (tf_chunking ?f) (ucast level)"
      using assms(2) by (auto simp: detector_new_def and_then_Inr_iff Let_def)
    moreover have "cs_hard_max_node_bytes (level_spec s n) = cs_hard_max_node_bytes s" "cs_measure (level_spec s n) = cs_measure s" for s n
      by (simp_all add: level_spec_def Let_def)
    ultimately show ?thesis using detector_new_ok [OF assms(2), of xxh64] by (auto simp: det_rel_def hard_max_def)
  qed
  ultimately show thesis using that by (simp add: em_ok_def e_def)
qed

end
