(* ===== verification/Builder.thy ===== *)
theory Builder
  imports Level_Emitter
begin

text \<open>
  The bulk builder of \<^verbatim>\<open>src/src/prolly/builder.rs\<close>: entries are sorted, the last value added for a
  key wins, every level is cut into nodes, and the levels are built bottom-up until one node
  is left.  \<open>batch_build\<close> is \<open>BatchBuilder::build\<close>; the serial builders of one level and of the levels
  above given leaves use the streaming emitter.  The store is reached through
  \<open>publish_nodes\<close> only, which is a parameter; a store that records what was published is
  \<open>publish_log\<close>.  Where the code adds machine integers without a check, overflow is a panic.
\<close>

section \<open>Definitions\<close>

record built_node =
  bn_cid :: cid
  bn_first_key :: bytes
  bn_count :: u64
  bn_bytes :: bytes

record deferred_node =
  dn_cid :: cid
  dn_bytes :: bytes
  dn_node :: node

record 's batch_builder =
  bb_store :: 's
  bb_config :: config
  bb_origin :: publication_origin
  bb_entries :: "entry list"

type_synonym 's publisher = "'s \<Rightarrow> node_publication \<Rightarrow> error + 's"

definition batch_builder_new_with_origin :: "'s \<Rightarrow> config \<Rightarrow> publication_origin \<Rightarrow> 's batch_builder" where
  "batch_builder_new_with_origin store cfg origin =
     \<lparr>bb_store = store, bb_config = cfg, bb_origin = origin, bb_entries = []\<rparr>"

definition batch_builder_new :: "'s \<Rightarrow> config \<Rightarrow> 's batch_builder" where
  "batch_builder_new store cfg = batch_builder_new_with_origin store cfg TreeBuild"

definition batch_add :: "bytes \<Rightarrow> bytes \<Rightarrow> 's batch_builder \<Rightarrow> 's batch_builder" where
  "batch_add key val b = b\<lparr>bb_entries := bb_entries b @ [(key, val)]\<rparr>"

definition push_unique :: "entry list \<Rightarrow> entry \<Rightarrow> entry list" where
  "push_unique unique e =
     (if unique \<noteq> [] \<and> fst (last unique) = fst e
      then butlast unique @ [(fst (last unique), snd e)] else unique @ [e])"

definition sorted_unique :: "entry list \<Rightarrow> entry list" where
  "sorted_unique entries = foldl push_unique [] (sort_key fst entries)"

definition persist_nodes :: "'s publisher \<Rightarrow> 's \<Rightarrow> built_node list \<Rightarrow> publication_origin \<Rightarrow> error + 's" where
  "persist_nodes publish store nodes origin =
     (if nodes = [] then Inr store
      else publish store (publication_new (map (\<lambda>n. (bn_cid n, bn_bytes n)) nodes) origin))"

definition first_or_default :: "bytes list \<Rightarrow> bytes" where
  "first_or_default keys = (case keys of [] \<Rightarrow> [] | key # _ \<Rightarrow> key)"

definition summary_of_built :: "built_node \<Rightarrow> node_summary" where
  "summary_of_built n = \<lparr>ns_cid = bn_cid n, ns_first_key = bn_first_key n, ns_count = bn_count n\<rparr>"

text \<open>One leaf of \<open>parallel_chunk\<close> and one node of \<open>build_level\<close>: the closures of the parallel iterators.\<close>

definition leaf_chunk :: "hash256 \<Rightarrow> config \<Rightarrow> entry list \<Rightarrow> range \<Rightarrow> error + built_node" where
  "leaf_chunk sha256 cfg entries r =
     (let start = fst r; final = snd r in
      if final < start then Inl (Panic ''attempt to subtract with overflow'')
      else if length entries \<le> final then Inl (Panic ''index out of bounds'')
      else let chunk = map (\<lambda>i. entries ! i) [start..<final + 1];
               node = (new_builder_node cfg True 0)\<lparr>nd_keys := map fst chunk, nd_vals := map snd chunk\<rparr> in
        and_then (to_bytes node) (\<lambda>bs.
        Inr \<lparr>bn_cid = cid_from_bytes sha256 bs, bn_first_key = first_or_default (nd_keys node),
          bn_count = of_nat (final - start + 1), bn_bytes = bs\<rparr>))"

definition internal_chunk :: "hash256 \<Rightarrow> config \<Rightarrow> u8 \<Rightarrow> node_summary list \<Rightarrow> range \<Rightarrow> error + built_node" where
  "internal_chunk sha256 cfg level children r =
     (let start = fst r; final = snd r in
      if final < start then Inl (Panic ''attempt to subtract with overflow'')
      else let chunk = drop start (take (final + 1) children);
               node = (new_builder_node cfg False level)\<lparr>nd_keys := map ns_first_key chunk, nd_vals := map ns_cid chunk,
                 nd_child_counts := map ns_count chunk\<rparr> in
        and_then (to_bytes node) (\<lambda>bs.
        if length children \<le> final then Inl (Panic ''range end index out of range for slice'')
        else and_then (sum_counts 0 (map ns_count chunk)) (\<lambda>count.
        Inr \<lparr>bn_cid = cid_from_bytes sha256 bs, bn_first_key = first_or_default (nd_keys node), bn_count = count, bn_bytes = bs\<rparr>)))"

definition parallel_chunk ::
  "hash256 \<Rightarrow> xxhash \<Rightarrow> 's publisher \<Rightarrow> config \<Rightarrow> publication_origin \<Rightarrow> entry list \<Rightarrow> 's \<Rightarrow> error + node_summary list \<times> 's" where
  "parallel_chunk sha256 xxh64 publish cfg origin entries store =
     (if entries = [] then Inr ([], store)
      else and_then (chunk_ranges_for_entries_parallel xxh64 cfg 0 entries None) (\<lambda>ranges.
        and_then (collect_results (map (leaf_chunk sha256 cfg entries) ranges)) (\<lambda>nodes.
        and_then (persist_nodes publish store nodes origin) (\<lambda>store.
        Inr (map summary_of_built nodes, store)))))"

definition build_level ::
  "hash256 \<Rightarrow> xxhash \<Rightarrow> 's publisher \<Rightarrow> config \<Rightarrow> publication_origin \<Rightarrow> u8 \<Rightarrow> node_summary list \<Rightarrow> 's \<Rightarrow>
   error + node_summary list \<times> 's" where
  "build_level sha256 xxh64 publish cfg origin level children store =
     (if children = [] then Inr ([], store)
      else and_then (chunk_ranges_for_entries_parallel xxh64 cfg level
          (map (\<lambda>c. (ns_first_key c, ns_cid c)) children) (Some (map ns_count children))) (\<lambda>ranges.
        and_then (collect_results (map (internal_chunk sha256 cfg level children) ranges)) (\<lambda>nodes.
        and_then (persist_nodes publish store nodes origin) (\<lambda>store.
        Inr (map summary_of_built nodes, store)))))"

definition root_tree :: "config \<Rightarrow> node_summary list \<Rightarrow> tree" where
  "root_tree cfg nodes = \<lparr>tr_root = (case nodes of [] \<Rightarrow> None | n # _ \<Rightarrow> Some (ns_cid n)), tr_config = cfg\<rparr>"

lemma unat_level_Suc: "level \<noteq> 255 \<Longrightarrow> unat (level + 1 :: u8) = unat level + 1"
proof -
  assume "level \<noteq> 255"
  then have "1 + level \<noteq> 0" by (auto simp: add_eq_0_iff)
  then show ?thesis using unatSuc [of level] by (simp add: add.commute)
qed

lemma level_up_decreases: "level \<noteq> 255 \<Longrightarrow> 255 - unat (level + 1 :: u8) < 255 - unat level"
  using unat_level_Suc [of level] unat_byte_lt [of level] word_unat_eq_iff [of level 255] by auto

function build_levels ::
  "hash256 \<Rightarrow> xxhash \<Rightarrow> 's publisher \<Rightarrow> config \<Rightarrow> publication_origin \<Rightarrow> u8 \<Rightarrow> node_summary list \<Rightarrow> 's \<Rightarrow> error + tree \<times> 's" where
  "build_levels sha256 xxh64 publish cfg origin level level_nodes store =
     (if 1 < length level_nodes
      then if level = 255 then Inl (Panic ''attempt to add with overflow'')
        else and_then (build_level sha256 xxh64 publish cfg origin (level + 1) level_nodes store) (\<lambda>(level_nodes, store).
          build_levels sha256 xxh64 publish cfg origin (level + 1) level_nodes store)
      else Inr (root_tree cfg level_nodes, store))"
  by pat_completeness auto

termination
  by (relation "measure (\<lambda>(_, _, _, _, _, level, _, _). 255 - unat level)")
    (simp_all add: level_up_decreases)

declare build_levels.simps [simp del]

definition build_from_chunks ::
  "hash256 \<Rightarrow> xxhash \<Rightarrow> 's publisher \<Rightarrow> config \<Rightarrow> publication_origin \<Rightarrow> node_summary list \<Rightarrow> 's \<Rightarrow> error + tree \<times> 's" where
  "build_from_chunks sha256 xxh64 publish cfg origin level_nodes store =
     (if level_nodes = [] then Inr (\<lparr>tr_root = None, tr_config = cfg\<rparr>, store)
      else if length level_nodes = 1 then Inr (\<lparr>tr_root = Some (ns_cid (hd level_nodes)), tr_config = cfg\<rparr>, store)
      else build_levels sha256 xxh64 publish cfg origin 0 level_nodes store)"

definition batch_build :: "hash256 \<Rightarrow> xxhash \<Rightarrow> 's publisher \<Rightarrow> 's batch_builder \<Rightarrow> error + tree \<times> 's" where
  "batch_build sha256 xxh64 publish b =
     (if bb_entries b = [] then Inr (\<lparr>tr_root = None, tr_config = bb_config b\<rparr>, bb_store b)
      else and_then (parallel_chunk sha256 xxh64 publish (bb_config b) (bb_origin b) (sorted_unique (bb_entries b)) (bb_store b))
        (\<lambda>(chunks, store). build_from_chunks sha256 xxh64 publish (bb_config b) (bb_origin b) chunks store))"

subsection \<open>Serial levels\<close>

definition deferred_of :: "emitted_node \<Rightarrow> deferred_node" where
  "deferred_of e = \<lparr>dn_cid = ns_cid (em_summary e), dn_bytes = em_bytes e, dn_node = em_node e\<rparr>"

primrec push_children ::
  "hash256 \<Rightarrow> xxhash \<Rightarrow> node_summary list \<Rightarrow> node_summary list \<Rightarrow> deferred_node list \<Rightarrow> level_emitter \<Rightarrow>
   error + node_summary list \<times> deferred_node list \<times> level_emitter" where
  "push_children sha256 xxh64 [] summaries pending e = Inr (summaries, pending, e)"
| "push_children sha256 xxh64 (child # children) summaries pending e =
     and_then (emitter_push_child sha256 xxh64 child e) (\<lambda>(emitted, e).
     push_children sha256 xxh64 children (summaries @ map em_summary emitted) (pending @ map deferred_of emitted) e)"

definition build_level_serial ::
  "hash256 \<Rightarrow> xxhash \<Rightarrow> config \<Rightarrow> node_summary list \<Rightarrow> u8 \<Rightarrow> deferred_node list \<Rightarrow> error + node_summary list \<times> deferred_node list" where
  "build_level_serial sha256 xxh64 cfg children level pending =
     and_then (level_emitter_new cfg False level) (\<lambda>e.
     and_then (push_children sha256 xxh64 children [] pending e) (\<lambda>(summaries, pending, e).
     and_then (emitter_finish sha256 e) (\<lambda>(emitted, e).
     case emitted of
       Some n \<Rightarrow> Inr (summaries @ [em_summary n], pending @ [deferred_of n])
     | None \<Rightarrow> Inr (summaries, pending))))"

definition build_level_serial_deferred ::
  "hash256 \<Rightarrow> xxhash \<Rightarrow> config \<Rightarrow> node_summary list \<Rightarrow> u8 \<Rightarrow> error + node_summary list \<times> deferred_node list" where
  "build_level_serial_deferred sha256 xxh64 cfg children level = build_level_serial sha256 xxh64 cfg children level []"

function build_levels_serial ::
  "hash256 \<Rightarrow> xxhash \<Rightarrow> config \<Rightarrow> u8 \<Rightarrow> node_summary list \<Rightarrow> deferred_node list \<Rightarrow> error + tree \<times> deferred_node list" where
  "build_levels_serial sha256 xxh64 cfg level level_nodes pending =
     (if 1 < length level_nodes
      then if level = 255 then Inl (Panic ''attempt to add with overflow'')
        else and_then (build_level_serial sha256 xxh64 cfg level_nodes (level + 1) pending) (\<lambda>(level_nodes, pending).
          build_levels_serial sha256 xxh64 cfg (level + 1) level_nodes pending)
      else Inr (root_tree cfg level_nodes, pending))"
  by pat_completeness auto

termination
  by (relation "measure (\<lambda>(_, _, _, level, _, _). 255 - unat level)") (simp_all add: level_up_decreases)

declare build_levels_serial.simps [simp del]

definition build_from_chunks_serial_deferred ::
  "hash256 \<Rightarrow> xxhash \<Rightarrow> config \<Rightarrow> node_summary list \<Rightarrow> error + tree \<times> deferred_node list" where
  "build_from_chunks_serial_deferred sha256 xxh64 cfg level_nodes =
     (if level_nodes = [] then Inr (\<lparr>tr_root = None, tr_config = cfg\<rparr>, [])
      else if length level_nodes = 1 then Inr (\<lparr>tr_root = Some (ns_cid (hd level_nodes)), tr_config = cfg\<rparr>, [])
      else build_levels_serial sha256 xxh64 cfg 0 level_nodes [])"

section \<open>Sorting and removing duplicates\<close>

lemma map_of_rev_last: "map_of (rev xs) k = map_option snd (last_option (filter (\<lambda>e. fst e = k) xs))"
  by (induction xs rule: rev_induct) (auto simp: last_option_def)

lemma map_of_rev_sort: "map_of (rev (sort_key fst xs)) k = map_of (rev xs) k"
  unfolding map_of_rev_last using sort_key_stable [of fst k xs] by simp

lemma push_unique_ok:
  assumes "sorted_wrt (<) (map fst unique)" "\<forall>u \<in> set unique. fst u \<le> fst e"
  shows "sorted_wrt (<) (map fst (push_unique unique e)) \<and> map_of (push_unique unique e) = (map_of unique)(fst e \<mapsto> snd e) \<and>
    (\<forall>u \<in> set (push_unique unique e). fst u \<le> fst e)"
proof (cases unique rule: rev_exhaust)
  case Nil
  then show ?thesis by (cases e) (simp add: push_unique_def)
next
  case (snoc us u)
  have less: "fst x < fst u" if "x \<in> set us" for x using assms(1) that by (auto simp: snoc sorted_wrt_append)
  have us: "map_of us (fst u) = None" using less by (force simp: map_of_eq_None_iff)
  show ?thesis
  proof (cases "fst u = fst e")
    case True
    then have "push_unique unique e = us @ [(fst e, snd e)]" by (simp add: push_unique_def snoc)
    moreover have "map_of (us @ [(fst e, snd e)]) = (map_of (us @ [u]))(fst e \<mapsto> snd e)"
      using us True by (auto simp: map_add_def fun_eq_iff split: option.splits)
    ultimately show ?thesis using assms less True by (auto simp: snoc sorted_wrt_append)
  next
    case False
    then have "fst u < fst e" using assms(2) by (auto simp: snoc)
    then have new: "fst x < fst e" if "x \<in> set unique" for x
      using that less [of x] by (auto simp: snoc)
    have "push_unique unique e = unique @ [e]" using False by (simp add: push_unique_def snoc)
    moreover have "map_of unique (fst e) = None" using new by (force simp: map_of_eq_None_iff)
    then have "map_of (unique @ [e]) = (map_of unique)(fst e \<mapsto> snd e)"
      by (cases e) (auto simp: map_add_def fun_eq_iff split: option.splits)
    ultimately show ?thesis using assms(1) new by (auto simp: sorted_wrt_append intro: less_imp_le)
  qed
qed

lemma sorted_unique_ok:
  "sorted_wrt (<) (map fst (sorted_unique es))" "map_of (sorted_unique es) = map_of (rev es)" "set (sorted_unique es) \<subseteq> set es"
proof -
  have "sorted_wrt (<) (map fst (foldl push_unique acc xs)) \<and> map_of (foldl push_unique acc xs) = map_of acc ++ map_of (rev xs)"
    if "sorted_wrt (<) (map fst acc)" "\<forall>u \<in> set acc. \<forall>x \<in> set xs. fst u \<le> fst x" "sorted (map fst xs)" for acc xs
    using that
  proof (induction xs arbitrary: acc)
    case (Cons x xs)
    have p: "sorted_wrt (<) (map fst (push_unique acc x))" "map_of (push_unique acc x) = (map_of acc)(fst x \<mapsto> snd x)"
      "\<forall>u \<in> set (push_unique acc x). fst u \<le> fst x"
      using push_unique_ok [of acc x] Cons.prems by auto
    have "\<forall>u \<in> set (push_unique acc x). \<forall>y \<in> set xs. fst u \<le> fst y" using p(3) Cons.prems(3) by fastforce
    then have "sorted_wrt (<) (map fst (foldl push_unique (push_unique acc x) xs)) \<and>
        map_of (foldl push_unique (push_unique acc x) xs) = map_of (push_unique acc x) ++ map_of (rev xs)"
      using Cons.prems(3) by (intro Cons.IH [OF p(1)]) simp_all
    moreover have "map_of (push_unique acc x) ++ map_of (rev xs) = map_of acc ++ map_of (rev (x # xs))"
      unfolding p(2) by (cases x) (simp add: map_of_append)
    ultimately show ?case by simp
  qed simp
  from this [of "[]" "sort_key fst es"] show "sorted_wrt (<) (map fst (sorted_unique es))" "map_of (sorted_unique es) = map_of (rev es)"
    by (auto simp: sorted_unique_def map_of_rev_sort)
  have "set (push_unique acc x) \<subseteq> insert x (set acc)" for acc x
    by (cases acc rule: rev_exhaust) (auto simp: push_unique_def)
  then have "set (foldl push_unique acc xs) \<subseteq> set acc \<union> set xs" for acc xs
    by (induction xs arbitrary: acc) fastforce+
  from this [of "[]" "sort_key fst es"] show "set (sorted_unique es) \<subseteq> set es" by (simp add: sorted_unique_def)
qed

section \<open>One level\<close>

definition leaf_item :: "entry \<Rightarrow> item" where
  "leaf_item e = (fst e, snd e, None)"

definition child_item :: "node_summary \<Rightarrow> item" where
  "child_item c = (ns_first_key c, ns_cid c, Some (ns_count c))"

definition built_of :: "hash256 \<Rightarrow> tree_format \<Rightarrow> u8 \<Rightarrow> item list \<Rightarrow> built_node" where
  "built_of sha256 f level g =
     \<lparr>bn_cid = sha256 (item_bytes f level g), bn_first_key = fst (hd g), bn_count = group_count level g, bn_bytes = item_bytes f level g\<rparr>"

lemma summary_of_built_of [simp]: "summary_of_built (built_of sha256 f level g) = summary_of sha256 f level g"
  by (simp add: summary_of_built_def built_of_def summary_of_def)

lemma item_comp [simp]:
  "fst \<circ> leaf_item = fst" "fst \<circ> snd \<circ> leaf_item = snd" "fst \<circ> child_item = ns_first_key" "fst \<circ> snd \<circ> child_item = ns_cid"
  "fst (leaf_item e) = fst e" "fst (snd (leaf_item e)) = snd e" "snd (snd (leaf_item e)) = None"
  "fst (child_item c) = ns_first_key c" "fst (snd (child_item c)) = ns_cid c" "snd (snd (child_item c)) = Some (ns_count c)"
  by (auto simp: leaf_item_def child_item_def)

lemma leaf_items [simp]: "item_counts (map leaf_item es) = []" "item_entries (map leaf_item es) = es"
  by (induction es) (auto simp: leaf_item_def item_counts_def item_entries_def List.map_filter_simps)

lemma child_items [simp]:
  "item_counts (map child_item cs) = map ns_count cs" "item_entries (map child_item cs) = map (\<lambda>c. (ns_first_key c, ns_cid c)) cs"
  by (induction cs) (auto simp: child_item_def item_counts_def item_entries_def List.map_filter_simps)

lemma first_or_default_hd: "g \<noteq> [] \<Longrightarrow> first_or_default (map fst g) = fst (hd g)"
  by (cases g) (auto simp: first_or_default_def)

lemma slice_middle: "g \<noteq> [] \<Longrightarrow> drop (length pre) (take (length pre + length g - 1 + 1) (pre @ g @ post)) = g"
  by (cases g) simp_all

lemma index_middle:
  assumes "g \<noteq> []"
  shows "map (\<lambda>i. (pre @ g @ post) ! i) [length pre..<length pre + length g - 1 + 1] = g"
proof -
  have "length pre + length g - 1 + 1 = length pre + length g" using assms by (cases g) auto
  then show ?thesis using assms by (intro nth_equalityI) (auto simp: nth_append simp del: upt_Suc)
qed

lemma leaf_chunk_eq:
  assumes "level_ok (cfg_format cfg) 0 (map leaf_item g)" "g \<noteq> []"
  shows "leaf_chunk sha256 cfg (pre @ g @ post) (length pre, length pre + length g - 1) =
    Inr (built_of sha256 (cfg_format cfg) 0 (map leaf_item g))"
proof -
  let ?final = "length pre + length g - 1"
  have range: "\<not> ?final < length pre" "\<not> length (pre @ g @ post) \<le> ?final" "?final - length pre + 1 = length g"
    using assms(2) by (cases g; simp)+
  have node: "(new_builder_node cfg True 0)\<lparr>nd_keys := map fst g, nd_vals := map snd g\<rparr> =
      item_node (cfg_format cfg) (0 = (0 :: u8)) 0 (map leaf_item g)"
    by (simp add: new_builder_node_eq item_node_def comp_assoc [symmetric])
  have key: "first_or_default (map fst g) = fst (hd (map leaf_item g))"
    using first_or_default_hd [OF assms(2)] assms(2) by (cases g) (auto simp: leaf_item_def)
  show ?thesis
    unfolding leaf_chunk_def Let_def fst_conv snd_conv if_not_P [OF range(1)] if_not_P [OF range(2)] index_middle [OF assms(2)] node
      item_bytes_eq(1) [OF assms(1)] and_then_simps range(3)
    using key by (simp add: built_of_def cid_from_bytes_def group_count_def)
qed

lemma internal_chunk_eq:
  assumes "level_room (cfg_format cfg) level (map child_item g)" "g \<noteq> []" "level \<noteq> 0"
  shows "internal_chunk sha256 cfg level (pre @ g @ post) (length pre, length pre + length g - 1) =
    Inr (built_of sha256 (cfg_format cfg) level (map child_item g))"
proof -
  let ?final = "length pre + length g - 1"
  have range: "\<not> ?final < length pre" "\<not> length (pre @ g @ post) \<le> ?final" using assms(2) by (cases g; simp)+
  have lev: "level_ok (cfg_format cfg) level (map child_item g)" and "sum_list (map unat (map ns_count g)) < 2 ^ 64"
    using assms(1) by (auto simp: level_room_def)
  then have sum: "sum_counts 0 (map ns_count g) = Inr (group_count level (map child_item g))"
    using sum_counts_eq [of 0 "map ns_count g"] assms(3) by (simp add: group_count_def)
  have node: "(new_builder_node cfg False level)\<lparr>nd_keys := map ns_first_key g, nd_vals := map ns_cid g, nd_child_counts := map ns_count g\<rparr> =
      item_node (cfg_format cfg) (level = 0) level (map child_item g)"
    using assms(3) by (simp add: new_builder_node_eq item_node_def comp_assoc [symmetric])
  have key: "first_or_default (map ns_first_key g) = fst (hd (map child_item g))"
    using first_or_default_hd [of "map child_item g"] assms(2) by simp
  show ?thesis
    unfolding internal_chunk_def Let_def fst_conv snd_conv if_not_P [OF range(1)] if_not_P [OF range(2)] slice_middle [OF assms(2)] node
      item_bytes_eq(1) [OF lev] and_then_simps sum
    using key by (simp add: built_of_def cid_from_bytes_def)
qed

lemma concat_map_groups:
  assumes "concat gs = map h xs"
  obtains xss where "gs = map (map h) xss" "concat xss = xs"
  using assms
proof (induction gs arbitrary: xs thesis)
  case (Cons g gs)
  from Cons.prems(2) obtain ys zs where xs: "xs = ys @ zs" "g = map h ys" "concat gs = map h zs"
    by (auto simp: append_eq_map_conv)
  obtain xss where "gs = map (map h) xss" "concat xss = zs" by (rule Cons.IH [OF _ xs(3)])
  then show ?case using Cons.prems(1) [of "ys # xss"] xs by simp
qed simp

lemma ranges_from_map [simp]: "ranges_from s (map (map h) xss) = ranges_from s xss"
  by (induction xss arbitrary: s) simp_all

lemma collect_ranges:
  assumes "xs = pre @ concat xss @ post" "[] \<notin> set xss"
    "\<And>pre g post. xs = pre @ g @ post \<Longrightarrow> g \<in> set xss \<Longrightarrow> mk (length pre, length pre + length g - 1) = Inr (h g)"
  shows "collect_results (map mk (ranges_from (length pre) xss)) = Inr (map h xss)"
  using assms
proof (induction xss arbitrary: pre)
  case (Cons g xss)
  have "mk (length pre, length pre + length g - 1) = Inr (h g)"
    using Cons.prems(1) by (intro Cons.prems(3) [of pre g "concat xss @ post"]) simp_all
  moreover have "collect_results (map mk (ranges_from (length (pre @ g)) xss)) = Inr (map h xss)"
  proof (rule Cons.IH)
    show "xs = (pre @ g) @ concat xss @ post" "[] \<notin> set xss" using Cons.prems(1,2) by simp_all
    show "mk (length p, length p + length x - 1) = Inr (h x)" if "xs = p @ x @ q" "x \<in> set xss" for p x q
      using Cons.prems(3) [OF that(1)] that(2) by simp
  qed
  ultimately show ?case by simp
qed simp

text \<open>The detector that cuts a level of \<open>n\<close> entries, and the groups it cuts.\<close>

definition level_detector :: "config \<Rightarrow> u8 \<Rightarrow> nat \<Rightarrow> detector" where
  "level_detector cfg level n =
     (let spec = tf_chunking (cfg_format cfg); det = (case detector_new spec (ucast level) of Inr det \<Rightarrow> det) in
      if parallel_boundary_hash_min_entries \<le> n \<and> supports_independent_hashing det then det\<lparr>bd_spec := spec\<rparr> else det)"

definition level_groups :: "xxhash \<Rightarrow> config \<Rightarrow> u8 \<Rightarrow> item list \<Rightarrow> error + item list list" where
  "level_groups xxh64 cfg level items =
     ref_chunks xxh64 (cfg_format cfg) level items [] (level_detector cfg level (length items))"

lemma chunk_ranges_groups:
  assumes "level_ok (cfg_format cfg) level items"
  shows "chunk_ranges_for_entries_parallel xxh64 cfg level (item_entries items) (level_counts level items) =
    map_ok (ranges_from 0) (level_groups xxh64 cfg level items)"
proof -
  obtain det where det: "detector_new (tf_chunking (cfg_format cfg)) (ucast level) = Inr det"
    using detector_new_total [OF assms] by blast
  have len: "length (item_entries items) = length items" by (simp add: item_entries_def)
  show ?thesis
    using dispatch_serial [OF assms det, of _ xxh64] dispatch_parallel [OF assms det, of xxh64]
    by (cases "parallel_boundary_hash_min_entries \<le> length items"; cases "supports_independent_hashing det")
      (simp_all add: chunk_ranges_for_entries_parallel_def level_groups_def level_detector_def det len)
qed

lemma level_groups_sound:
  assumes "level_groups xxh64 cfg level items = Inr gs"
  shows "concat gs = items" "[] \<notin> set gs" "\<And>g. g \<in> set gs \<Longrightarrow> ilen (cfg_format cfg) level g \<le> unat (hard_max cfg)"
  using ref_chunks_sound [OF assms [unfolded level_groups_def]] by (auto simp: hard_max_def)

lemma parallel_chunk_eq:
  assumes "level_room (cfg_format cfg) 0 (map leaf_item es)" "es \<noteq> []"
  shows "parallel_chunk sha256 xxh64 publish cfg origin es store =
    and_then (level_groups xxh64 cfg 0 (map leaf_item es)) (\<lambda>gs.
    and_then (persist_nodes publish store (map (built_of sha256 (cfg_format cfg) 0) gs) origin) (\<lambda>store.
    Inr (map (summary_of sha256 (cfg_format cfg) 0) gs, store)))"
proof -
  have lev: "level_ok (cfg_format cfg) 0 (map leaf_item es)" using assms(1) by (simp add: level_room_def)
  have "collect_results (map (leaf_chunk sha256 cfg es) (ranges_from 0 gs)) = Inr (map (built_of sha256 (cfg_format cfg) 0) gs)"
    if "level_groups xxh64 cfg 0 (map leaf_item es) = Inr gs" for gs
  proof -
    note gs = level_groups_sound [OF that]
    obtain xss where xss: "gs = map (map leaf_item) xss" "concat xss = es" by (rule concat_map_groups [OF gs(1)])
    have "collect_results (map (leaf_chunk sha256 cfg es) (ranges_from (length ([] :: entry list)) xss)) =
        Inr (map (\<lambda>g. built_of sha256 (cfg_format cfg) 0 (map leaf_item g)) xss)"
    proof (rule collect_ranges [of es "[]" xss "[]"])
      fix pre g post assume "es = pre @ g @ post" "g \<in> set xss"
      moreover from this have "g \<noteq> []" using gs(2) by (auto simp: xss(1))
      ultimately show "leaf_chunk sha256 cfg es (length pre, length pre + length g - 1) = Inr (built_of sha256 (cfg_format cfg) 0 (map leaf_item g))"
        using lev level_ok_part [of "cfg_format cfg" 0 "map leaf_item pre" "map leaf_item g" "map leaf_item post"]
          leaf_chunk_eq [of cfg g sha256 pre post] by simp
    qed (use xss gs(2) in auto)
    then show ?thesis by (simp add: xss(1) comp_def)
  qed
  then show ?thesis
    using chunk_ranges_groups [OF lev, of xxh64] assms(2)
    by (cases "level_groups xxh64 cfg 0 (map leaf_item es)") (simp_all add: parallel_chunk_def level_counts_def comp_def)
qed

lemma build_level_eq:
  assumes "level_room (cfg_format cfg) level (map child_item cs)" "cs \<noteq> []" "level \<noteq> 0"
  shows "build_level sha256 xxh64 publish cfg origin level cs store =
    and_then (level_groups xxh64 cfg level (map child_item cs)) (\<lambda>gs.
    and_then (persist_nodes publish store (map (built_of sha256 (cfg_format cfg) level) gs) origin) (\<lambda>store.
    Inr (map (summary_of sha256 (cfg_format cfg) level) gs, store)))"
proof -
  have lev: "level_ok (cfg_format cfg) level (map child_item cs)" using assms(1) by (simp add: level_room_def)
  have "collect_results (map (internal_chunk sha256 cfg level cs) (ranges_from 0 gs)) = Inr (map (built_of sha256 (cfg_format cfg) level) gs)"
    if "level_groups xxh64 cfg level (map child_item cs) = Inr gs" for gs
  proof -
    note gs = level_groups_sound [OF that]
    obtain xss where xss: "gs = map (map child_item) xss" "concat xss = cs" by (rule concat_map_groups [OF gs(1)])
    have "collect_results (map (internal_chunk sha256 cfg level cs) (ranges_from (length ([] :: node_summary list)) xss)) =
        Inr (map (\<lambda>g. built_of sha256 (cfg_format cfg) level (map child_item g)) xss)"
    proof (rule collect_ranges [of cs "[]" xss "[]"])
      fix pre g post assume "cs = pre @ g @ post" "g \<in> set xss"
      moreover from this have "g \<noteq> []" using gs(2) by (auto simp: xss(1))
      ultimately show "internal_chunk sha256 cfg level cs (length pre, length pre + length g - 1) =
          Inr (built_of sha256 (cfg_format cfg) level (map child_item g))"
        using assms(1,3) level_room_part [of "cfg_format cfg" level "map child_item pre" "map child_item g" "map child_item post"]
          internal_chunk_eq [of cfg level g sha256 pre post] by simp
    qed (use xss gs(2) in auto)
    then show ?thesis by (simp add: xss(1) comp_def)
  qed
  then show ?thesis
    using chunk_ranges_groups [OF lev, of xxh64] assms(2,3)
    by (cases "level_groups xxh64 cfg level (map child_item cs)") (simp_all add: build_level_def level_counts_def comp_def)
qed

section \<open>The serial builder of a level\<close>

abbreviation deferred_group :: "hash256 \<Rightarrow> tree_format \<Rightarrow> u8 \<Rightarrow> item list \<Rightarrow> deferred_node" where
  "deferred_group sha256 f level g \<equiv> deferred_of (emitted_of sha256 f level g)"

lemma emitted_summary [simp]: "em_summary (emitted_of sha256 f level g) = summary_of sha256 f level g"
  by (simp add: emitted_of_def)

text \<open>What is still open after a push is a suffix of what was open with the new entry.\<close>

lemma ref_push_rest:
  assumes "ref_push xxh64 f level i cur det = Inr (gs, cur', det')"
  obtains pre where "pre @ cur' = cur @ [i]"
proof -
  have "cur' = [] \<or> cur' = [i] \<or> cur' = cur @ [i]"
    using assms by (auto simp: ref_push_def Let_def and_then_Inr_iff split: if_splits)
  then show thesis using that [of "cur @ [i]"] that [of cur] that [of "[]"] by auto
qed

lemma push_children_ref:
  assumes "em_ok xxh64 cfg level cur det e" "level_room (cfg_format cfg) level (cur @ map child_item cs)" "level \<noteq> 0"
  shows "and_then (push_children sha256 xxh64 cs summaries pending e) (\<lambda>(summaries, pending, e).
      and_then (emitter_finish sha256 e) (\<lambda>(emitted, e).
      case emitted of Some n \<Rightarrow> Inr (summaries @ [em_summary n], pending @ [deferred_of n]) | None \<Rightarrow> Inr (summaries, pending))) =
    map_ok (\<lambda>gs. (summaries @ map (summary_of sha256 (cfg_format cfg) level) gs, pending @ map (deferred_group sha256 (cfg_format cfg) level) gs))
      (ref_chunks xxh64 (cfg_format cfg) level (map child_item cs) cur det)"
  using assms(1,2)
proof (induction cs arbitrary: cur det e summaries pending)
  case Nil
  have rel: "em_rel cfg level cur cur e" using Nil.prems(1) by (simp add: em_ok_def)
  show ?case
  proof (cases "cur = []")
    case True
    then have "emitter_finish sha256 e = Inr (None, e)" using rel by (simp add: emitter_finish_def flush_current_def em_rel_def)
    then show ?thesis using True by simp
  next
    case False
    have room: "level_room (cfg_format cfg) level cur" "ilen (cfg_format cfg) level cur \<le> unat (hard_max cfg)"
      using Nil.prems False by (simp_all add: em_ok_def)
    obtain e' where "flush_current sha256 e = Inr (Some (emitted_of sha256 (cfg_format cfg) level cur), e')"
      by (rule flush_current_ref [OF rel refl False room])
    then show ?thesis using False by (simp add: emitter_finish_def)
  qed
next
  case (Cons c cs)
  have leaf: "le_leaf e = False" using Cons.prems(1) assms(3) by (simp add: em_ok_def em_rel_def)
  have room: "level_room (cfg_format cfg) level (cur @ [child_item c])" "level_room (cfg_format cfg) level (child_item c # map child_item cs)"
    using level_room_append [of "cfg_format cfg" level "cur @ [child_item c]" "map child_item cs"]
      level_room_append [of "cfg_format cfg" level cur "child_item c # map child_item cs"] Cons.prems(2) by simp_all
  have push: "emitter_push_child sha256 xxh64 c e =
      push_entry_with sha256 xxh64 (fst (child_item c)) (fst (snd (child_item c))) (snd (snd (child_item c))) e"
    using leaf by (simp add: emitter_push_child_def)
  show ?case
  proof (cases "ref_push xxh64 (cfg_format cfg) level (child_item c) cur det")
    case (Inl err)
    then have "emitter_push_child sha256 xxh64 c e = Inl err"
      using emitter_push_ref [OF Cons.prems(1) room(1), of sha256] unfolding push by simp
    then show ?thesis using Inl by (simp add: ref_chunks_push del: ref_chunks.simps)
  next
    case (Inr r)
    obtain gs cur' det' where r: "r = (gs, cur', det')" by (cases r)
    obtain e' where e': "emitter_push_child sha256 xxh64 c e = Inr (map (emitted_of sha256 (cfg_format cfg) level) gs, e')"
      "em_ok xxh64 cfg level cur' det' e'"
      using emitter_push_ref [OF Cons.prems(1) room(1), of sha256] Inr r unfolding push by auto
    obtain pre where "pre @ cur' = cur @ [child_item c]" by (rule ref_push_rest [OF Inr [unfolded r]])
    then have "cur @ map child_item (c # cs) = pre @ (cur' @ map child_item cs)"
      using append.assoc [of pre cur' "map child_item cs"] append.assoc [of cur "[child_item c]" "map child_item cs"] by simp
    then have "level_room (cfg_format cfg) level (cur' @ map child_item cs)"
      using Cons.prems(2) level_room_append [of "cfg_format cfg" level pre "cur' @ map child_item cs"] by metis
    from Cons.IH [OF e'(2) this, of "summaries @ map em_summary (map (emitted_of sha256 (cfg_format cfg) level) gs)"
        "pending @ map (deferred_group sha256 (cfg_format cfg) level) gs"]
    show ?thesis using Inr e'(1) r by (simp add: ref_chunks_push comp_def emitted_summary del: ref_chunks.simps)
  qed
qed

lemma build_level_serial_eq:
  assumes "level_room (cfg_format cfg) level (map child_item cs)" "level \<noteq> 0"
    "detector_new (tf_chunking (cfg_format cfg)) (ucast level) = Inr det"
  shows "build_level_serial sha256 xxh64 cfg cs level pending =
    map_ok (\<lambda>gs. (map (summary_of sha256 (cfg_format cfg) level) gs, pending @ map (deferred_group sha256 (cfg_format cfg) level) gs))
      (ref_chunks xxh64 (cfg_format cfg) level (map child_item cs) [] det)"
proof -
  have "level_room (cfg_format cfg) level []" using level_room_append [of _ _ "[]" "map child_item cs"] assms(1) by simp
  from level_emitter_new_ok [OF this assms(3), of xxh64] obtain e where
    e: "level_emitter_new cfg (level = 0) level = Inr e" "em_ok xxh64 cfg level [] det e" .
  have "level_emitter_new cfg False level = Inr e" using e(1) assms(2) by simp
  then show ?thesis
    using push_children_ref [OF e(2) _ assms(2), of cs sha256 "[]" pending] assms(1)
    by (simp add: build_level_serial_def)
qed

section \<open>Room for every level\<close>

text \<open>Digests have 32 bytes; entries that leave room for all levels, and summaries that do.\<close>

definition digest_32 :: "hash256 \<Rightarrow> bool" where
  "digest_32 sha256 \<longleftrightarrow> (\<forall>bs. length (sha256 bs) = 32)"

definition tree_room :: "tree_format \<Rightarrow> entry list \<Rightarrow> bool" where
  "tree_room f es \<longleftrightarrow> format_validate f = Inr () \<and> registered f \<and>
     128 + name_len f + sum_list (map (\<lambda>(k, v). length k + length v + 106) es) < 2 ^ 60"

definition children_room :: "tree_format \<Rightarrow> node_summary list \<Rightarrow> bool" where
  "children_room f cs \<longleftrightarrow> format_validate f = Inr () \<and> registered f \<and>
     (\<forall>c \<in> set cs. length (ns_cid c) = 32 \<and> ns_count c \<noteq> 0) \<and>
     128 + name_len f + sum_list (map (\<lambda>c. length (ns_first_key c) + 106) cs) < 2 ^ 60 \<and>
     sum_list (map (unat \<circ> ns_count) cs) < 2 ^ 60"

lemma leaf_level_room:
  assumes "tree_room f es"
  shows "level_room f 0 (map leaf_item es)"
proof (rule level_roomI)
  show "format_validate f = Inr ()" "registered f" using assms by (simp_all add: tree_room_def)
  show "items_ok (0 = (0 :: u8)) (map leaf_item es)" by (auto simp: items_ok_def leaf_item_def validate_child_count_def)
  have "upper_len (map leaf_item es) + 10 * length (map leaf_item es) \<le> sum_list (map (\<lambda>(k, v). length k + length v + 106) es)"
    by (induction es) (auto simp: leaf_item_def)
  then show "bound_len f (map leaf_item es) < 2 ^ 60" using assms by (simp add: bound_len_def tree_room_def)
qed simp

lemma child_level_room:
  assumes "children_room f cs" "level \<noteq> 0"
  shows "level_room f level (map child_item cs)"
proof (rule level_roomI)
  note c = assms(1) [unfolded children_room_def]
  show "format_validate f = Inr ()" "registered f" using c by simp_all
  have "1 \<le> ns_count c'" if "c' \<in> set cs" for c' using c that by (auto simp: word_le_nat_alt Suc_le_eq unat_gt_0)
  then show "items_ok (level = 0) (map child_item cs)"
    using assms(2) by (auto simp: items_ok_def child_item_def validate_child_count_def)
  have "upper_len (map child_item cs) + 10 * length (map child_item cs) = sum_list (map (\<lambda>c. length (ns_first_key c) + 106) cs)"
    using c by (induction cs) (auto simp: child_item_def children_room_def)
  then show "bound_len f (map child_item cs) < 2 ^ 60" using c by (simp add: bound_len_def)
  show "sum_list (map unat (item_counts (map child_item cs))) < 2 ^ 64" using c by (simp add: comp_def)
qed

lemma sum_of_firsts:
  "[] \<notin> set gs \<Longrightarrow> sum_list (map (\<lambda>g. w (hd g)) gs) \<le> sum_list (map (w :: 'a \<Rightarrow> nat) (concat gs))"
proof (induction gs)
  case (Cons g gs)
  have "w (hd g) \<le> sum_list (map w g)" using Cons.prems by (cases g) auto
  then show ?case using Cons by (simp add: add_mono)
qed simp

definition item_count :: "u8 \<Rightarrow> item \<Rightarrow> nat" where
  "item_count level i = (if level = 0 then 1 else case snd (snd i) of None \<Rightarrow> 0 | Some c \<Rightarrow> unat c)"

lemma unat_group_count:
  assumes "sum_list (map (item_count level) g) < 2 ^ 64"
  shows "unat (group_count level g) = sum_list (map (item_count level) g)"
proof (cases "level = 0")
  case True
  then have "sum_list (map (item_count level) g) = length g" by (induction g) (auto simp: item_count_def)
  with assms show ?thesis by (simp add: group_count_def True unat_of_nat_u64)
next
  case False
  have "unat (sum_list cs) = sum_list (map unat cs)" if "sum_list (map unat cs) < 2 ^ 64" for cs :: "u64 list"
    using that by (induction cs) (auto simp: unat_word_ariths)
  moreover have "sum_list (map (item_count level) g) = sum_list (map unat (item_counts g))"
    using False by (induction g) (auto simp: item_count_def item_counts_def List.map_filter_simps split: option.split)
  ultimately show ?thesis using assms False by (simp add: group_count_def)
qed

lemma groups_room:
  assumes "format_validate f = Inr ()" "registered f" "digest_32 sha256" "[] \<notin> set gs"
    "128 + name_len f + sum_list (map (\<lambda>i. length (fst i) + 106) (concat gs)) < 2 ^ 60"
    "sum_list (map (item_count level) (concat gs)) < 2 ^ 60" "\<forall>i \<in> set (concat gs). 0 < item_count level i"
  shows "children_room f (map (summary_of sha256 f level) gs)"
    "sum_list (map (unat \<circ> ns_count) (map (summary_of sha256 f level) gs)) = sum_list (map (item_count level) (concat gs))"
proof -
  have part: "sum_list (map (item_count level) g) \<le> sum_list (map (item_count level) (concat gs))" if "g \<in> set gs" for g
    using that by (induction gs) auto
  have cnt: "unat (group_count level g) = sum_list (map (item_count level) g)" if "g \<in> set gs" for g
    using part [OF that] assms(6) by (intro unat_group_count) simp
  have "sum_list (map (\<lambda>g. unat (group_count level g)) hs) = sum_list (map (item_count level) (concat hs))" if "set hs \<subseteq> set gs" for hs
    using that cnt by (induction hs) auto
  then show total: "sum_list (map (unat \<circ> ns_count) (map (summary_of sha256 f level) gs)) = sum_list (map (item_count level) (concat gs))"
    by (simp add: summary_of_def comp_def)
  have "group_count level g \<noteq> 0" if g: "g \<in> set gs" for g
  proof -
    have "g \<noteq> []" using g assms(4) by auto
    then obtain i g' where "g = i # g'" by (auto simp: neq_Nil_conv)
    then have "0 < sum_list (map (item_count level) g)" using assms(7) g by fastforce
    then show ?thesis using cnt [OF g] by (metis unat_0 less_irrefl)
  qed
  moreover have "sum_list (map (\<lambda>c. length (ns_first_key c) + 106) (map (summary_of sha256 f level) gs)) \<le>
      sum_list (map (\<lambda>i. length (fst i) + 106) (concat gs))"
    using sum_of_firsts [OF assms(4), of "\<lambda>i. length (fst i) + 106"] by (simp add: summary_of_def comp_def)
  ultimately show "children_room f (map (summary_of sha256 f level) gs)"
    using assms total by (auto simp: children_room_def digest_32_def) (simp add: summary_of_def)+
qed

lemma leaf_groups_room:
  assumes "tree_room f es" "digest_32 sha256" "concat gs = map leaf_item es" "[] \<notin> set gs"
  shows "children_room f (map (summary_of sha256 f 0) gs)"
proof (rule groups_room(1))
  have le: "sum_list (map (\<lambda>i. length (fst i) + 106) (map leaf_item es)) \<le> sum_list (map (\<lambda>(k, v). length k + length v + 106) es)"
    by (induction es) auto
  then show "128 + name_len f + sum_list (map (\<lambda>i. length (fst i) + 106) (concat gs)) < 2 ^ 60"
    using assms(1) unfolding assms(3) by (simp add: tree_room_def)
  have "sum_list (map (item_count 0) (map leaf_item es)) \<le> sum_list (map (\<lambda>(k, v). length k + length v + 106) es)"
    by (induction es) (auto simp: item_count_def)
  then show "sum_list (map (item_count 0) (concat gs)) < 2 ^ 60" using assms(1) unfolding assms(3) by (simp add: tree_room_def)
qed (use assms in \<open>auto simp: tree_room_def item_count_def\<close>)

lemma child_groups_room:
  assumes "children_room f cs" "digest_32 sha256" "concat gs = map child_item cs" "[] \<notin> set gs" "level \<noteq> 0"
  shows "children_room f (map (summary_of sha256 f level) gs)"
proof (rule groups_room(1))
  note c = assms(1) [unfolded children_room_def]
  show "128 + name_len f + sum_list (map (\<lambda>i. length (fst i) + 106) (concat gs)) < 2 ^ 60"
    using c unfolding assms(3) by (simp add: comp_def)
  have "map (item_count level) (concat gs) = map (unat \<circ> ns_count) cs"
    using assms(5) unfolding assms(3) by (simp add: item_count_def)
  then show "sum_list (map (item_count level) (concat gs)) < 2 ^ 60" using c by simp
  show "\<forall>i \<in> set (concat gs). 0 < item_count level i"
    using c assms(5) unfolding assms(3) by (auto simp: item_count_def unat_gt_0)
qed (use assms in \<open>auto simp: children_room_def\<close>)

section \<open>A store that records publications\<close>

definition publish_log :: "entry list publisher" where
  "publish_log s p = Inr (s @ np_entries p)"

definition deferred_entries :: "deferred_node list \<Rightarrow> entry list" where
  "deferred_entries nodes = map (\<lambda>n. (dn_cid n, dn_bytes n)) nodes"

definition group_entries :: "hash256 \<Rightarrow> tree_format \<Rightarrow> u8 \<Rightarrow> item list list \<Rightarrow> entry list" where
  "group_entries sha256 f level gs = map (\<lambda>g. (sha256 (item_bytes f level g), item_bytes f level g)) gs"

lemma persist_log: "persist_nodes publish_log s (map (built_of sha256 f level) gs) origin = Inr (s @ group_entries sha256 f level gs)"
  by (simp add: persist_nodes_def publish_log_def publication_new_def group_entries_def built_of_def)

lemma deferred_group_entries: "deferred_entries (map (deferred_group sha256 f level) gs) = group_entries sha256 f level gs"
  by (simp add: deferred_entries_def group_entries_def deferred_of_def emitted_of_def summary_of_def)

lemma serial_detector:
  assumes "level_ok (cfg_format cfg) level items" "2 \<le> cs_min (tf_chunking (cfg_format cfg))"
  shows "detector_new (tf_chunking (cfg_format cfg)) (ucast level) = Inr (level_detector cfg level n)"
proof -
  obtain det where det: "detector_new (tf_chunking (cfg_format cfg)) (ucast level) = Inr det"
    using detector_new_total [OF assms(1)] by blast
  have "level_spec (tf_chunking (cfg_format cfg)) (ucast level) = tf_chunking (cfg_format cfg)"
    using assms(2) by (auto simp: level_spec_def word_less_nat_alt word_le_nat_alt)
  then have "det\<lparr>bd_spec := tf_chunking (cfg_format cfg)\<rparr> = det"
    using det by (auto simp: detector_new_def and_then_Inr_iff Let_def)
  then show ?thesis using det by (simp add: level_detector_def)
qed

lemma serial_level:
  assumes "children_room (cfg_format cfg) cs" "cs \<noteq> []" "level \<noteq> 0" "2 \<le> cs_min (tf_chunking (cfg_format cfg))"
  shows "map_ok (\<lambda>(summaries, pending). (summaries, deferred_entries pending)) (build_level_serial sha256 xxh64 cfg cs level pending) =
    build_level sha256 xxh64 publish_log cfg origin level cs (deferred_entries pending)"
proof -
  note room = child_level_room [OF assms(1,3)]
  have lev: "level_ok (cfg_format cfg) level (map child_item cs)" using room by (simp add: level_room_def)
  show ?thesis
    unfolding build_level_serial_eq [OF room assms(3) serial_detector [OF lev assms(4), of "length cs"]] build_level_eq [OF room assms(2,3)]
    by (cases "level_groups xxh64 cfg level (map child_item cs)")
      (simp_all add: level_groups_def persist_log deferred_entries_def flip: deferred_group_entries)
qed

end
