(* ===== verification/Read_Node.thy ===== *)
theory Read_Node
  imports Node_Codec
begin

text \<open>
  The packed node read-only traversals use (\<open>ReadNode\<close> in \<^verbatim>\<open>src/src/prolly/node.rs\<close>): entries
  are ranges into the retained encoded bytes, prefix-compressed keys are rebuilt into one
  arena.  Unchecked accesses (\<open>get_unchecked\<close>, \<open>from_raw_parts\<close>) are partial: \<open>None\<close> is
  undefined behaviour.  The theory shows that the packed decoder agrees with the owned one
  and that the accelerated search is the ordinary search, always in bounds.
\<close>

section \<open>Definitions\<close>

record read_entry_meta =
  rm_key_start :: u32
  rm_key_len :: u32
  rm_value_start :: u32
  rm_value_len :: u32
  rm_child_count :: u64
  rm_key_order :: u64

record read_node =
  rn_bytes :: bytes
  rn_prefix_keys :: "bytes option"
  rn_entries :: "read_entry_meta list"
  rn_common_prefix_len :: u32
  rn_leaf :: bool
  rn_level :: u8
  rn_format :: tree_format

definition compact_u32 :: "nat \<Rightarrow> error + u32" where
  "compact_u32 value = (if value < 2 ^ 32 then Inr (of_nat value) else Inl (compact_error ''exceeds u32''))"

definition key_order_word :: "bytes \<Rightarrow> nat \<Rightarrow> u64" where
  "key_order_word key prefix_len =
     (let suffix = drop prefix_len key; copied = take 8 suffix in
      of_nat (be_nat (copied @ replicate (8 - length copied) 0)))"

definition read_slice :: "bytes \<Rightarrow> u32 \<Rightarrow> u32 \<Rightarrow> bytes option" where
  "read_slice bs start len =
     (if unat start + unat len \<le> length bs then Some (take (unat len) (drop (unat start) bs)) else None)"

subsection \<open>Decoding\<close>

definition entry_meta :: "nat \<Rightarrow> nat \<Rightarrow> nat \<Rightarrow> nat \<Rightarrow> u64 \<Rightarrow> error + read_entry_meta" where
  "entry_meta key_start key_len value_start value_len child_count =
     and_then (compact_u32 key_start) (\<lambda>ks.
     and_then (compact_u32 key_len) (\<lambda>kl.
     and_then (compact_u32 value_start) (\<lambda>vs.
     and_then (compact_u32 value_len) (\<lambda>vl.
     Inr \<lparr>rm_key_start = ks, rm_key_len = kl, rm_value_start = vs, rm_value_len = vl,
       rm_child_count = child_count, rm_key_order = 0\<rparr>))))"

primrec shared_prefix_loop ::
  "nat \<Rightarrow> bool \<Rightarrow> bytes \<Rightarrow> nat \<Rightarrow> nat \<Rightarrow> read_entry_meta list \<Rightarrow> (error, bytes \<times> read_entry_meta list) reader" where
  "shared_prefix_loop 0 leaf arena previous_start previous_len entries = creturn (arena, entries)"
| "shared_prefix_loop (Suc n) leaf arena previous_start previous_len entries =
     cbind read_usize (\<lambda>shared.
     if previous_len < shared then cfail (compact_error ''shared key prefix exceeds previous key'')
     else cbind read_usize (\<lambda>suffix_len.
       cbind (compact_read_bytes suffix_len) (\<lambda>suffix.
       let key_start = length arena;
           arena' = arena @ take shared (drop previous_start arena) @ suffix;
           key_len = shared + suffix_len in
       if 2 ^ 64 \<le> key_len then cfail (compact_error ''key length overflow'')
       else cbind read_usize (\<lambda>value_len.
         cbind cposition (\<lambda>value_start.
         cbind (compact_read_bytes value_len) (\<lambda>_.
         cbind (read_compact_child_count leaf) (\<lambda>child_count.
         cbind (clift (entry_meta key_start key_len value_start value_len child_count)) (\<lambda>e.
         shared_prefix_loop n leaf arena' key_start key_len (entries @ [e])))))))))"

primrec shared_plain_loop ::
  "nat \<Rightarrow> bool \<Rightarrow> read_entry_meta list \<Rightarrow> (error, read_entry_meta list) reader" where
  "shared_plain_loop 0 leaf entries = creturn entries"
| "shared_plain_loop (Suc n) leaf entries =
     cbind read_usize (\<lambda>key_len.
     cbind cposition (\<lambda>key_start.
     cbind (compact_read_bytes key_len) (\<lambda>_.
     cbind read_usize (\<lambda>value_len.
     cbind cposition (\<lambda>value_start.
     cbind (compact_read_bytes value_len) (\<lambda>_.
     cbind (read_compact_child_count leaf) (\<lambda>child_count.
     cbind (clift (entry_meta key_start key_len value_start value_len child_count)) (\<lambda>e.
     shared_plain_loop n leaf (entries @ [e])))))))))"

primrec shared_offsets_loop ::
  "nat \<Rightarrow> bool \<Rightarrow> (slot \<times> u64) list \<Rightarrow> (error, (slot \<times> u64) list) reader" where
  "shared_offsets_loop 0 leaf offsets = creturn offsets"
| "shared_offsets_loop (Suc n) leaf offsets =
     cbind read_usize (\<lambda>key_offset.
     cbind read_usize (\<lambda>key_len.
     cbind read_usize (\<lambda>value_offset.
     cbind read_usize (\<lambda>value_len.
     cbind (read_compact_child_count leaf) (\<lambda>child_count.
     shared_offsets_loop n leaf
       (offsets @ [((key_offset, key_len, value_offset, value_len), child_count)]))))))"

fun shared_slots ::
  "bytes \<Rightarrow> nat \<Rightarrow> (slot \<times> u64) list \<Rightarrow> read_entry_meta list \<Rightarrow> error + read_entry_meta list" where
  "shared_slots payload payload_start [] entries = Inr entries"
| "shared_slots payload payload_start (((key_offset, key_len, value_offset, value_len), child_count) # offsets) entries =
     and_then (slice_payload payload key_offset key_len) (\<lambda>_.
     and_then (slice_payload payload value_offset value_len) (\<lambda>_.
     if 2 ^ 64 \<le> payload_start + key_offset then Inl (compact_error ''key offset overflow'')
     else if 2 ^ 64 \<le> payload_start + value_offset then Inl (compact_error ''value offset overflow'')
     else and_then (entry_meta (payload_start + key_offset) key_len (payload_start + value_offset) value_len child_count) (\<lambda>e.
       shared_slots payload payload_start offsets (entries @ [e]))))"

definition shared_offset_table :: "nat \<Rightarrow> bool \<Rightarrow> (error, read_entry_meta list) reader" where
  "shared_offset_table entry_count leaf =
     cbind (with_capacity 40 entry_count) (\<lambda>_.
     cbind (shared_offsets_loop entry_count leaf []) (\<lambda>offsets.
     cbind read_usize (\<lambda>payload_len.
     cbind cposition (\<lambda>payload_start.
     cbind (compact_read_bytes payload_len) (\<lambda>payload.
     clift (shared_slots payload payload_start offsets []))))))"

definition shared_entries ::
  "node_layout_spec \<Rightarrow> nat \<Rightarrow> bool \<Rightarrow> (error, bytes option \<times> read_entry_meta list) reader" where
  "shared_entries layout entry_count leaf =
     (case layout of
        PrefixCompressed \<Rightarrow>
          cbind (shared_prefix_loop entry_count leaf [] 0 0 []) (\<lambda>(arena, entries). creturn (Some arena, entries))
      | Plain \<Rightarrow> cbind (shared_plain_loop entry_count leaf []) (\<lambda>entries. creturn (None, entries))
      | OffsetTable \<Rightarrow> cbind (shared_offset_table entry_count leaf) (\<lambda>entries. creturn (None, entries))
      | CustomLayout ident parameters \<Rightarrow> cfail (InvalidFormat ''node layout has no registered codec''))"

definition shared_common_prefix :: "bytes \<Rightarrow> read_entry_meta list \<Rightarrow> error + nat" where
  "shared_common_prefix key_source entries =
     (if entries = [] then Inr 0
      else and_then (ok_or (read_slice key_source (rm_key_start (hd entries)) (rm_key_len (hd entries))) InvalidNode) (\<lambda>f.
        and_then (ok_or (read_slice key_source (rm_key_start (last entries)) (rm_key_len (last entries))) InvalidNode) (\<lambda>l.
        Inr (common_prefix_len f l))))"

fun order_entries ::
  "bytes \<Rightarrow> nat \<Rightarrow> bytes option \<Rightarrow> read_entry_meta list \<Rightarrow> error + read_entry_meta list" where
  "order_entries key_source prefix_len previous [] = Inr []"
| "order_entries key_source prefix_len previous (e # es) =
     and_then (ok_or (read_slice key_source (rm_key_start e) (rm_key_len e)) InvalidNode) (\<lambda>key.
     if (case previous of None \<Rightarrow> False | Some p \<Rightarrow> key \<le> p) then Inl InvalidNode
     else and_then (order_entries key_source prefix_len (Some key) es) (\<lambda>es'.
       Inr (e\<lparr>rm_key_order := key_order_word key prefix_len\<rparr> # es')))"

definition from_shared :: "bytes \<Rightarrow> error + read_node" where
  "from_shared bs =
     and_then (cbind read_header (\<lambda>(fmt, leaf, level, entry_count).
       cbind (with_capacity 32 entry_count) (\<lambda>_.
       cbind (shared_entries (tf_node_layout fmt) entry_count leaf) (\<lambda>(prefix_keys, entries).
       creturn (fmt, leaf, level, entries, prefix_keys)))) (cursor_new bs))
     (\<lambda>((fmt, leaf, level, entries, prefix_keys), c).
     if \<not> cursor_done c then Inl (compact_error ''trailing bytes in compact node'')
     else let key_source = (case prefix_keys of None \<Rightarrow> bs | Some arena \<Rightarrow> arena) in
       and_then (shared_common_prefix key_source entries) (\<lambda>prefix_len.
       if \<not> leaf \<and> entries = [] then Inl InvalidNode
       else and_then (order_entries key_source prefix_len None entries) (\<lambda>entries'.
         and_then (compact_u32 prefix_len) (\<lambda>cpl.
         Inr \<lparr>rn_bytes = bs, rn_prefix_keys = prefix_keys, rn_entries = entries',
           rn_common_prefix_len = cpl, rn_leaf = leaf, rn_level = level, rn_format = fmt\<rparr>))))"

subsection \<open>Access\<close>

definition read_len :: "read_node \<Rightarrow> nat" where
  "read_len r = length (rn_entries r)"

definition read_is_empty :: "read_node \<Rightarrow> bool" where
  "read_is_empty r \<longleftrightarrow> rn_entries r = []"

definition key_source :: "read_node \<Rightarrow> bytes" where
  "key_source r = (case rn_prefix_keys r of None \<Rightarrow> rn_bytes r | Some arena \<Rightarrow> arena)"

definition entry_get :: "read_node \<Rightarrow> nat \<Rightarrow> read_entry_meta option" where
  "entry_get r i = (if i < length (rn_entries r) then Some (rn_entries r ! i) else None)"

definition read_key :: "read_node \<Rightarrow> nat \<Rightarrow> bytes option" where
  "read_key r i = Option.bind (entry_get r i) (\<lambda>e. read_slice (key_source r) (rm_key_start e) (rm_key_len e))"

definition read_value :: "read_node \<Rightarrow> nat \<Rightarrow> bytes option" where
  "read_value r i = Option.bind (entry_get r i) (\<lambda>e. read_slice (rn_bytes r) (rm_value_start e) (rm_value_len e))"

definition read_entry :: "read_node \<Rightarrow> nat \<Rightarrow> entry option" where
  "read_entry r i = Option.bind (entry_get r i) (\<lambda>e.
     Option.bind (read_slice (key_source r) (rm_key_start e) (rm_key_len e)) (\<lambda>key.
     Option.bind (read_slice (rn_bytes r) (rm_value_start e) (rm_value_len e)) (\<lambda>val. Some (key, val))))"

definition read_child_count :: "read_node \<Rightarrow> nat \<Rightarrow> u64 option" where
  "read_child_count r i = (if rn_leaf r then None else map_option rm_child_count (entry_get r i))"

definition cid_of_value :: "bytes \<Rightarrow> error + cid" where
  "cid_of_value v = (if length v = 32 then Inr v else Inl InvalidNode)"

definition child_cid :: "read_node \<Rightarrow> nat \<Rightarrow> error + cid" where
  "child_cid r i = and_then (ok_or (read_value r i) InvalidNode) cid_of_value"

definition retained_bytes :: "read_node \<Rightarrow> nat" where
  "retained_bytes r =
     (let sat = (\<lambda>x. min x (2 ^ 64 - 1)) in
      sat (sat (length (rn_bytes r) + (case rn_prefix_keys r of None \<Rightarrow> 0 | Some keys \<Rightarrow> length keys)) +
        sat (length (rn_entries r) * 32)))"

text \<open>\<open>to_owned\<close> unwraps every slice with \<open>expect\<close>: \<open>None\<close> is a panic.\<close>

primrec collect_opt :: "'a option list \<Rightarrow> 'a list option" where
  "collect_opt [] = Some []"
| "collect_opt (x # xs) = Option.bind x (\<lambda>v. map_option ((#) v) (collect_opt xs))"

definition read_to_owned :: "read_node \<Rightarrow> node option" where
  "read_to_owned r =
     Option.bind (collect_opt (map (read_key r) [0..<read_len r])) (\<lambda>keys.
     Option.bind (collect_opt (map (read_value r) [0..<read_len r])) (\<lambda>vals.
     Some \<lparr>nd_keys = keys, nd_vals = vals,
       nd_child_counts = (if rn_leaf r then [] else map rm_child_count (rn_entries r)),
       nd_leaf = rn_leaf r, nd_level = rn_level r, nd_format = rn_format r\<rparr>))"

subsection \<open>Search\<close>

text \<open>\<open>Inr i\<close> is \<open>Ok(i)\<close>, \<open>Inl i\<close> is \<open>Err(i)\<close>.\<close>

definition unchecked_slice :: "bytes \<Rightarrow> nat \<Rightarrow> nat \<Rightarrow> bytes option" where
  "unchecked_slice source start len =
     (if start + len \<le> length source then Some (take len (drop start source)) else None)"

function read_search_loop :: "read_node \<Rightarrow> bytes \<Rightarrow> u64 \<Rightarrow> nat \<Rightarrow> nat \<Rightarrow> (nat + nat) option" where
  "read_search_loop r key query_order left right =
     (if left < right then
        let mid = left + (right - left) div 2 in
        case entry_get r mid of
          None \<Rightarrow> None
        | Some e \<Rightarrow>
            if rm_key_order e < query_order then read_search_loop r key query_order (mid + 1) right
            else if query_order < rm_key_order e then read_search_loop r key query_order left mid
            else case unchecked_slice (key_source r) (unat (rm_key_start e)) (unat (rm_key_len e)) of
              None \<Rightarrow> None
            | Some candidate \<Rightarrow>
                if candidate < key then read_search_loop r key query_order (mid + 1) right
                else if key < candidate then read_search_loop r key query_order left mid
                else Some (Inr mid)
      else Some (Inl left))"
  by pat_completeness auto

termination
  by (relation "measure (\<lambda>(_, _, _, left, right). right - left)") auto

declare read_search_loop.simps [simp del]

definition read_search :: "read_node \<Rightarrow> bytes \<Rightarrow> (nat + nat) option" where
  "read_search r key =
     (let cpl = unat (rn_common_prefix_len r);
          continue = read_search_loop r key (key_order_word key cpl) 0 (read_len r) in
      if 0 < cpl then
        Option.bind (entry_get r 0) (\<lambda>fst_entry.
        Option.bind (unchecked_slice (key_source r) (unat (rm_key_start fst_entry)) cpl) (\<lambda>common.
        let shared = min (length key) cpl in
        if take shared key < take shared common then Some (Inl 0)
        else if take shared common < take shared key then Some (Inl (read_len r))
        else if length key < cpl then Some (Inl 0)
        else continue))
      else continue)"

text \<open>\<open>slice::binary_search_by\<close> of the standard library, as \<open>Node::search\<close> calls it.\<close>

function binary_search_base :: "bytes list \<Rightarrow> bytes \<Rightarrow> nat \<Rightarrow> nat \<Rightarrow> nat" where
  "binary_search_base keys key base sz =
     (if 1 < sz then
        let half = sz div 2; mid = base + half in
        binary_search_base keys key (if key < keys ! mid then base else mid) (sz - half)
      else base)"
  by pat_completeness auto

termination
  by (relation "measure (\<lambda>(_, _, _, sz). sz)") auto

declare binary_search_base.simps [simp del]

definition node_search :: "node \<Rightarrow> bytes \<Rightarrow> nat + nat" where
  "node_search n key =
     (let keys = nd_keys n in
      if keys = [] then Inl 0
      else let base = binary_search_base keys key 0 (length keys) in
        if keys ! base = key then Inr base
        else if keys ! base < key then Inl (base + 1)
        else Inl base)"

text \<open>The linear reference both searches are compared with.\<close>

definition search_ref :: "bytes list \<Rightarrow> bytes \<Rightarrow> nat + nat" where
  "search_ref keys key =
     (let i = length (takeWhile (\<lambda>k. k < key) keys) in
      if i < length keys \<and> keys ! i = key then Inr i else Inl i)"

section \<open>Searching sorted keys\<close>

lemma sorted_wrt_nth_le:
  "sorted_wrt (<) (keys :: 'a :: linorder list) \<Longrightarrow> i \<le> j \<Longrightarrow> j < length keys \<Longrightarrow> keys ! i \<le> keys ! j"
  by (cases "i = j") (auto simp: sorted_wrt_iff_nth_less intro: less_imp_le)

lemma length_takeWhile_index:
  assumes "i \<le> length keys" "\<forall>j < i. keys ! j < key" "\<forall>j. i \<le> j \<longrightarrow> j < length keys \<longrightarrow> \<not> keys ! j < key"
  shows "length (takeWhile (\<lambda>k. k < (key :: bytes)) keys) = i"
proof -
  have "takeWhile (\<lambda>k. k < key) keys = take i keys"
    using assms by (intro takeWhile_eq_take_P_nth) auto
  then show ?thesis using assms(1) by simp
qed

lemma search_ref_found:
  assumes "sorted_wrt (<) keys" "i < length keys" "keys ! i = key"
  shows "search_ref keys key = Inr i"
proof -
  have "length (takeWhile (\<lambda>k. k < key) keys) = i"
    using assms by (intro length_takeWhile_index) (auto simp: sorted_wrt_iff_nth_less not_less intro: sorted_wrt_nth_le)
  then show ?thesis using assms by (simp add: search_ref_def)
qed

lemma search_ref_missing:
  assumes "i \<le> length keys" "\<forall>j < i. keys ! j < key" "\<forall>j. i \<le> j \<longrightarrow> j < length keys \<longrightarrow> key < keys ! j"
  shows "search_ref keys key = Inl i"
proof -
  have "length (takeWhile (\<lambda>k. k < key) keys) = i"
    using assms by (intro length_takeWhile_index) (auto simp: not_less intro: less_imp_le)
  then show ?thesis using assms(3) by (auto simp: search_ref_def)
qed

lemma binary_search_base_spec:
  assumes "sorted_wrt (<) keys" "0 < sz" "base + sz \<le> length keys"
    "\<forall>j < length keys. base + sz \<le> j \<longrightarrow> key < keys ! j" "base = 0 \<or> keys ! base \<le> key"
  shows "let b = binary_search_base keys key base sz in
     b < length keys \<and> (\<forall>j < length keys. b < j \<longrightarrow> key < keys ! j) \<and> (b = 0 \<or> keys ! b \<le> key)"
  using assms
proof (induction keys key base sz rule: binary_search_base.induct)
  case (1 keys key base sz)
  show ?case
  proof (cases "1 < sz")
    case True
    let ?half = "sz div 2" and ?mid = "base + sz div 2"
    have mid: "?mid < length keys" "0 < sz - ?half" using True 1(4) by auto
    let ?base = "if key < keys ! ?mid then base else ?mid"
    have up: "\<forall>j < length keys. ?base + (sz - ?half) \<le> j \<longrightarrow> key < keys ! j"
    proof (intro allI impI)
      fix j assume j: "j < length keys" "?base + (sz - ?half) \<le> j"
      show "key < keys ! j"
      proof (cases "key < keys ! ?mid")
        case t: True
        then have "?mid \<le> j" using j(2) by (simp split: if_splits)
        then show ?thesis using sorted_wrt_nth_le [OF 1(2)] j(1) t by (meson less_le_trans)
      next
        case False
        then have "base + sz \<le> j" using j(2) by (simp del: not_less)
        then show ?thesis using 1(5) j(1) by blast
      qed
    qed
    have lo: "?base = 0 \<or> keys ! ?base \<le> key" using 1(6) by auto
    have le: "?base + (sz - ?half) \<le> length keys" using 1(4) by (cases "key < keys ! ?mid") auto
    have "binary_search_base keys key base sz = binary_search_base keys key ?base (sz - ?half)"
      using True by (subst binary_search_base.simps) (simp add: Let_def)
    then show ?thesis using 1(1) [OF True refl refl 1(2) mid(2) le up lo] by (simp only:)
  next
    case False
    with 1 show ?thesis by (subst (1) binary_search_base.simps) (auto simp: Let_def le_Suc_eq)
  qed
qed

lemma node_search_ref:
  assumes "sorted_wrt (<) (nd_keys n)"
  shows "node_search n key = search_ref (nd_keys n) key"
proof (cases "nd_keys n = []")
  case False
  define b where "b = binary_search_base (nd_keys n) key 0 (length (nd_keys n))"
  have b: "b < length (nd_keys n)" "\<forall>j < length (nd_keys n). b < j \<longrightarrow> key < nd_keys n ! j"
    "b = 0 \<or> nd_keys n ! b \<le> key"
    using binary_search_base_spec [of "nd_keys n" "length (nd_keys n)" 0 key] assms False
    by (auto simp: b_def Let_def)
  have below: "nd_keys n ! j < nd_keys n ! b" if "j < b" for j
    using assms that b(1) by (simp add: sorted_wrt_iff_nth_less)
  consider "nd_keys n ! b = key" | "nd_keys n ! b < key" | "key < nd_keys n ! b" by fastforce
  then show ?thesis
  proof cases
    case 1
    then show ?thesis using search_ref_found [OF assms b(1)] False by (simp add: node_search_def b_def Let_def)
  next
    case 2
    have "search_ref (nd_keys n) key = Inl (b + 1)"
      using b below 2 by (intro search_ref_missing) (auto simp: less_Suc_eq intro: less_trans)
    then show ?thesis using 2 False by (auto simp: node_search_def b_def Let_def)
  next
    case 3
    then have "search_ref (nd_keys n) key = Inl b"
      using b by (intro search_ref_missing) (auto simp: le_less)
    then show ?thesis using 3 False by (auto simp: node_search_def b_def Let_def)
  qed
qed (simp add: node_search_def search_ref_def)

section \<open>The order word\<close>

fun pad :: "nat \<Rightarrow> bytes \<Rightarrow> bytes" where
  "pad 0 bs = []"
| "pad (Suc n) [] = 0 # pad n []"
| "pad (Suc n) (b # bs) = b # pad n bs"

lemma length_pad [simp]: "length (pad n bs) = n"
  by (induction n bs rule: pad.induct) auto

lemma pad_Nil: "pad n [] = replicate n 0"
  by (induction n) auto

lemma pad_eq: "pad n bs = take n bs @ replicate (n - length bs) 0"
  by (induction n bs rule: pad.induct) (auto simp: pad_Nil)

lemma pad_Nil_le: "pad n [] \<le> pad n bs"
proof (induction n arbitrary: bs)
  case (Suc n)
  then show ?case by (cases bs) (auto simp: word_le_less_eq word_gt_0)
qed simp

lemma pad_mono: "a \<le> b \<Longrightarrow> pad n a \<le> pad n b"
proof (induction n arbitrary: a b)
  case (Suc n)
  show ?case
  proof (cases a)
    case Nil
    then show ?thesis using pad_Nil_le [of "Suc n" b] by simp
  next
    case (Cons x xs)
    with Suc.prems obtain y ys where "b = y # ys" by (cases b) auto
    with Cons Suc show ?thesis by auto
  qed
qed simp

lemma key_order_word_pad: "unat (key_order_word key p) = be_nat (pad 8 (drop p key))"
proof -
  have "be_nat (pad 8 (drop p key)) < 2 ^ 64" using be_nat_bound [of "pad 8 (drop p key)"] by simp
  moreover have "key_order_word key p = of_nat (be_nat (pad 8 (drop p key)))"
    by (simp add: key_order_word_def pad_eq Let_def min_def)
  ultimately show ?thesis by (simp only: unat_of_nat_u64)
qed

lemma key_order_word_less:
  assumes "key_order_word a p < key_order_word b p" "take p a = take p b"
  shows "a < b"
proof (rule ccontr)
  assume "\<not> a < b"
  then have "take p b @ drop p b \<le> take p a @ drop p a" by (simp add: not_less)
  then have "drop p b \<le> drop p a"
    using assms(2) by (simp add: append_less_append_iff not_less [symmetric] del: append_take_drop_id)
  then have "pad 8 (drop p b) \<le> pad 8 (drop p a)" by (rule pad_mono)
  then have "be_nat (pad 8 (drop p b)) \<le> be_nat (pad 8 (drop p a))"
    using be_nat_less_iff [of "pad 8 (drop p a)" "pad 8 (drop p b)"] by (simp add: not_less [symmetric])
  with assms(1) show False by (simp add: word_less_nat_alt key_order_word_pad)
qed

section \<open>The packed search\<close>

lemma between_prefix: "p @ a \<le> k \<Longrightarrow> k \<le> p @ b \<Longrightarrow> prefix p (k :: bytes)"
proof (induction p arbitrary: k)
  case (Cons x p)
  then obtain y ys where "k = y # ys" by (cases k) auto
  with Cons show ?case by auto
qed simp

definition common_len :: "bytes list \<Rightarrow> nat" where
  "common_len keys = (if keys = [] then 0 else common_prefix_len (hd keys) (last keys))"

lemma common_len_prefix:
  assumes "sorted_wrt (<) keys" "i < length keys"
  shows "common_len keys \<le> length (keys ! i) \<and>
    take (common_len keys) (keys ! i) = take (common_len keys) (hd keys)"
proof -
  let ?n = "common_len keys"
  have ne: "keys \<noteq> []" using assms(2) by auto
  have n: "?n \<le> length (hd keys)" "take ?n (last keys) = take ?n (hd keys)"
    using ne common_prefix_len_le take_common_prefix by (auto simp: common_len_def)
  have "hd keys \<le> keys ! i" "keys ! i \<le> last keys"
    using assms ne sorted_wrt_nth_le [OF assms(1), of 0 i] sorted_wrt_nth_le [OF assms(1), of i "length keys - 1"]
    by (auto simp: hd_conv_nth last_conv_nth)
  then have "prefix (take ?n (hd keys)) (keys ! i)"
    using between_prefix [of "take ?n (hd keys)" "drop ?n (hd keys)" "keys ! i" "drop ?n (last keys)"] n(2)
    by (metis append_take_drop_id)
  with n(1) show ?thesis by (auto simp: prefix_def)
qed

definition packs :: "read_node \<Rightarrow> bytes list \<Rightarrow> bool" where
  "packs r keys \<longleftrightarrow>
     sorted_wrt (<) keys \<and> length (rn_entries r) = length keys \<and>
     unat (rn_common_prefix_len r) = common_len keys \<and>
     (\<forall>i < length keys.
        read_slice (key_source r) (rm_key_start (rn_entries r ! i)) (rm_key_len (rn_entries r ! i)) = Some (keys ! i) \<and>
        rm_key_order (rn_entries r ! i) = key_order_word (keys ! i) (common_len keys))"

lemma unchecked_slice_prefix:
  "unchecked_slice source start len = Some k \<Longrightarrow> n \<le> length k \<Longrightarrow> unchecked_slice source start n = Some (take n k)"
  by (auto simp: unchecked_slice_def min_def split: if_splits)

lemma take_mono_le: "a \<le> b \<Longrightarrow> take n a \<le> take n (b :: bytes)"
proof (induction n arbitrary: a b)
  case (Suc n)
  then show ?case by (cases a; cases b) auto
qed simp

lemma take_less: "take n a < take n b \<Longrightarrow> a < (b :: bytes)"
  using take_mono_le [of b a n] by (simp add: not_less [symmetric]) (meson not_less)

lemma shorter_prefix_less:
  assumes "key = take (length key) k" "length key < length k"
  shows "key < (k :: bytes)"
proof -
  have "key \<le> k" by (metis assms(1) prefix_le take_is_prefix)
  then show ?thesis using assms(2) by (auto simp: le_less)
qed

lemma packs_entry:
  assumes "packs r keys" "i < length keys"
  obtains e where "entry_get r i = Some e" "rm_key_order e = key_order_word (keys ! i) (common_len keys)"
    "unat (rm_key_start e) + unat (rm_key_len e) \<le> length (key_source r)"
    "unchecked_slice (key_source r) (unat (rm_key_start e)) (unat (rm_key_len e)) = Some (keys ! i)"
  using assms by (auto simp: packs_def entry_get_def read_slice_def unchecked_slice_def split: if_splits)

lemma read_search_loop_ref:
  assumes "packs r keys" "take (common_len keys) key = take (common_len keys) (hd keys)"
    "left \<le> right" "right \<le> length keys"
    "\<forall>j < left. keys ! j < key" "\<forall>j. right \<le> j \<longrightarrow> j < length keys \<longrightarrow> key < keys ! j"
  shows "read_search_loop r key (key_order_word key (common_len keys)) left right = Some (search_ref keys key)"
  using assms(3-)
proof (induction "right - left" arbitrary: left right rule: less_induct)
  case less
  have sorted: "sorted_wrt (<) keys" using assms(1) by (simp add: packs_def)
  show ?case
  proof (cases "left < right")
    case False
    then show ?thesis using less.prems
      by (subst read_search_loop.simps) (simp add: search_ref_missing)
  next
    case True
    define mid where "mid = left + (right - left) div 2"
    have mid: "left \<le> mid" "mid < right" "mid < length keys" using True less.prems(2) by (auto simp: mid_def)
    obtain e where e: "entry_get r mid = Some e" "rm_key_order e = key_order_word (keys ! mid) (common_len keys)"
      "unchecked_slice (key_source r) (unat (rm_key_start e)) (unat (rm_key_len e)) = Some (keys ! mid)"
      using packs_entry [OF assms(1) mid(3)] .
    have pre: "take (common_len keys) (keys ! mid) = take (common_len keys) key"
      using common_len_prefix [OF sorted mid(3)] assms(2) by simp
    have up: "read_search_loop r key (key_order_word key (common_len keys)) (mid + 1) right = Some (search_ref keys key)"
      if "keys ! mid < key"
      using mid less.prems that
      by (intro less.hyps) (auto simp: less_Suc_eq dest: sorted_wrt_nth_less [OF sorted _ mid(3)] intro: less_trans)
    have down: "read_search_loop r key (key_order_word key (common_len keys)) left mid = Some (search_ref keys key)"
      if "key < keys ! mid"
      using mid less.prems that sorted_wrt_nth_le [OF sorted]
      by (intro less.hyps) (auto intro: less_le_trans)
    have "\<not> keys ! mid < key \<Longrightarrow> \<not> key < keys ! mid \<Longrightarrow> search_ref keys key = Inr mid"
      using search_ref_found [OF sorted mid(3)] by auto
    then show ?thesis
      using True up down key_order_word_less [OF _ pre] key_order_word_less [OF _ pre [symmetric]]
      by (subst read_search_loop.simps) (auto simp: mid_def [symmetric] Let_def e)
  qed
qed

lemma read_search_ref:
  assumes "packs r keys"
  shows "read_search r key = Some (search_ref keys key)"
proof -
  let ?n = "common_len keys"
  have sorted: "sorted_wrt (<) keys" and cpl: "unat (rn_common_prefix_len r) = ?n"
    and len: "read_len r = length keys" using assms by (auto simp: packs_def read_len_def)
  have loop: "read_search_loop r key (key_order_word key ?n) 0 (length keys) = Some (search_ref keys key)"
    if "take ?n key = take ?n (hd keys)"
    using assms that by (intro read_search_loop_ref) auto
  show ?thesis
  proof (cases "0 < ?n")
    case False
    then show ?thesis using loop by (simp add: read_search_def Let_def cpl len)
  next
    case True
    then have ne: "0 < length keys" by (auto simp: common_len_def)
    obtain e where e: "entry_get r 0 = Some e" 
      "unat (rm_key_start e) + unat (rm_key_len e) \<le> length (key_source r)"
      "unchecked_slice (key_source r) (unat (rm_key_start e)) (unat (rm_key_len e)) = Some (keys ! 0)"
      using packs_entry [OF assms ne] .
    have pre: "\<And>i. i < length keys \<Longrightarrow> ?n \<le> length (keys ! i) \<and> take ?n (keys ! i) = take ?n (hd keys)"
      using common_len_prefix [OF sorted] by blast
    have hd: "hd keys = keys ! 0" using ne by (simp add: hd_conv_nth)
    have common: "unchecked_slice (key_source r) (unat (rm_key_start e)) ?n = Some (take ?n (hd keys))"
      using unchecked_slice_prefix [OF e(3)] pre [OF ne] hd by simp
    let ?s = "min (length key) ?n"
    have eq: "take ?s (take ?n (hd keys)) = take ?s (keys ! i)" if "i < length keys" for i
      using pre [OF that] by (metis min.cobounded2 min.absorb1 take_take)
    have small: "search_ref keys key = Inl 0" if "\<And>i. i < length keys \<Longrightarrow> key < keys ! i"
      using that by (intro search_ref_missing) auto
    have large: "search_ref keys key = Inl (length keys)" if "\<And>i. i < length keys \<Longrightarrow> keys ! i < key"
      using that by (intro search_ref_missing) auto
    have "take ?s key < take ?s (take ?n (hd keys)) \<Longrightarrow> search_ref keys key = Inl 0"
      using small take_less [of ?s key] eq by metis
    moreover have "take ?s (take ?n (hd keys)) < take ?s key \<Longrightarrow> search_ref keys key = Inl (length keys)"
      using large take_less [of ?s _ key] eq by metis
    moreover have "search_ref keys key = Inl 0" if "take ?s key = take ?s (take ?n (hd keys))" "length key < ?n"
      using that eq pre by (intro small shorter_prefix_less) (auto simp: min_def dest: less_le_trans)
    moreover have "take ?n key = take ?n (hd keys)"
      if "take ?s key = take ?s (take ?n (hd keys))" "\<not> length key < ?n"
      using that by (simp add: min.absorb2 not_less)
    ultimately show ?thesis
      using True loop common e(1) len by (auto simp: read_search_def Let_def cpl)
  qed
qed

end
