(* ===== verification/Read_Decode.thy ===== *)
theory Read_Decode
  imports Read_Node
begin

text \<open>
  The packed decoder (\<open>ReadNode::from_shared\<close>) and the owned one (\<open>Node::from_compact_bytes\<close>)
  agree: both are described by the rows that stand in the bytes, the owned decoder adding
  the order check row by row, the packed one checking 32-bit ranges and the order at the end.
\<close>

section \<open>Positions\<close>

text \<open>A cursor inside \<open>bs\<close>, and readers that stay inside and never move backwards.\<close>

definition inside :: "bytes \<Rightarrow> cursor \<Rightarrow> bool" where
  "inside bs c \<longleftrightarrow> position c \<le> length bs \<and> remaining c = drop (position c) bs"

definition forward :: "(error, 'a) reader \<Rightarrow> bool" where
  "forward f \<longleftrightarrow> (\<forall>bs c x c'. inside bs c \<longrightarrow> f c = Inr (x, c') \<longrightarrow> inside bs c' \<and> position c \<le> position c')"

named_theorems forward_intros

lemma forwardD: "forward f \<Longrightarrow> f c = Inr (x, c') \<Longrightarrow> inside bs c \<Longrightarrow> inside bs c' \<and> position c \<le> position c'"
  by (auto simp: forward_def)

lemma forward_bind [forward_intros]:
  assumes "forward f" "\<And>x. forward (g x)"
  shows "forward (cbind f g)"
  unfolding forward_def
proof (intro allI impI)
  fix bs c y c''
  assume "inside bs c" "cbind f g c = Inr (y, c'')"
  then show "inside bs c'' \<and> position c \<le> position c''"
    using forwardD [OF assms(1)] forwardD [OF assms(2)] by (elim cbind_InrE) (meson le_trans)
qed

lemma forward_return [forward_intros]: "forward (creturn x)"
  by (simp add: forward_def)

lemma forward_fail [forward_intros]: "forward (cfail e)"
  by (simp add: forward_def)

lemma forward_if [forward_intros]: "forward f \<Longrightarrow> forward g \<Longrightarrow> forward (if b then f else g)"
  by simp

lemma forward_clift [forward_intros]: "forward (clift r)"
  by (simp add: forward_def clift_Inr)

lemma forward_position [forward_intros]: "forward cposition"
  by (simp add: forward_def cposition_def)

lemma read_bytes_slice:
  assumes "compact_read_bytes n c = Inr (v, c')" "inside bs c"
  shows "length v = n \<and> position c + n \<le> length bs \<and> take n (drop (position c) bs) = v \<and>
    inside bs c' \<and> position c' = position c + n"
  using assms by (auto simp: compact_read_bytes_def cursor_read_def inside_def add.commute split: if_splits)

lemma forward_read_bytes [forward_intros]: "forward (compact_read_bytes n)"
  using read_bytes_slice by (fastforce simp: forward_def)

lemma read_byte_step:
  assumes "compact_read_byte c = Inr (b, c')" "inside bs c"
  shows "inside bs c' \<and> position c' = Suc (position c)"
proof -
  from assms obtain rest where r: "drop (position c) bs = b # rest"
    and c': "c' = \<lparr>remaining = rest, position = Suc (position c)\<rparr>"
    by (auto simp: compact_read_byte_def inside_def split: list.splits)
  from r have "position c < length bs" by (metis drop_eq_Nil2 leI list.simps(3))
  moreover from r have "rest = drop (Suc (position c)) bs" by (metis drop_Suc list.sel(3) tl_drop)
  ultimately show ?thesis by (simp add: c' inside_def)
qed

lemma forward_read_byte [forward_intros]: "forward compact_read_byte"
  using read_byte_step by (fastforce simp: forward_def)

lemma forward_varint_loop: "forward (read_varint_loop n acc s)"
proof (induction n arbitrary: acc s)
  case (Suc n)
  then show ?case unfolding read_varint_loop.simps Let_def by (intro forward_intros)
qed (simp add: read_varint_loop.simps forward_fail)

lemma forward_read_varint [forward_intros]: "forward read_varint"
  unfolding read_varint_def by (rule forward_varint_loop)

lemma forward_read_usize [forward_intros]: "forward read_usize"
  unfolding read_usize_def by (intro forward_intros)

lemma forward_child_count [forward_intros]: "forward (read_compact_child_count leaf)"
  unfolding read_compact_child_count_def by (intro forward_intros)

lemma read_varint_advances:
  assumes "read_varint c = Inr (x, c')" "inside bs c"
  shows "position c < position c'"
proof -
  have "read_varint_loop (Suc 9) 0 0 c = Inr (x, c')" using assms(1) by (simp add: read_varint_def)
  then obtain b c1 y where b: "compact_read_byte c = Inr (b, c1)"
    and rest: "(if (0 :: nat) = 63 \<and> 1 < (ucast (b AND 0x7f) :: u64) then cfail (compact_error ''varint overflow'')
       else if b AND 0x80 = 0 then creturn (0 OR push_bit 0 (ucast (b AND 0x7f)))
       else read_varint_loop 9 (0 OR push_bit 0 (ucast (b AND 0x7f))) (0 + 7)) c1 = Inr (x, c')"
    unfolding read_varint_loop.simps Let_def by (auto elim!: cbind_InrE)
  have "forward (if (0 :: nat) = 63 \<and> 1 < (ucast (b AND 0x7f) :: u64) then cfail (compact_error ''varint overflow'')
       else if b AND 0x80 = 0 then creturn (0 OR push_bit 0 (ucast (b AND 0x7f)))
       else read_varint_loop 9 (0 OR push_bit 0 (ucast (b AND 0x7f))) (0 + 7))"
    by (intro forward_intros forward_varint_loop)
  from forwardD [OF this rest, of bs] read_byte_step [OF b assms(2)] show ?thesis by auto
qed

lemma read_usize_advances: "read_usize c = Inr (x, c') \<Longrightarrow> inside bs c \<Longrightarrow> position c < position c'"
  by (auto simp: read_usize_def elim!: cbind_InrE dest: read_varint_advances)

lemma inside_new [simp]: "inside bs (cursor_new bs)"
  by (simp add: inside_def cursor_new_def)

section \<open>Both decoders read the same rows\<close>

text \<open>
  A row as it stands in the bytes: where the key starts, the key, where the value starts,
  the value, the child count (zero in a leaf).
\<close>

type_synonym row = "nat \<times> bytes \<times> nat \<times> bytes \<times> u64"

definition row_key :: "row \<Rightarrow> bytes" where "row_key = (\<lambda>(ks, k, vs, v, n). k)"
definition row_val :: "row \<Rightarrow> bytes" where "row_val = (\<lambda>(ks, k, vs, v, n). v)"
definition row_count :: "row \<Rightarrow> u64" where "row_count = (\<lambda>(ks, k, vs, v, n). n)"

lemmas row_defs = row_key_def row_val_def row_count_def

definition raw_prefix_key :: "bytes \<Rightarrow> (error, nat \<times> bytes) reader" where
  "raw_prefix_key previous =
     cbind read_usize (\<lambda>shared.
     if length previous < shared then cfail InvalidNode
     else cbind read_usize (\<lambda>suffix_len.
       cbind (compact_read_bytes suffix_len) (\<lambda>suffix. creturn (0, take shared previous @ suffix))))"

definition raw_plain_key :: "bytes \<Rightarrow> (error, nat \<times> bytes) reader" where
  "raw_plain_key previous =
     cbind read_usize (\<lambda>key_len.
     cbind cposition (\<lambda>key_start.
     cbind (compact_read_bytes key_len) (\<lambda>key. creturn (key_start, key))))"

definition raw_row :: "(bytes \<Rightarrow> (error, nat \<times> bytes) reader) \<Rightarrow> bool \<Rightarrow> bytes \<Rightarrow> (error, row) reader" where
  "raw_row rk leaf previous =
     cbind (rk previous) (\<lambda>(key_start, key).
     cbind read_usize (\<lambda>value_len.
     cbind cposition (\<lambda>value_start.
     cbind (compact_read_bytes value_len) (\<lambda>val.
     cbind (read_compact_child_count leaf) (\<lambda>child_count.
     creturn (key_start, key, value_start, val, child_count))))))"

primrec raw_rows :: "(bytes \<Rightarrow> (error, nat \<times> bytes) reader) \<Rightarrow> bool \<Rightarrow> nat \<Rightarrow> bytes \<Rightarrow> (error, row list) reader" where
  "raw_rows rk leaf 0 previous = creturn []"
| "raw_rows rk leaf (Suc n) previous =
     cbind (raw_row rk leaf previous) (\<lambda>row.
     cbind (raw_rows rk leaf n (row_key row)) (\<lambda>rows. creturn (row # rows)))"

lemma cbind_Inr_iff:
  "cbind f g c = Inr (y, c'') \<longleftrightarrow> (\<exists>x c'. f c = Inr (x, c') \<and> g x c' = Inr (y, c''))"
  by (auto simp: cbind_def split: sum.splits prod.splits)

lemma cposition_Inr: "cposition c = Inr (p, c') \<longleftrightarrow> p = position c \<and> c' = c"
  by (auto simp: cposition_def)

lemma compact_read_bytes_len: "compact_read_bytes n c = Inr (v, c') \<Longrightarrow> length v = n"
  unfolding compact_read_bytes_def by (rule cursor_read_Inr)

lemma forward_raw_row:
  assumes "\<And>p. forward (rk p)"
  shows "forward (raw_row rk leaf previous)"
  unfolding raw_row_def by (intro forward_intros assms, auto split: prod.split intro!: forward_intros)

lemma forward_raw_key: "forward (raw_prefix_key p)" "forward (raw_plain_key p)"
  unfolding raw_prefix_key_def raw_plain_key_def by (intro forward_intros)+

text \<open>The rows of one node, read inside \<open>bs\<close>: every value range is in bounds, no row is empty.\<close>

lemma raw_row_inside:
  assumes "raw_row rk leaf previous c = Inr ((ks, k, vs, v, n), c')" "inside bs c" "\<And>p. forward (rk p)"
  shows "vs + length v \<le> length bs \<and> take (length v) (drop vs bs) = v \<and> inside bs c' \<and>
    position c < position c' \<and> (\<exists>c1. rk previous c = Inr ((ks, k), c1))"
proof -
  from assms(1) obtain c1 vl c2 c3 where
    k: "rk previous c = Inr ((ks, k), c1)" and l: "read_usize c1 = Inr (vl, c2)" and vs: "vs = position c2"
    and v: "compact_read_bytes vl c2 = Inr (v, c3)" and n: "read_compact_child_count leaf c3 = Inr (n, c')"
    by (auto simp: raw_row_def cposition_Inr cbind_Inr_iff)
  have c1: "inside bs c1 \<and> position c \<le> position c1" using forwardD [OF assms(3) k assms(2)] .
  then have c2: "inside bs c2 \<and> position c1 < position c2"
    using forwardD [OF forward_read_usize l] read_usize_advances [OF l] by blast
  note slice = read_bytes_slice [OF v conjunct1 [OF c2]]
  moreover have "inside bs c' \<and> position c3 \<le> position c'"
    using forwardD [OF forward_child_count n] slice by blast
  ultimately show ?thesis using c1 c2 vs k by auto
qed

lemma raw_rows_inside:
  assumes "raw_rows rk leaf n previous c = Inr (rows, c')" "inside bs c" "\<And>p. forward (rk p)"
  shows "(\<forall>(ks, k, vs, v, m) \<in> set rows. vs + length v \<le> length bs \<and> take (length v) (drop vs bs) = v) \<and>
    inside bs c' \<and> position c + n \<le> position c' \<and> length rows = n"
  using assms(1,2)
proof (induction n arbitrary: previous c rows)
  case (Suc n)
  from Suc.prems(1) obtain row c1 rows' where row: "raw_row rk leaf previous c = Inr (row, c1)"
    and rows: "raw_rows rk leaf n (row_key row) c1 = Inr (rows', c')" "rows = row # rows'"
    by (auto simp: cbind_Inr_iff)
  obtain ks k vs v m where r: "row = (ks, k, vs, v, m)" by (cases row)
  show ?case using raw_row_inside [OF row [unfolded r] Suc.prems(2) assms(3)] Suc.IH [OF rows(1)] rows(2) r by auto
qed auto

text \<open>The owned decoder: the rows, in order.\<close>

lemma push_count_iff:
  "push_count leaf counts c = Inr (counts', c') \<longleftrightarrow>
     (\<exists>m. read_compact_child_count leaf c = Inr (m, c') \<and> counts' = counts @ (if leaf then [] else [m]))"
  by (auto simp: push_count_def cbind_Inr_iff read_compact_child_count_def)

lemma read_row_iff:
  assumes "\<And>c k c'. rd keys c = Inr (k, c') \<longleftrightarrow> ok k \<and> (\<exists>ks. rk (previous_key keys) c = Inr ((ks, k), c'))"
  shows "read_row rd leaf (keys, vals, counts) c = Inr (cols, c') \<longleftrightarrow>
     (\<exists>row. raw_row rk leaf (previous_key keys) c = Inr (row, c') \<and> ok (row_key row) \<and>
        \<not> out_of_order keys (row_key row) \<and>
        cols = (keys @ [row_key row], vals @ [row_val row], counts @ (if leaf then [] else [row_count row])))"
  unfolding read_row_def raw_row_def
  by (auto simp: cbind_Inr_iff assms push_count_iff cposition_Inr row_defs split: if_splits)

lemma sorted_wrt_append_order:
  assumes "sorted_wrt (<) keys"
  shows "\<not> out_of_order keys k \<and> sorted_wrt (<) ((keys @ [k]) @ ks) \<longleftrightarrow> sorted_wrt (<) (keys @ k # ks)"
  using assms by (auto simp: out_of_order_def sorted_wrt_append not_le) (metis last_in_set)

lemma read_rows_iff:
  assumes key: "\<And>keys c k c'. rd keys c = Inr (k, c') \<longleftrightarrow> ok k \<and> (\<exists>ks. rk (previous_key keys) c = Inr ((ks, k), c'))"
  shows "sorted_wrt (<) keys \<Longrightarrow>
    read_rows n (read_row rd leaf) (keys, vals, counts) c = Inr (cols, c') \<longleftrightarrow>
     (\<exists>rows. raw_rows rk leaf n (previous_key keys) c = Inr (rows, c') \<and> (\<forall>row \<in> set rows. ok (row_key row)) \<and>
        sorted_wrt (<) (keys @ map row_key rows) \<and>
        cols = (keys @ map row_key rows, vals @ map row_val rows, counts @ (if leaf then [] else map row_count rows)))"
proof (induction n arbitrary: keys vals counts c)
  case (Suc n)
  have IH: "read_rows n (read_row rd leaf) (keys @ [row_key row], vals @ [row_val row], counts @ (if leaf then [] else [row_count row])) c1
        = Inr (cols, c') \<longleftrightarrow>
      (\<exists>rows. raw_rows rk leaf n (row_key row) c1 = Inr (rows, c') \<and> (\<forall>row \<in> set rows. ok (row_key row)) \<and>
        sorted_wrt (<) ((keys @ [row_key row]) @ map row_key rows) \<and>
        cols = (keys @ map row_key (row # rows), vals @ map row_val (row # rows),
          counts @ (if leaf then [] else map row_count (row # rows))))"
    if "\<not> out_of_order keys (row_key row)" for row c1
    using Suc.IH [of "keys @ [row_key row]"] that Suc.prems
    by (simp add: sorted_wrt_snoc_order previous_key_def)
  show ?case
  proof
    assume "read_rows (Suc n) (read_row rd leaf) (keys, vals, counts) c = Inr (cols, c')"
    then obtain row c1 where "raw_row rk leaf (previous_key keys) c = Inr (row, c1)" "ok (row_key row)"
      and o: "\<not> out_of_order keys (row_key row)" and "read_rows n (read_row rd leaf)
         (keys @ [row_key row], vals @ [row_val row], counts @ (if leaf then [] else [row_count row])) c1 = Inr (cols, c')"
      by (auto simp: cbind_Inr_iff read_row_iff [where ok = ok and rk = rk, OF key])
    moreover note IH [OF o]
    ultimately show "\<exists>rows. raw_rows rk leaf (Suc n) (previous_key keys) c = Inr (rows, c') \<and> (\<forall>row \<in> set rows. ok (row_key row)) \<and>
        sorted_wrt (<) (keys @ map row_key rows) \<and>
        cols = (keys @ map row_key rows, vals @ map row_val rows, counts @ (if leaf then [] else map row_count rows))"
      using sorted_wrt_append_order [OF Suc.prems] by (fastforce simp: cbind_Inr_iff)
  next
    assume "\<exists>rows. raw_rows rk leaf (Suc n) (previous_key keys) c = Inr (rows, c') \<and> (\<forall>row \<in> set rows. ok (row_key row)) \<and>
        sorted_wrt (<) (keys @ map row_key rows) \<and>
        cols = (keys @ map row_key rows, vals @ map row_val rows, counts @ (if leaf then [] else map row_count rows))"
    then obtain row c1 rows where r: "raw_row rk leaf (previous_key keys) c = Inr (row, c1)" "ok (row_key row)"
      "raw_rows rk leaf n (row_key row) c1 = Inr (rows, c')" "\<forall>row \<in> set rows. ok (row_key row)"
      "sorted_wrt (<) (keys @ row_key row # map row_key rows)"
      "cols = (keys @ map row_key (row # rows), vals @ map row_val (row # rows),
          counts @ (if leaf then [] else map row_count (row # rows)))"
      by (auto simp: cbind_Inr_iff)
    moreover have o: "\<not> out_of_order keys (row_key row)" "sorted_wrt (<) ((keys @ [row_key row]) @ map row_key rows)"
      using sorted_wrt_append_order [OF Suc.prems] r(5) by blast+
    ultimately show "read_rows (Suc n) (read_row rd leaf) (keys, vals, counts) c = Inr (cols, c')"
      using IH [OF o(1), of c1] by (fastforce simp: cbind_Inr_iff read_row_iff [where ok = ok and rk = rk, OF key])
  qed
qed (auto)

lemma key_capacity_iff: "with_capacity 1 (min n (2 ^ 64 - 1)) c = Inr (u, c') \<longleftrightarrow> n < 2 ^ 63 \<and> c' = c"
  by (auto simp: with_capacity_def min_def)

lemma cbind_if_fail:
  "(if b then cfail e else f) c = Inr (x, c') \<longleftrightarrow> \<not> b \<and> f c = Inr (x, c')"
  by simp

lemma read_prefix_key_iff:
  "read_prefix_key keys c = Inr (k, c') \<longleftrightarrow>
     length k < 2 ^ 63 \<and> (\<exists>ks. raw_prefix_key (previous_key keys) c = Inr ((ks, k), c'))"
proof -
  have len: "length (take sh (previous_key keys) @ suffix) = sh + sl"
    if "compact_read_bytes sl c2 = Inr (suffix, c')" "\<not> length (previous_key keys) < sh" for sh sl suffix c2
    using compact_read_bytes_len [OF that(1)] that(2) by simp
  show ?thesis
  proof
    assume "read_prefix_key keys c = Inr (k, c')"
    then obtain sh c1 sl c2 suffix where "read_usize c = Inr (sh, c1)" and sh: "\<not> length (previous_key keys) < sh"
      and "read_usize c1 = Inr (sl, c2)" "sh + sl < 2 ^ 63" and suffix: "compact_read_bytes sl c2 = Inr (suffix, c')"
      and "k = take sh (previous_key keys) @ suffix"
      unfolding read_prefix_key_def cbind_Inr_iff cbind_if_fail key_capacity_iff creturn_Inr by blast
    with len [OF suffix sh] show "length k < 2 ^ 63 \<and> (\<exists>ks. raw_prefix_key (previous_key keys) c = Inr ((ks, k), c'))"
      unfolding raw_prefix_key_def cbind_Inr_iff cbind_if_fail creturn_Inr by (metis (no_types, lifting))
  next
    assume a: "length k < 2 ^ 63 \<and> (\<exists>ks. raw_prefix_key (previous_key keys) c = Inr ((ks, k), c'))"
    then obtain sh c1 sl c2 suffix where "read_usize c = Inr (sh, c1)" and sh: "\<not> length (previous_key keys) < sh"
      and "read_usize c1 = Inr (sl, c2)" and suffix: "compact_read_bytes sl c2 = Inr (suffix, c')"
      and "k = take sh (previous_key keys) @ suffix"
      unfolding raw_prefix_key_def cbind_Inr_iff cbind_if_fail creturn_Inr by blast
    with len [OF suffix sh] a show "read_prefix_key keys c = Inr (k, c')"
      unfolding read_prefix_key_def cbind_Inr_iff cbind_if_fail key_capacity_iff creturn_Inr
      by (metis (no_types, lifting))
  qed
qed

lemma read_plain_key_iff:
  "read_plain_key keys c = Inr (k, c') \<longleftrightarrow> True \<and> (\<exists>ks. raw_plain_key (previous_key keys) c = Inr ((ks, k), c'))"
  unfolding read_plain_key_def raw_plain_key_def by (auto simp: cbind_Inr_iff cposition_Inr)

text \<open>The packed decoder: the same rows, as ranges that fit 32 bits.\<close>

definition mk_meta :: "nat \<Rightarrow> nat \<Rightarrow> nat \<Rightarrow> nat \<Rightarrow> u64 \<Rightarrow> read_entry_meta" where
  "mk_meta ks kl vs vl m =
     \<lparr>rm_key_start = of_nat ks, rm_key_len = of_nat kl, rm_value_start = of_nat vs, rm_value_len = of_nat vl,
      rm_child_count = m, rm_key_order = 0\<rparr>"

definition fits32 :: "nat \<Rightarrow> nat \<Rightarrow> nat \<Rightarrow> nat \<Rightarrow> bool" where
  "fits32 ks kl vs vl \<longleftrightarrow> ks < 2 ^ 32 \<and> kl < 2 ^ 32 \<and> vs < 2 ^ 32 \<and> vl < 2 ^ 32"

lemma entry_meta_iff: "entry_meta ks kl vs vl m = Inr e \<longleftrightarrow> fits32 ks kl vs vl \<and> e = mk_meta ks kl vs vl m"
  by (auto simp: entry_meta_def compact_u32_def fits32_def mk_meta_def)

definition plain_meta :: "row \<Rightarrow> read_entry_meta" where
  "plain_meta = (\<lambda>(ks, k, vs, v, m). mk_meta ks (length k) vs (length v) m)"

definition plain_fits :: "row \<Rightarrow> bool" where
  "plain_fits = (\<lambda>(ks, k, vs, v, m). fits32 ks (length k) vs (length v))"

lemma shared_plain_step:
  "shared_plain_loop (Suc n) leaf es c = Inr (es', c') \<longleftrightarrow>
     (\<exists>row c1. raw_row raw_plain_key leaf p c = Inr (row, c1) \<and> plain_fits row \<and>
        shared_plain_loop n leaf (es @ [plain_meta row]) c1 = Inr (es', c'))"
proof
  assume "shared_plain_loop (Suc n) leaf es c = Inr (es', c')"
  then obtain kl c1 k c2 vl c3 v c4 m c5 where
    "read_usize c = Inr (kl, c1)" and k: "compact_read_bytes kl c1 = Inr (k, c2)" and
    "read_usize c2 = Inr (vl, c3)" and v: "compact_read_bytes vl c3 = Inr (v, c4)" and
    "read_compact_child_count leaf c4 = Inr (m, c5)" "fits32 (position c1) kl (position c3) vl"
    "shared_plain_loop n leaf (es @ [mk_meta (position c1) kl (position c3) vl m]) c5 = Inr (es', c')"
    by (auto simp: cbind_Inr_iff cposition_Inr clift_Inr entry_meta_iff)
  with compact_read_bytes_len [OF k] compact_read_bytes_len [OF v]
  have "raw_row raw_plain_key leaf p c = Inr ((position c1, k, position c3, v, m), c5) \<and>
      plain_fits (position c1, k, position c3, v, m) \<and>
      shared_plain_loop n leaf (es @ [plain_meta (position c1, k, position c3, v, m)]) c5 = Inr (es', c')"
    by (auto simp: raw_row_def raw_plain_key_def cbind_Inr_iff cposition_Inr plain_fits_def plain_meta_def)
  then show "\<exists>row c1. raw_row raw_plain_key leaf p c = Inr (row, c1) \<and> plain_fits row \<and>
        shared_plain_loop n leaf (es @ [plain_meta row]) c1 = Inr (es', c')" by blast
next
  assume "\<exists>row c1. raw_row raw_plain_key leaf p c = Inr (row, c1) \<and> plain_fits row \<and>
        shared_plain_loop n leaf (es @ [plain_meta row]) c1 = Inr (es', c')"
  then obtain kl c1 k c2 vl c3 v c4 m c5 where
    "read_usize c = Inr (kl, c1)" and k: "compact_read_bytes kl c1 = Inr (k, c2)" and
    "read_usize c2 = Inr (vl, c3)" and v: "compact_read_bytes vl c3 = Inr (v, c4)" and
    "read_compact_child_count leaf c4 = Inr (m, c5)" "fits32 (position c1) (length k) (position c3) (length v)"
    "shared_plain_loop n leaf (es @ [mk_meta (position c1) (length k) (position c3) (length v) m]) c5 = Inr (es', c')"
    by (auto simp: raw_row_def raw_plain_key_def cbind_Inr_iff cposition_Inr plain_fits_def plain_meta_def)
  with compact_read_bytes_len [OF k] compact_read_bytes_len [OF v]
  show "shared_plain_loop (Suc n) leaf es c = Inr (es', c')"
    by (auto simp: cbind_Inr_iff cposition_Inr clift_Inr entry_meta_iff simp del: shared_plain_loop.simps(1))
qed

lemma shared_plain_iff:
  "shared_plain_loop n leaf es c = Inr (es', c') \<longleftrightarrow>
     (\<exists>rows. raw_rows raw_plain_key leaf n p c = Inr (rows, c') \<and> (\<forall>row \<in> set rows. plain_fits row) \<and>
        es' = es @ map plain_meta rows)"
proof (induction n arbitrary: es c p)
  case (Suc n)
  have "shared_plain_loop (Suc n) leaf es c = Inr (es', c') \<longleftrightarrow>
      (\<exists>row c1. raw_row raw_plain_key leaf p c = Inr (row, c1) \<and> plain_fits row \<and>
        (\<exists>rows. raw_rows raw_plain_key leaf n (row_key row) c1 = Inr (rows, c') \<and> (\<forall>row \<in> set rows. plain_fits row) \<and>
        es' = (es @ [plain_meta row]) @ map plain_meta rows))"
    unfolding shared_plain_step [where p = p] Suc.IH [symmetric] ..
  also have "\<dots> \<longleftrightarrow> (\<exists>rows. raw_rows raw_plain_key leaf (Suc n) p c = Inr (rows, c') \<and> (\<forall>row \<in> set rows. plain_fits row) \<and>
        es' = es @ map plain_meta rows)"
    by (auto simp: cbind_Inr_iff; metis append_Cons append_Nil append_assoc list.set_intros set_ConsD)
  finally show ?case .
qed auto

fun prefix_metas :: "nat \<Rightarrow> row list \<Rightarrow> read_entry_meta list" where
  "prefix_metas start [] = []"
| "prefix_metas start ((ks, k, vs, v, m) # rows) =
     mk_meta start (length k) vs (length v) m # prefix_metas (start + length k) rows"

fun prefix_fits :: "nat \<Rightarrow> row list \<Rightarrow> bool" where
  "prefix_fits start [] = True"
| "prefix_fits start ((ks, k, vs, v, m) # rows) \<longleftrightarrow>
     fits32 start (length k) vs (length v) \<and> prefix_fits (start + length k) rows"

lemma shared_prefix_step:
  assumes "take previous_len (drop previous_start arena) = previous" "length previous = previous_len"
  shows "shared_prefix_loop (Suc n) leaf arena previous_start previous_len es c = Inr (r, c') \<longleftrightarrow>
     (\<exists>ks k vs v m c1. raw_row raw_prefix_key leaf previous c = Inr ((ks, k, vs, v, m), c1) \<and>
        fits32 (length arena) (length k) vs (length v) \<and>
        shared_prefix_loop n leaf (arena @ k) (length arena) (length k)
          (es @ [mk_meta (length arena) (length k) vs (length v) m]) c1 = Inr (r, c'))" (is "?L \<longleftrightarrow> ?R")
proof
  assume ?L
  then obtain sh c1 sl c2 suffix c3 vl c4 v c5 m c6 where
    a: "read_usize c = Inr (sh, c1)" and sh: "\<not> previous_len < sh" and b: "read_usize c1 = Inr (sl, c2)"
    and suffix: "compact_read_bytes sl c2 = Inr (suffix, c3)" and d: "read_usize c3 = Inr (vl, c4)"
    and v: "compact_read_bytes vl c4 = Inr (v, c5)" and e: "read_compact_child_count leaf c5 = Inr (m, c6)"
    and f: "fits32 (length arena) (sh + sl) (position c4) vl"
    and l: "shared_prefix_loop n leaf (arena @ take sh (drop previous_start arena) @ suffix) (length arena) (sh + sl)
      (es @ [mk_meta (length arena) (sh + sl) (position c4) vl m]) c6 = Inr (r, c')"
    by (auto simp: cbind_Inr_iff cbind_if_fail Let_def cposition_Inr clift_Inr entry_meta_iff)
  let ?k = "take sh previous @ suffix"
  have "length ?k = sh + sl" "vl = length v" "take sh (drop previous_start arena) = take sh previous"
    using compact_read_bytes_len [OF suffix] compact_read_bytes_len [OF v] sh assms by auto
  moreover have "raw_row raw_prefix_key leaf previous c = Inr ((0, ?k, position c4, v, m), c6)"
    using a sh b suffix d v e assms(2)
    by (auto simp: raw_row_def raw_prefix_key_def cbind_Inr_iff cbind_if_fail cposition_Inr)
  ultimately show ?R using f l by (metis append_assoc)
next
  assume ?R
  then obtain k sh c1 sl c2 suffix c3 vl c4 v c5 m c6 where
    a: "read_usize c = Inr (sh, c1)" and sh: "\<not> length previous < sh" and b: "read_usize c1 = Inr (sl, c2)"
    and suffix: "compact_read_bytes sl c2 = Inr (suffix, c3)" and d: "read_usize c3 = Inr (vl, c4)"
    and v: "compact_read_bytes vl c4 = Inr (v, c5)" and e: "read_compact_child_count leaf c5 = Inr (m, c6)"
    and k: "k = take sh previous @ suffix"
    and f: "fits32 (length arena) (length k) (position c4) (length v)"
    and l: "shared_prefix_loop n leaf (arena @ k) (length arena) (length k)
      (es @ [mk_meta (length arena) (length k) (position c4) (length v) m]) c6 = Inr (r, c')"
    by (auto simp: raw_row_def raw_prefix_key_def cbind_Inr_iff cbind_if_fail cposition_Inr)
  have "length k = sh + sl" "vl = length v" "take sh (drop previous_start arena) = take sh previous"
    using compact_read_bytes_len [OF suffix] compact_read_bytes_len [OF v] sh assms by (auto simp: k)
  moreover from this f have "\<not> 2 ^ 64 \<le> sh + sl" by (simp add: fits32_def)
  ultimately show ?L using a sh b suffix d v e f l assms(2) k
    by (auto simp: cbind_Inr_iff cbind_if_fail Let_def cposition_Inr clift_Inr entry_meta_iff)
qed

lemma shared_prefix_iff:
  assumes "take previous_len (drop previous_start arena) = previous" "length previous = previous_len"
  shows "shared_prefix_loop n leaf arena previous_start previous_len es c = Inr ((arena', es'), c') \<longleftrightarrow>
     (\<exists>rows. raw_rows raw_prefix_key leaf n previous c = Inr (rows, c') \<and> prefix_fits (length arena) rows \<and>
        arena' = arena @ concat (map row_key rows) \<and> es' = es @ prefix_metas (length arena) rows)"
  using assms
proof (induction n arbitrary: arena previous_start previous_len es c previous)
  case (Suc n)
  have IH: "shared_prefix_loop n leaf (arena @ k) (length arena) (length k) es1 c1 = Inr ((arena', es'), c') \<longleftrightarrow>
      (\<exists>rows. raw_rows raw_prefix_key leaf n k c1 = Inr (rows, c') \<and> prefix_fits (length (arena @ k)) rows \<and>
        arena' = (arena @ k) @ concat (map row_key rows) \<and> es' = es1 @ prefix_metas (length (arena @ k)) rows)" for k es1 c1
    by (rule Suc.IH) auto
  show ?case
    unfolding shared_prefix_step [OF Suc.prems] IH raw_rows.simps cbind_Inr_iff creturn_Inr
    by (auto simp: row_key_def)
qed auto

text \<open>The offset table: slots, and the rows they cut from the payload.\<close>

fun slot_ok :: "bytes \<Rightarrow> slot \<Rightarrow> bool" where
  "slot_ok payload (ko, kl, vo, vl) \<longleftrightarrow>
     ko + kl < 2 ^ 64 \<and> vo + vl < 2 ^ 64 \<and> ko + kl \<le> length payload \<and> vo + vl \<le> length payload"

fun slot_row :: "bytes \<Rightarrow> nat \<Rightarrow> slot \<times> u64 \<Rightarrow> row" where
  "slot_row payload start ((ko, kl, vo, vl), m) =
     (start + ko, take kl (drop ko payload), start + vo, take vl (drop vo payload), m)"

lemma slice_payload_iff:
  "slice_payload payload o1 len = Inr b \<longleftrightarrow>
     o1 + len < 2 ^ 64 \<and> o1 + len \<le> length payload \<and> b = take len (drop o1 payload)"
  by (auto simp: slice_payload_def)

definition slot_reads :: "bool \<Rightarrow> cursor \<Rightarrow> slot \<Rightarrow> u64 \<Rightarrow> cursor \<Rightarrow> bool" where
  "slot_reads leaf c slot m c' \<longleftrightarrow>
     (\<exists>ko kl vo vl c1 c2 c3 c4. slot = (ko, kl, vo, vl) \<and> read_usize c = Inr (ko, c1) \<and> read_usize c1 = Inr (kl, c2) \<and>
        read_usize c2 = Inr (vo, c3) \<and> read_usize c3 = Inr (vl, c4) \<and> read_compact_child_count leaf c4 = Inr (m, c'))"

lemma read_offsets_step:
  "read_offsets (Suc n) leaf slots counts c = Inr (r, c') \<longleftrightarrow>
     (\<exists>slot m c1. slot_reads leaf c slot m c1 \<and>
        read_offsets n leaf (slots @ [slot]) (counts @ (if leaf then [] else [m])) c1 = Inr (r, c'))"
  unfolding read_offsets.simps cbind_Inr_iff push_count_iff slot_reads_def by blast

lemma shared_offsets_step:
  "shared_offsets_loop (Suc n) leaf offs c = Inr (r, c') \<longleftrightarrow>
     (\<exists>slot m c1. slot_reads leaf c slot m c1 \<and> shared_offsets_loop n leaf (offs @ [(slot, m)]) c1 = Inr (r, c'))"
  unfolding shared_offsets_loop.simps cbind_Inr_iff slot_reads_def by blast

lemma offsets_iff:
  "read_offsets n leaf (map fst offs) (if leaf then [] else map snd offs) c = Inr ((slots, counts), c') \<longleftrightarrow>
     (\<exists>offs'. shared_offsets_loop n leaf offs c = Inr (offs', c') \<and> slots = map fst offs' \<and>
        counts = (if leaf then [] else map snd offs'))"
proof (induction n arbitrary: offs c)
  case (Suc n)
  have IH: "read_offsets n leaf (map fst offs @ [slot]) ((if leaf then [] else map snd offs) @ (if leaf then [] else [m])) c1
        = Inr ((slots, counts), c') \<longleftrightarrow>
      (\<exists>offs'. shared_offsets_loop n leaf (offs @ [(slot, m)]) c1 = Inr (offs', c') \<and> slots = map fst offs' \<and>
        counts = (if leaf then [] else map snd offs'))" for slot m c1
    using Suc.IH [of "offs @ [(slot, m)]" c1] by (cases leaf) auto
  show ?case
    unfolding read_offsets_step shared_offsets_step IH by blast
qed auto

lemma offsets_Nil_iff:
  "read_offsets n leaf [] [] c = Inr ((slots, counts), c') \<longleftrightarrow>
     (\<exists>offs. shared_offsets_loop n leaf [] c = Inr (offs, c') \<and> slots = map fst offs \<and>
        counts = (if leaf then [] else map snd offs))"
  using offsets_iff [of n leaf "[]" c slots counts c'] by (cases leaf) simp_all

lemma shared_slots_iff:
  "shared_slots payload start offs es = Inr es' \<longleftrightarrow>
     (\<forall>o1 \<in> set offs. slot_ok payload (fst o1) \<and> plain_fits (slot_row payload start o1)) \<and>
     es' = es @ map (\<lambda>o1. plain_meta (slot_row payload start o1)) offs"
proof (induction payload start offs es rule: shared_slots.induct)
  case (2 payload start ko kl vo vl m offs es)
  show ?case
  proof (cases "slot_ok payload (ko, kl, vo, vl) \<and> plain_fits (slot_row payload start ((ko, kl, vo, vl), m))")
    case True
    then have "min (length payload - ko) kl = kl" "min (length payload - vo) vl = vl" by auto
    with True have "entry_meta (start + ko) kl (start + vo) vl m = Inr (plain_meta (slot_row payload start ((ko, kl, vo, vl), m)))"
      by (simp add: entry_meta_iff plain_fits_def plain_meta_def)
    moreover have "slice_payload payload ko kl = Inr (take kl (drop ko payload))"
      "slice_payload payload vo vl = Inr (take vl (drop vo payload))"
      using True by (auto simp: slice_payload_iff)
    moreover have "\<not> 2 ^ 64 \<le> start + ko" "\<not> 2 ^ 64 \<le> start + vo" using True by (auto simp: plain_fits_def fits32_def)
    ultimately show ?thesis using 2 True by auto
  next
    case False
    moreover have "min (length payload - ko) kl = kl" "min (length payload - vo) vl = vl"
      if "slot_ok payload (ko, kl, vo, vl)" using that by auto
    ultimately show ?thesis
      by (auto simp: and_then_Inr_iff slice_payload_iff entry_meta_iff plain_fits_def split: if_splits)
  qed
qed auto

lemma slice_rows_iff:
  "sorted_wrt (<) keys \<Longrightarrow> slice_rows payload (map fst offs) keys vals = Inr (keys', vals') \<longleftrightarrow>
     (\<forall>o1 \<in> set offs. slot_ok payload (fst o1)) \<and>
     sorted_wrt (<) (keys @ map (\<lambda>o1. row_key (slot_row payload start o1)) offs) \<and>
     keys' = keys @ map (\<lambda>o1. row_key (slot_row payload start o1)) offs \<and>
     vals' = vals @ map (\<lambda>o1. row_val (slot_row payload start o1)) offs"
proof (induction offs arbitrary: keys vals)
  case (Cons o1 offs)
  obtain ko kl vo vl m where o1: "o1 = ((ko, kl, vo, vl), m)" by (metis prod.exhaust)
  let ?k = "take kl (drop ko payload)" and ?v = "take vl (drop vo payload)"
  have IH: "slice_rows payload (map fst offs) (keys @ [?k]) (vals @ [?v]) = Inr (keys', vals') \<longleftrightarrow>
     (\<forall>o1 \<in> set offs. slot_ok payload (fst o1)) \<and>
     sorted_wrt (<) ((keys @ [?k]) @ map (\<lambda>o1. row_key (slot_row payload start o1)) offs) \<and>
     keys' = (keys @ [?k]) @ map (\<lambda>o1. row_key (slot_row payload start o1)) offs \<and>
     vals' = (vals @ [?v]) @ map (\<lambda>o1. row_val (slot_row payload start o1)) offs" if "\<not> out_of_order keys ?k"
    using that Cons.prems by (intro Cons.IH sorted_wrt_snoc_order)
  have "slice_rows payload (map fst (o1 # offs)) keys vals = Inr (keys', vals') \<longleftrightarrow>
      slot_ok payload (fst o1) \<and> \<not> out_of_order keys ?k \<and>
      slice_rows payload (map fst offs) (keys @ [?k]) (vals @ [?v]) = Inr (keys', vals')"
    by (auto simp: o1 and_then_Inr_iff slice_payload_iff split: if_splits)
  also have "\<dots> \<longleftrightarrow> slot_ok payload (fst o1) \<and> (\<forall>o1 \<in> set offs. slot_ok payload (fst o1)) \<and>
     sorted_wrt (<) (keys @ ?k # map (\<lambda>o1. row_key (slot_row payload start o1)) offs) \<and>
     keys' = keys @ ?k # map (\<lambda>o1. row_key (slot_row payload start o1)) offs \<and>
     vals' = vals @ ?v # map (\<lambda>o1. row_val (slot_row payload start o1)) offs"
    using IH sorted_wrt_append_order [OF Cons.prems, of ?k] by auto
  finally show ?case by (simp add: o1 row_defs)
qed auto

section \<open>All layouts\<close>

definition table_rows :: "bool \<Rightarrow> nat \<Rightarrow> (error, row list) reader" where
  "table_rows leaf n =
     cbind (shared_offsets_loop n leaf []) (\<lambda>offs.
     cbind read_usize (\<lambda>payload_len.
     cbind cposition (\<lambda>start.
     cbind (compact_read_bytes payload_len) (\<lambda>payload.
     if \<not> (\<forall>o1 \<in> set offs. slot_ok payload (fst o1)) then cfail InvalidNode
     else creturn (map (slot_row payload start) offs)))))"

definition layout_rows :: "node_layout_spec \<Rightarrow> nat \<Rightarrow> bool \<Rightarrow> (error, row list) reader" where
  "layout_rows layout n leaf =
     (case layout of
        PrefixCompressed \<Rightarrow> raw_rows raw_prefix_key leaf n []
      | Plain \<Rightarrow> raw_rows raw_plain_key leaf n []
      | OffsetTable \<Rightarrow> table_rows leaf n
      | CustomLayout ident parameters \<Rightarrow> cfail InvalidNode)"

definition owned_fits :: "node_layout_spec \<Rightarrow> nat \<Rightarrow> row list \<Rightarrow> bool" where
  "owned_fits layout n rows \<longleftrightarrow>
     (layout = PrefixCompressed \<longrightarrow> (\<forall>row \<in> set rows. length (row_key row) < 2 ^ 63)) \<and>
     (layout = OffsetTable \<longrightarrow> 32 * n < 2 ^ 63)"

definition shared_fits :: "node_layout_spec \<Rightarrow> nat \<Rightarrow> row list \<Rightarrow> bool" where
  "shared_fits layout n rows \<longleftrightarrow>
     (if layout = PrefixCompressed then prefix_fits 0 rows else \<forall>row \<in> set rows. plain_fits row) \<and>
     (layout = OffsetTable \<longrightarrow> 40 * n < 2 ^ 63)"

definition packed :: "node_layout_spec \<Rightarrow> row list \<Rightarrow> bytes option \<times> read_entry_meta list" where
  "packed layout rows =
     (if layout = PrefixCompressed then (Some (concat (map row_key rows)), prefix_metas 0 rows)
      else (None, map plain_meta rows))"

lemma with_capacity_iff: "with_capacity e n c = Inr (u, c') \<longleftrightarrow> e * n < 2 ^ 63 \<and> c' = c"
  by (auto simp: with_capacity_def)

lemma row_count_slot: "row_count (slot_row payload start o1) = snd o1"
  by (cases "(payload, start, o1)" rule: slot_row.cases) (auto simp: row_defs)

lemma sorted_Nil: "sorted_wrt (<) ([] :: bytes list)"
  by simp

lemma read_offset_table_iff:
  "read_offset_table n leaf c = Inr (cols, c') \<longleftrightarrow>
     (\<exists>rows. table_rows leaf n c = Inr (rows, c') \<and> 32 * n < 2 ^ 63 \<and> sorted_wrt (<) (map row_key rows) \<and>
        cols = (map row_key rows, map row_val rows, if leaf then [] else map row_count rows))" (is "?L \<longleftrightarrow> ?R")
proof
  assume ?L
  then obtain slots counts c1 pl c2 payload keys vals where
    cap: "32 * n < 2 ^ 63" and "read_offsets n leaf [] [] c = Inr ((slots, counts), c1)"
    and pl: "read_usize c1 = Inr (pl, c2)" "compact_read_bytes pl c2 = Inr (payload, c')"
    and sl: "slice_rows payload slots [] [] = Inr (keys, vals)" and cols: "cols = (keys, vals, counts)"
    by (auto simp: read_offset_table_def cbind_Inr_iff with_capacity_iff clift_Inr)
  then obtain offs where offs: "shared_offsets_loop n leaf [] c = Inr (offs, c1)" "slots = map fst offs"
    "counts = (if leaf then [] else map snd offs)"
    by (auto simp: offsets_Nil_iff)
  let ?rows = "map (slot_row payload (position c2)) offs"
  note sr = sl [unfolded offs(2) slice_rows_iff [where start = "position c2", OF sorted_Nil]]
  have "table_rows leaf n c = Inr (?rows, c')"
    using offs(1) pl sr by (auto simp: table_rows_def cbind_Inr_iff cposition_Inr cbind_if_fail)
  moreover have "sorted_wrt (<) (map row_key ?rows)"
    "cols = (map row_key ?rows, map row_val ?rows, if leaf then [] else map row_count ?rows)"
    using sr cols offs(3) by (auto simp: o_def row_count_slot)
  ultimately show ?R using cap by blast
next
  assume ?R
  then obtain offs c1 pl c2 payload where cap: "32 * n < 2 ^ 63"
    and offs: "shared_offsets_loop n leaf [] c = Inr (offs, c1)"
    and pl: "read_usize c1 = Inr (pl, c2)" "compact_read_bytes pl c2 = Inr (payload, c')"
    and ok: "\<forall>o1 \<in> set offs. slot_ok payload (fst o1)"
    and srt: "sorted_wrt (<) (map row_key (map (slot_row payload (position c2)) offs))"
    and cols: "cols = (map row_key (map (slot_row payload (position c2)) offs),
       map row_val (map (slot_row payload (position c2)) offs),
       if leaf then [] else map row_count (map (slot_row payload (position c2)) offs))"
    by (auto simp: table_rows_def cbind_Inr_iff cposition_Inr cbind_if_fail)
  have "slice_rows payload (map fst offs) [] [] = Inr (fst cols, fst (snd cols))"
    unfolding slice_rows_iff [where start = "position c2", OF sorted_Nil]
    using ok srt cols by (simp add: o_def)
  moreover have "read_offsets n leaf [] [] c = Inr ((map fst offs, snd (snd cols)), c1)"
    using offs cols by (auto simp: offsets_Nil_iff o_def row_count_slot)
  ultimately show ?L using cap pl cols
    by (simp add: read_offset_table_def cbind_def with_capacity_def clift_def creturn_def)
qed

lemma shared_offset_table_iff:
  "shared_offset_table n leaf c = Inr (es, c') \<longleftrightarrow>
     (\<exists>rows. table_rows leaf n c = Inr (rows, c') \<and> 40 * n < 2 ^ 63 \<and> (\<forall>row \<in> set rows. plain_fits row) \<and>
        es = map plain_meta rows)" (is "?L \<longleftrightarrow> ?R")
proof
  assume ?L
  then obtain offs c1 pl c2 payload where cap: "40 * n < 2 ^ 63"
    and a: "shared_offsets_loop n leaf [] c = Inr (offs, c1)" "read_usize c1 = Inr (pl, c2)"
    "compact_read_bytes pl c2 = Inr (payload, c')" and sl: "shared_slots payload (position c2) offs [] = Inr es"
    by (auto simp: shared_offset_table_def cbind_Inr_iff with_capacity_iff clift_Inr cposition_Inr)
  from sl have ok: "\<forall>o1 \<in> set offs. slot_ok payload (fst o1)"
    and r: "\<forall>o1 \<in> set offs. plain_fits (slot_row payload (position c2) o1)"
    "es = map plain_meta (map (slot_row payload (position c2)) offs)"
    by (auto simp: shared_slots_iff)
  from a ok have "table_rows leaf n c = Inr (map (slot_row payload (position c2)) offs, c')"
    by (simp add: table_rows_def cbind_def cposition_def creturn_def)
  then show ?R using cap r by auto
next
  assume ?R
  then obtain offs c1 pl c2 payload where cap: "40 * n < 2 ^ 63"
    and a: "shared_offsets_loop n leaf [] c = Inr (offs, c1)" "read_usize c1 = Inr (pl, c2)"
    "compact_read_bytes pl c2 = Inr (payload, c')" and ok: "\<forall>o1 \<in> set offs. slot_ok payload (fst o1)"
    and r: "\<forall>o1 \<in> set offs. plain_fits (slot_row payload (position c2) o1)"
    "es = map plain_meta (map (slot_row payload (position c2)) offs)"
    by (auto simp: table_rows_def cbind_Inr_iff cposition_Inr cbind_if_fail)
  then have "shared_slots payload (position c2) offs [] = Inr es" by (simp add: shared_slots_iff)
  with cap a show ?L
    by (simp add: shared_offset_table_def cbind_def with_capacity_def clift_def creturn_def cposition_def)
qed

lemma read_columns_iff:
  "read_columns layout n leaf c = Inr (cols, c') \<longleftrightarrow>
     (\<exists>rows. layout_rows layout n leaf c = Inr (rows, c') \<and> owned_fits layout n rows \<and>
        sorted_wrt (<) (map row_key rows) \<and>
        cols = (map row_key rows, map row_val rows, if leaf then [] else map row_count rows))"
  using read_rows_iff [where rd = read_prefix_key and rk = raw_prefix_key and ok = "\<lambda>k. length k < 2 ^ 63", OF read_prefix_key_iff,
      of "[]" n leaf "[]" "[]" c cols c']
    read_rows_iff [where rd = read_plain_key and rk = raw_plain_key and ok = "\<lambda>k. True", OF read_plain_key_iff,
      of "[]" n leaf "[]" "[]" c cols c']
  by (cases layout)
    (auto simp: read_columns_def layout_rows_def owned_fits_def read_offset_table_iff previous_key_def)

lemma shared_entries_iff:
  "shared_entries layout n leaf c = Inr (r, c') \<longleftrightarrow>
     (\<exists>rows. layout_rows layout n leaf c = Inr (rows, c') \<and> shared_fits layout n rows \<and> r = packed layout rows)"
  using shared_plain_iff [of n leaf "[]" c _ c' "[]"]
  by (cases layout)
    (auto simp: shared_entries_def layout_rows_def shared_fits_def packed_def cbind_Inr_iff
      shared_prefix_iff [of 0 0 "[]" "[]"] shared_offset_table_iff)

text \<open>Rows read inside \<open>bs\<close> are slices of \<open>bs\<close>, or of the arena.\<close>

lemma raw_plain_key_inside:
  assumes "raw_plain_key p c = Inr ((ks, k), c')" "inside bs c"
  shows "ks + length k \<le> length bs \<and> take (length k) (drop ks bs) = k"
proof -
  from assms(1) obtain kl c1 where l: "read_usize c = Inr (kl, c1)" and ks: "ks = position c1"
    and k: "compact_read_bytes kl c1 = Inr (k, c')"
    by (auto simp: raw_plain_key_def cbind_Inr_iff cposition_Inr)
  have "inside bs c1" using forwardD [OF forward_read_usize l assms(2)] by simp
  from read_bytes_slice [OF k this] ks show ?thesis by auto
qed

definition row_inside :: "bytes \<Rightarrow> row \<Rightarrow> bool" where
  "row_inside bs = (\<lambda>(ks, k, vs, v, m). ks + length k \<le> length bs \<and> take (length k) (drop ks bs) = k)"

definition val_inside :: "bytes \<Rightarrow> row \<Rightarrow> bool" where
  "val_inside bs = (\<lambda>(ks, k, vs, v, m). vs + length v \<le> length bs \<and> take (length v) (drop vs bs) = v)"

lemma raw_plain_rows_inside:
  assumes "raw_rows raw_plain_key leaf n p c = Inr (rows, c')" "inside bs c"
  shows "\<forall>row \<in> set rows. row_inside bs row"
  using assms
proof (induction n arbitrary: p c rows)
  case (Suc n)
  from Suc.prems(1) obtain row c1 rows' where row: "raw_row raw_plain_key leaf p c = Inr (row, c1)"
    and rows: "raw_rows raw_plain_key leaf n (row_key row) c1 = Inr (rows', c')" "rows = row # rows'"
    by (auto simp: cbind_Inr_iff)
  obtain ks k vs v m where r: "row = (ks, k, vs, v, m)" by (cases row)
  note i = raw_row_inside [OF row [unfolded r] Suc.prems(2) forward_raw_key(2)]
  show ?case using i Suc.IH [OF rows(1)] rows(2) raw_plain_key_inside [OF _ Suc.prems(2)] r
    by (auto simp: row_inside_def)
qed auto

lemma slot_reads_inside:
  assumes "slot_reads leaf c slot m c'" "inside bs c"
  shows "inside bs c' \<and> position c < position c'"
  using assms unfolding slot_reads_def
  by (meson forwardD [OF forward_read_usize] forwardD [OF forward_child_count] read_usize_advances le_less_trans less_le_trans)

lemma shared_offsets_inside:
  assumes "shared_offsets_loop n leaf offs c = Inr (offs', c')" "inside bs c"
  shows "inside bs c' \<and> position c + n \<le> position c' \<and> length offs' = length offs + n"
  using assms
proof (induction n arbitrary: offs c)
  case (Suc n)
  from Suc.prems(1) obtain slot m c1 where s: "slot_reads leaf c slot m c1"
    and l: "shared_offsets_loop n leaf (offs @ [(slot, m)]) c1 = Inr (offs', c')"
    unfolding shared_offsets_step by blast
  from slot_reads_inside [OF s Suc.prems(2)] Suc.IH [OF l] show ?case by auto
qed auto

lemma take_drop_slice:
  "ko + kl \<le> length (take pl (drop start bs)) \<Longrightarrow>
     take kl (drop (start + ko) bs) = take kl (drop ko (take pl (drop start bs)))"
  by (auto simp: drop_take add.commute)

lemma table_rows_inside:
  assumes "table_rows leaf n c = Inr (rows, c')" "inside bs c"
  shows "(\<forall>row \<in> set rows. row_inside bs row \<and> val_inside bs row) \<and> inside bs c' \<and> position c + n \<le> position c' \<and>
    length rows = n"
proof -
  from assms(1) obtain offs c1 pl c2 payload where
    o: "shared_offsets_loop n leaf [] c = Inr (offs, c1)" and l: "read_usize c1 = Inr (pl, c2)"
    and p: "compact_read_bytes pl c2 = Inr (payload, c')" and ok: "\<forall>o1 \<in> set offs. slot_ok payload (fst o1)"
    and rows: "rows = map (slot_row payload (position c2)) offs"
    by (auto simp: table_rows_def cbind_Inr_iff cposition_Inr cbind_if_fail)
  note c1 = shared_offsets_inside [OF o assms(2)]
  note c2 = forwardD [OF forward_read_usize l conjunct1 [OF c1]]
  note sl = read_bytes_slice [OF p conjunct1 [OF c2]]
  have "row_inside bs (slot_row payload (position c2) o1) \<and> val_inside bs (slot_row payload (position c2) o1)"
    if "o1 \<in> set offs" for o1
  proof -
    obtain ko kl vo vl m where o1: "o1 = ((ko, kl, vo, vl), m)" by (metis prod.exhaust)
    have b: "ko + kl \<le> length payload" "vo + vl \<le> length payload" using ok that o1 by auto
    have "length (take kl (drop ko payload)) = kl" "length (take vl (drop vo payload)) = vl" using b by auto
    moreover have "take kl (drop (position c2 + ko) bs) = take kl (drop ko payload)"
      "take vl (drop (position c2 + vo) bs) = take vl (drop vo payload)"
      using sl b take_drop_slice [of ko kl pl "position c2" bs] take_drop_slice [of vo vl pl "position c2" bs] by auto
    ultimately show ?thesis using sl b by (simp add: o1 row_inside_def val_inside_def del: length_take)
  qed
  then show ?thesis using c1 c2 sl rows by auto
qed

section \<open>The packed node of a list of rows\<close>

lemma forward_header: "forward read_header"
proof -
  have magic: "forward expect_magic" by (auto simp: forward_def expect_magic_def inside_def add.commute split: if_splits)
  have fmt: "forward read_format" unfolding read_format_def by (intro forward_intros)
  have u8: "forward read_u8_varint" unfolding read_u8_varint_def by (intro forward_intros)
  show ?thesis unfolding read_header_def by (intro forward_intros magic fmt u8)
qed

lemma layout_rows_inside:
  assumes "layout_rows layout n leaf c = Inr (rows, c')" "inside bs c"
  shows "(\<forall>row \<in> set rows. val_inside bs row \<and> (layout \<noteq> PrefixCompressed \<longrightarrow> row_inside bs row)) \<and>
    inside bs c' \<and> position c + n \<le> position c' \<and> length rows = n"
proof -
  note prefix_rows = raw_rows_inside [where rk = raw_prefix_key, OF _ assms(2) forward_raw_key(1)]
  note plain_rows = raw_rows_inside [where rk = raw_plain_key, OF _ assms(2) forward_raw_key(2)]
  show ?thesis
  proof (cases layout)
    case PrefixCompressed
    with assms(1) show ?thesis using prefix_rows by (fastforce simp: layout_rows_def val_inside_def)
  next
    case Plain
    then have "raw_rows raw_plain_key leaf n [] c = Inr (rows, c')" using assms(1) by (simp add: layout_rows_def)
    from plain_rows [OF this] raw_plain_rows_inside [OF this assms(2)] show ?thesis
      by (fastforce simp: val_inside_def)
  next
    case OffsetTable
    with assms show ?thesis using table_rows_inside by (fastforce simp: layout_rows_def)
  qed (use assms in \<open>simp add: layout_rows_def\<close>)
qed

text \<open>\<open>describes src bs row e\<close>: the ranges of \<open>e\<close> hold the key (in \<open>src\<close>), the value (in \<open>bs\<close>) and the count of \<open>row\<close>.\<close>

definition describes :: "bytes \<Rightarrow> bytes \<Rightarrow> row \<Rightarrow> read_entry_meta \<Rightarrow> bool" where
  "describes src bs row e \<longleftrightarrow>
     read_slice src (rm_key_start e) (rm_key_len e) = Some (row_key row) \<and>
     read_slice bs (rm_value_start e) (rm_value_len e) = Some (row_val row) \<and>
     rm_child_count e = row_count row \<and> rm_key_order e = 0"

lemma unat_of_nat_u32: "n < 2 ^ 32 \<Longrightarrow> unat (of_nat n :: u32) = n"
  by (simp add: unsigned_of_nat take_bit_nat_eq_self)

lemma read_slice_of_nat:
  "a < 2 ^ 32 \<Longrightarrow> l < 2 ^ 32 \<Longrightarrow> a + l \<le> length src \<Longrightarrow>
     read_slice src (of_nat a) (of_nat l) = Some (take l (drop a src))"
  by (simp add: read_slice_def unat_of_nat_u32)

lemma describes_mk_meta:
  assumes "fits32 a (length k) vs (length v)" "a + length k \<le> length src" "take (length k) (drop a src) = k"
    "val_inside bs (ks, k, vs, v, m)"
  shows "describes src bs (ks, k, vs, v, m) (mk_meta a (length k) vs (length v) m)"
  using assms by (auto simp: describes_def mk_meta_def fits32_def row_defs val_inside_def read_slice_of_nat)

lemma describes_plain:
  assumes "\<forall>row \<in> set rows. val_inside bs row \<and> row_inside bs row" "\<forall>row \<in> set rows. plain_fits row"
  shows "list_all2 (describes bs bs) rows (map plain_meta rows)"
  using assms
proof (induction rows)
  case (Cons row rows)
  obtain ks k vs v m where "row = (ks, k, vs, v, m)" by (cases row)
  with Cons show ?case
    by (auto simp: plain_meta_def plain_fits_def row_inside_def intro!: describes_mk_meta)
qed simp

lemma describes_prefix:
  assumes "\<forall>row \<in> set rows. val_inside bs row" "prefix_fits (length pre) rows"
  shows "list_all2 (describes (pre @ concat (map row_key rows)) bs) rows (prefix_metas (length pre) rows)"
  using assms
proof (induction rows arbitrary: pre)
  case (Cons row rows)
  obtain ks k vs v m where r: "row = (ks, k, vs, v, m)" by (cases row)
  have "list_all2 (describes ((pre @ k) @ concat (map row_key rows)) bs) rows (prefix_metas (length (pre @ k)) rows)"
    using Cons.prems r by (intro Cons.IH) auto
  moreover have "describes (pre @ k @ concat (map row_key rows)) bs (ks, k, vs, v, m)
      (mk_meta (length pre) (length k) vs (length v) m)"
    using Cons.prems r by (intro describes_mk_meta) auto
  ultimately show ?case by (simp add: r row_key_def)
qed simp

lemma describes_packed:
  assumes "\<forall>row \<in> set rows. val_inside bs row \<and> (layout \<noteq> PrefixCompressed \<longrightarrow> row_inside bs row)"
    "shared_fits layout n rows" "packed layout rows = (pk, es)"
  shows "list_all2 (describes (case pk of None \<Rightarrow> bs | Some arena \<Rightarrow> arena) bs) rows es"
  using assms describes_plain [of rows bs] describes_prefix [of rows bs "[]"]
  by (auto simp: packed_def shared_fits_def split: if_splits)

definition ordered :: "nat \<Rightarrow> row list \<Rightarrow> read_entry_meta list \<Rightarrow> read_entry_meta list" where
  "ordered p rows es = map2 (\<lambda>row e. e\<lparr>rm_key_order := key_order_word (row_key row) p\<rparr>) rows es"

lemma order_entries_iff:
  "list_all2 (describes src bs) rows es \<Longrightarrow>
     order_entries src p prev es = Inr es' \<longleftrightarrow>
       sorted_wrt (<) ((case prev of None \<Rightarrow> [] | Some k \<Rightarrow> [k]) @ map row_key rows) \<and> es' = ordered p rows es"
proof (induction rows es arbitrary: prev es' rule: list_all2_induct)
  case (Cons row rows e es)
  have "read_slice src (rm_key_start e) (rm_key_len e) = Some (row_key row)" using Cons.hyps(1) by (simp add: describes_def)
  then show ?case
    using Cons.IH [of "Some (row_key row)"]
    by (auto simp: ordered_def and_then_Inr_iff not_le intro: less_trans split: option.splits)
qed (auto simp: ordered_def split: option.splits)

lemma common_prefix_packed:
  assumes "list_all2 (describes src bs) rows es"
  shows "shared_common_prefix src es = Inr (common_len (map row_key rows))"
proof (cases "rows = []")
  case True
  then show ?thesis using assms by (simp add: shared_common_prefix_def common_len_def)
next
  case False
  then have ne: "es \<noteq> []" using assms by auto
  have "describes src bs (hd rows) (hd es)" "describes src bs (last rows) (last es)"
    using assms False ne by (auto simp: hd_conv_nth last_conv_nth list_all2_conv_all_nth)
  then show ?thesis using False ne
    by (simp add: shared_common_prefix_def common_len_def describes_def hd_map last_map)
qed

section \<open>Agreement of the decoders\<close>

definition rows_node :: "tree_format \<Rightarrow> bool \<Rightarrow> u8 \<Rightarrow> row list \<Rightarrow> node" where
  "rows_node fmt leaf level rows =
     \<lparr>nd_keys = map row_key rows, nd_vals = map row_val rows,
      nd_child_counts = (if leaf then [] else map row_count rows), nd_leaf = leaf, nd_level = level, nd_format = fmt\<rparr>"

definition rows_read_node :: "bytes \<Rightarrow> tree_format \<Rightarrow> bool \<Rightarrow> u8 \<Rightarrow> row list \<Rightarrow> read_node" where
  "rows_read_node bs fmt leaf level rows =
     (let (pk, es) = packed (tf_node_layout fmt) rows; p = common_len (map row_key rows) in
      \<lparr>rn_bytes = bs, rn_prefix_keys = pk, rn_entries = ordered p rows es, rn_common_prefix_len = of_nat p,
       rn_leaf = leaf, rn_level = level, rn_format = fmt\<rparr>)"

text \<open>What both decoders find in \<open>bs\<close>: the header and the rows, to the end of the bytes.\<close>

definition node_rows :: "bytes \<Rightarrow> tree_format \<Rightarrow> bool \<Rightarrow> u8 \<Rightarrow> row list \<Rightarrow> bool" where
  "node_rows bs fmt leaf level rows \<longleftrightarrow>
     (\<exists>c1 c2. read_header (cursor_new bs) = Inr ((fmt, leaf, level, length rows), c1) \<and>
        layout_rows (tf_node_layout fmt) (length rows) leaf c1 = Inr (rows, c2) \<and> cursor_done c2 \<and>
        (leaf \<or> rows \<noteq> []) \<and> sorted_wrt (<) (map row_key rows))"

lemma header_rows_inside:
  assumes "read_header (cursor_new bs) = Inr ((fmt, leaf, level, n), c1)"
    "layout_rows (tf_node_layout fmt) n leaf c1 = Inr (rows, c2)"
  shows "(\<forall>row \<in> set rows. val_inside bs row \<and> (tf_node_layout fmt \<noteq> PrefixCompressed \<longrightarrow> row_inside bs row)) \<and>
    length rows = n \<and> n \<le> length bs"
proof -
  have "inside bs c1" using forwardD [OF forward_header assms(1) inside_new] by simp
  from layout_rows_inside [OF assms(2) this] show ?thesis by (auto simp: inside_def)
qed

lemma node_rows_inside:
  assumes "node_rows bs fmt leaf level rows" "shared_fits (tf_node_layout fmt) (length rows) rows"
    "packed (tf_node_layout fmt) rows = (pk, es)"
  shows "list_all2 (describes (case pk of None \<Rightarrow> bs | Some arena \<Rightarrow> arena) bs) rows es"
proof -
  from assms(1) obtain c1 c2 where "read_header (cursor_new bs) = Inr ((fmt, leaf, level, length rows), c1)"
    "layout_rows (tf_node_layout fmt) (length rows) leaf c1 = Inr (rows, c2)"
    by (auto simp: node_rows_def)
  then have "\<forall>row \<in> set rows. val_inside bs row \<and> (tf_node_layout fmt \<noteq> PrefixCompressed \<longrightarrow> row_inside bs row)"
    using header_rows_inside by blast
  then show ?thesis using assms(2,3) by (rule describes_packed)
qed

lemma from_compact_bytes_iff:
  "from_compact_bytes bs = Inr n \<longleftrightarrow>
     (\<exists>fmt leaf level rows. node_rows bs fmt leaf level rows \<and> 24 * length rows < 2 ^ 63 \<and>
        owned_fits (tf_node_layout fmt) (length rows) rows \<and> n = rows_node fmt leaf level rows)" (is "?L \<longleftrightarrow> ?R")
proof
  assume ?L
  then obtain fmt leaf level k c1 rows c2 where
    h: "read_header (cursor_new bs) = Inr ((fmt, leaf, level, k), c1)" and "leaf \<or> k \<noteq> 0" "24 * k < 2 ^ 63"
    and r: "layout_rows (tf_node_layout fmt) k leaf c1 = Inr (rows, c2)" and "cursor_done c2"
    "owned_fits (tf_node_layout fmt) k rows" "sorted_wrt (<) (map row_key rows)" "n = rows_node fmt leaf level rows"
    by (auto simp: from_compact_bytes_def read_compact_node_def and_then_Inr_iff cbind_Inr_iff with_capacity_iff
        read_columns_iff rows_node_def split: if_splits)
  with header_rows_inside [OF h r] show ?R
    unfolding node_rows_def by (intro exI [of _ fmt] exI [of _ leaf] exI [of _ level] exI [of _ rows]) auto
next
  assume ?R
  then obtain fmt leaf level rows c1 c2 where
    "read_header (cursor_new bs) = Inr ((fmt, leaf, level, length rows), c1)"
    "layout_rows (tf_node_layout fmt) (length rows) leaf c1 = Inr (rows, c2)" "cursor_done c2"
    "leaf \<or> rows \<noteq> []" "sorted_wrt (<) (map row_key rows)" "24 * length rows < 2 ^ 63"
    "owned_fits (tf_node_layout fmt) (length rows) rows" "n = rows_node fmt leaf level rows"
    by (auto simp: node_rows_def)
  moreover from this have "read_columns (tf_node_layout fmt) (length rows) leaf c1 =
      Inr ((map row_key rows, map row_val rows, if leaf then [] else map row_count rows), c2)"
    unfolding read_columns_iff by blast
  ultimately show ?L
    by (auto simp: from_compact_bytes_def read_compact_node_def cbind_def with_capacity_def creturn_def rows_node_def)
qed

lemma common_len_fits:
  assumes "shared_fits layout n rows"
  shows "common_len (map row_key rows) < 2 ^ 32"
proof (cases rows)
  case (Cons row rest)
  obtain ks k vs v m where r: "row = (ks, k, vs, v, m)" by (cases row)
  have "common_len (map row_key rows) \<le> length k"
    using Cons r common_prefix_len_le(1) by (simp add: common_len_def row_key_def)
  moreover have "length k < 2 ^ 32"
    using assms Cons r by (auto simp: shared_fits_def plain_fits_def fits32_def split: if_splits)
  ultimately show ?thesis by simp
qed (simp add: common_len_def)

lemma from_shared_iff:
  "from_shared bs = Inr r \<longleftrightarrow>
     (\<exists>fmt leaf level rows. node_rows bs fmt leaf level rows \<and> 32 * length rows < 2 ^ 63 \<and>
        shared_fits (tf_node_layout fmt) (length rows) rows \<and> r = rows_read_node bs fmt leaf level rows)" (is "?L \<longleftrightarrow> ?R")
proof
  assume ?L
  then obtain fmt leaf level k c1 pk es rows c2 p es' cpl where
    h: "read_header (cursor_new bs) = Inr ((fmt, leaf, level, k), c1)" and "32 * k < 2 ^ 63"
    and r: "layout_rows (tf_node_layout fmt) k leaf c1 = Inr (rows, c2)" and "cursor_done c2"
    and f: "shared_fits (tf_node_layout fmt) k rows" and pk': "(pk, es) = packed (tf_node_layout fmt) rows"
    and p: "shared_common_prefix (case pk of None \<Rightarrow> bs | Some arena \<Rightarrow> arena) es = Inr p" and e: "leaf \<or> es \<noteq> []"
    and o: "order_entries (case pk of None \<Rightarrow> bs | Some arena \<Rightarrow> arena) p None es = Inr es'"
    and "compact_u32 p = Inr cpl"
    and "r = \<lparr>rn_bytes = bs, rn_prefix_keys = pk, rn_entries = es',
           rn_common_prefix_len = cpl, rn_leaf = leaf, rn_level = level, rn_format = fmt\<rparr>"
    by (auto simp: from_shared_def and_then_Inr_iff cbind_Inr_iff with_capacity_iff shared_entries_iff Let_def
        split: if_splits)
  note pk = pk' [symmetric]
  note i = header_rows_inside [OF h r]
  have d: "list_all2 (describes (case pk of None \<Rightarrow> bs | Some arena \<Rightarrow> arena) bs) rows es"
    using i by (intro describes_packed [OF _ f pk]) blast
  have "p = common_len (map row_key rows)" using p common_prefix_packed [OF d] by simp
  moreover have "sorted_wrt (<) (map row_key rows)" "es' = ordered p rows es"
    using o order_entries_iff [OF d] by auto
  moreover have "leaf \<or> rows \<noteq> []" using e d by auto
  moreover have "cpl = of_nat p" using \<open>compact_u32 p = Inr cpl\<close> by (auto simp: compact_u32_def split: if_splits)
  ultimately have "node_rows bs fmt leaf level rows \<and> 32 * length rows < 2 ^ 63 \<and>
      shared_fits (tf_node_layout fmt) (length rows) rows \<and> r = rows_read_node bs fmt leaf level rows"
    using i h r f pk \<open>32 * k < 2 ^ 63\<close> \<open>cursor_done c2\<close> \<open>r = _\<close> by (auto simp: node_rows_def rows_read_node_def Let_def)
  then show ?R by blast
next
  assume ?R
  then obtain fmt leaf level rows c1 c2 where
    h: "read_header (cursor_new bs) = Inr ((fmt, leaf, level, length rows), c1)"
    and r: "layout_rows (tf_node_layout fmt) (length rows) leaf c1 = Inr (rows, c2)" and c2: "cursor_done c2"
    and ne: "leaf \<or> rows \<noteq> []" and s: "sorted_wrt (<) (map row_key rows)" and cap: "32 * length rows < 2 ^ 63"
    and f: "shared_fits (tf_node_layout fmt) (length rows) rows" and n: "r = rows_read_node bs fmt leaf level rows"
    by (auto simp: node_rows_def)
  obtain pk es where pk: "packed (tf_node_layout fmt) rows = (pk, es)" by fastforce
  have d: "list_all2 (describes (case pk of None \<Rightarrow> bs | Some arena \<Rightarrow> arena) bs) rows es"
    using header_rows_inside [OF h r] by (intro describes_packed [OF _ f pk]) blast
  have "shared_entries (tf_node_layout fmt) (length rows) leaf c1 = Inr ((pk, es), c2)"
    unfolding shared_entries_iff using r f pk by auto
  moreover have "order_entries (case pk of None \<Rightarrow> bs | Some arena \<Rightarrow> arena) (common_len (map row_key rows)) None es
      = Inr (ordered (common_len (map row_key rows)) rows es)"
    using order_entries_iff [OF d] s by simp
  moreover have "\<not> (\<not> leaf \<and> es = [])" using ne d by auto
  moreover have "compact_u32 (common_len (map row_key rows)) = Inr (of_nat (common_len (map row_key rows)))"
    using common_len_fits [OF f] by (simp add: compact_u32_def)
  ultimately show ?L
    using h cap c2 common_prefix_packed [OF d]
    by (simp add: from_shared_def cbind_def with_capacity_def creturn_def Let_def n rows_read_node_def pk)
qed

lemma shared_fits_owned: "shared_fits layout n rows \<Longrightarrow> owned_fits layout n rows"
proof -
  have "prefix_fits a rows \<Longrightarrow> row \<in> set rows \<Longrightarrow> length (row_key row) < 2 ^ 63" for a row
    by (induction a rows rule: prefix_fits.induct) (auto simp: fits32_def row_key_def)
  then show "shared_fits layout n rows \<Longrightarrow> owned_fits layout n rows"
    by (auto simp: shared_fits_def owned_fits_def)
qed

lemma collect_opt_map: "(\<And>i. i < length xs \<Longrightarrow> f i = Some (xs ! i)) \<Longrightarrow> collect_opt (map f [0..<length xs]) = Some xs"
proof (induction xs arbitrary: f)
  case (Cons x xs)
  have "map f [0..<length (x # xs)] = f 0 # map (\<lambda>i. f (Suc i)) [0..<length xs]"
    by (simp add: map_upt_Suc del: upt_Suc)
  moreover have "collect_opt (map (\<lambda>i. f (Suc i)) [0..<length xs]) = Some xs"
    using Cons.prems [of "Suc _"] by (intro Cons.IH) auto
  ultimately show ?case using Cons.prems [of 0] by simp
qed simp

text \<open>Reading entry \<open>i\<close> of the packed node gives row \<open>i\<close>.\<close>

lemma rows_read_node_entry:
  assumes "node_rows bs fmt leaf level rows" "shared_fits (tf_node_layout fmt) (length rows) rows" "i < length rows"
    "r = rows_read_node bs fmt leaf level rows"
  shows "read_key r i = Some (row_key (rows ! i)) \<and> read_value r i = Some (row_val (rows ! i)) \<and>
    i < length (rn_entries r) \<and> rm_child_count (rn_entries r ! i) = row_count (rows ! i) \<and>
    rm_key_order (rn_entries r ! i) = key_order_word (row_key (rows ! i)) (common_len (map row_key rows))"
proof -
  obtain pk es where pk: "packed (tf_node_layout fmt) rows = (pk, es)" by fastforce
  let ?src = "case pk of None \<Rightarrow> bs | Some arena \<Rightarrow> arena"
  have d: "list_all2 (describes ?src bs) rows es"
    using assms(1,2) pk by (rule node_rows_inside)
  then have "describes ?src bs (rows ! i) (es ! i)" "length es = length rows"
    using assms(3) by (auto simp: list_all2_conv_all_nth)
  then show ?thesis
    using assms(3,4)
    by (cases pk) (simp_all add: rows_read_node_def pk Let_def read_key_def read_value_def entry_get_def
        key_source_def ordered_def describes_def)
qed

lemma length_rows_read_node:
  assumes "node_rows bs fmt leaf level rows" "shared_fits (tf_node_layout fmt) (length rows) rows"
  shows "length (rn_entries (rows_read_node bs fmt leaf level rows)) = length rows"
proof -
  obtain pk es where pk: "packed (tf_node_layout fmt) rows = (pk, es)" by fastforce
  have "list_all2 (describes (case pk of None \<Rightarrow> bs | Some arena \<Rightarrow> arena) bs) rows es"
    using assms(1,2) pk by (rule node_rows_inside)
  then show ?thesis by (auto simp: rows_read_node_def pk Let_def ordered_def dest: list_all2_lengthD)
qed

lemma rows_read_node_owned:
  assumes "node_rows bs fmt leaf level rows" "shared_fits (tf_node_layout fmt) (length rows) rows"
    "r = rows_read_node bs fmt leaf level rows"
  shows "read_to_owned r = Some (rows_node fmt leaf level rows)"
proof -
  have len: "read_len r = length rows" using length_rows_read_node [OF assms(1,2)] assms(3) by (simp add: read_len_def)
  note e = rows_read_node_entry [OF assms(1,2) _ assms(3)]
  have "collect_opt (map (read_key r) [0..<length rows]) = Some (map row_key rows)"
    "collect_opt (map (read_value r) [0..<length rows]) = Some (map row_val rows)"
    using collect_opt_map [of "map row_key rows" "read_key r"] collect_opt_map [of "map row_val rows" "read_value r"] e
    by auto
  moreover have "map rm_child_count (rn_entries r) = map row_count rows"
    using e len by (auto simp: read_len_def intro: nth_equalityI)
  moreover have "rn_leaf r = leaf" "rn_level r = level" "rn_format r = fmt"
    using assms(3) by (auto simp: rows_read_node_def Let_def split: prod.splits)
  ultimately show ?thesis by (simp add: read_to_owned_def len rows_node_def)
qed

lemma rows_read_node_packs:
  assumes "node_rows bs fmt leaf level rows" "shared_fits (tf_node_layout fmt) (length rows) rows"
    "r = rows_read_node bs fmt leaf level rows"
  shows "packs r (map row_key rows)"
proof -
  note e = rows_read_node_entry [OF assms(1,2) _ assms(3)]
  have "unat (rn_common_prefix_len r) = common_len (map row_key rows)"
    using common_len_fits [OF assms(2)] assms(3)
    by (auto simp: rows_read_node_def Let_def unat_of_nat_u32 split: prod.splits)
  moreover have "sorted_wrt (<) (map row_key rows)" using assms(1) by (auto simp: node_rows_def)
  ultimately show ?thesis
    using e length_rows_read_node [OF assms(1,2)] assms(3)
    by (auto simp: packs_def read_key_def entry_get_def)
qed

lemma from_shared_sound:
  assumes "from_shared bs = Inr r"
  obtains n where "from_compact_bytes bs = Inr n" "read_to_owned r = Some n" "packs r (nd_keys n)"
proof -
  from assms obtain fmt leaf level rows where r: "node_rows bs fmt leaf level rows" "32 * length rows < 2 ^ 63"
    "shared_fits (tf_node_layout fmt) (length rows) rows" "r = rows_read_node bs fmt leaf level rows"
    unfolding from_shared_iff by blast
  have "from_compact_bytes bs = Inr (rows_node fmt leaf level rows)"
    unfolding from_compact_bytes_iff
    by (intro exI [of _ fmt] exI [of _ leaf] exI [of _ level] exI [of _ rows])
      (use r(1,2) shared_fits_owned [OF r(3)] in simp)
  moreover have "packs r (nd_keys (rows_node fmt leaf level rows))"
    using rows_read_node_packs [OF r(1,3,4)] by (simp add: rows_node_def)
  ultimately show ?thesis using that rows_read_node_owned [OF r(1,3,4)] by blast
qed

lemma prefix_fitsI:
  assumes "\<forall>row \<in> set rows. val_inside bs row" "length bs < 2 ^ 32" "a + sum_list (map (length \<circ> row_key) rows) < 2 ^ 32"
  shows "prefix_fits a rows"
  using assms by (induction a rows rule: prefix_fits.induct) (auto simp: fits32_def val_inside_def row_key_def)

lemma prefix_fitsD: "prefix_fits a rows \<Longrightarrow> rows \<noteq> [] \<Longrightarrow> a + sum_list (map length (butlast (map row_key rows))) < 2 ^ 32"
  by (induction a rows rule: prefix_fits.induct) (auto simp: fits32_def row_key_def split: if_splits)

lemma from_shared_complete:
  assumes "from_compact_bytes bs = Inr n" "length bs < 2 ^ 32"
    "tf_node_layout (nd_format n) = PrefixCompressed \<longrightarrow> sum_list (map length (nd_keys n)) < 2 ^ 32"
  obtains r where "from_shared bs = Inr r" "read_to_owned r = Some n"
proof -
  from assms(1) obtain fmt leaf level rows where r: "node_rows bs fmt leaf level rows" and n: "n = rows_node fmt leaf level rows"
    unfolding from_compact_bytes_iff by blast
  from r obtain c1 c2 where h: "read_header (cursor_new bs) = Inr ((fmt, leaf, level, length rows), c1)"
    "layout_rows (tf_node_layout fmt) (length rows) leaf c1 = Inr (rows, c2)"
    by (auto simp: node_rows_def)
  note i = header_rows_inside [OF h]
  have "plain_fits row" if "row \<in> set rows" "tf_node_layout fmt \<noteq> PrefixCompressed" for row
    using i that assms(2) by (cases row) (fastforce simp: plain_fits_def fits32_def val_inside_def row_inside_def)
  moreover have "prefix_fits 0 rows" if "tf_node_layout fmt = PrefixCompressed"
    using i assms that n by (intro prefix_fitsI [of rows bs]) (auto simp: rows_node_def o_def)
  ultimately have f: "shared_fits (tf_node_layout fmt) (length rows) rows"
    using i assms(2) by (auto simp: shared_fits_def)
  have "from_shared bs = Inr (rows_read_node bs fmt leaf level rows)"
    unfolding from_shared_iff
    by (intro exI [of _ fmt] exI [of _ leaf] exI [of _ level] exI [of _ rows]) (use r f i assms(2) in simp)
  with that show ?thesis using rows_read_node_owned [OF r f refl] n by blast
qed

text \<open>
  The arena is addressed with 32 bits: a prefix-compressed node whose keys, the last one
  apart, add up to 4 GiB is never accepted, however short its encoding.
\<close>

lemma packed_arena_limit:
  assumes "from_shared bs = Inr r" "read_to_owned r = Some n" "tf_node_layout (nd_format n) = PrefixCompressed"
  shows "sum_list (map length (butlast (nd_keys n))) < 2 ^ 32"
proof -
  from assms(1) obtain fmt leaf level rows where r: "node_rows bs fmt leaf level rows"
    "shared_fits (tf_node_layout fmt) (length rows) rows" "r = rows_read_node bs fmt leaf level rows"
    unfolding from_shared_iff by blast
  have "n = rows_node fmt leaf level rows" using rows_read_node_owned [OF r] assms(2) by simp
  then show ?thesis using assms(3) r(2) prefix_fitsD [of 0 rows]
    by (cases "rows = []") (auto simp: rows_node_def shared_fits_def)
qed

section \<open>Properties\<close>

lemma sample_leaf_sizes:
  "length sample_leaf_bytes < 2 ^ 32" "sum_list (map length (nd_keys sample_leaf)) < 2 ^ 32"
  by (simp_all add: sample_leaf_bytes_def sample_leaf_def sample_builder_defs)

lemma sample_leaf_shared:
  obtains r where "from_shared sample_leaf_bytes = Inr r" "read_to_owned r = Some sample_leaf"
  using from_shared_complete [OF sample_leaf_decodes] sample_leaf_sizes by blast

text \<open>
  C14 (\<open>ReadNode::from_shared\<close>, \<open>ReadNode::to_owned\<close>).  Whatever the packed decoder accepts,
  the owned decoder accepts too, \<open>to_owned\<close> finds every slice in bounds (it never panics) and
  yields exactly the owned node, which satisfies every structural invariant.
\<close>

theorem packed_decoder_sound:
  assumes "from_shared bs = Inr r"
  shows "\<exists>n. read_to_owned r = Some n \<and> from_compact_bytes bs = Inr n \<and> node_validate n = Inr ()"
  using from_shared_sound [OF assms] from_compact_bytes_valid by metis

theorem packed_decoder_sound_witness:
  "\<exists>r. from_shared sample_leaf_bytes = Inr r \<and>
     (\<exists>n. read_to_owned r = Some n \<and> from_compact_bytes sample_leaf_bytes = Inr n \<and> node_validate n = Inr ())"
  by (rule sample_leaf_shared) (use packed_decoder_sound in blast)

text \<open>
  C15 (\<open>ReadNode::from_shared\<close>).  Conversely, bytes below 4 GiB that the owned decoder accepts
  are accepted by the packed one, provided the rebuilt keys of a prefix-compressed node stay
  below 4 GiB in total.
\<close>

theorem packed_decoder_complete:
  assumes "from_compact_bytes bs = Inr n" "length bs < 2 ^ 32"
    "tf_node_layout (nd_format n) = PrefixCompressed \<longrightarrow> sum_list (map length (nd_keys n)) < 2 ^ 32"
  shows "\<exists>r. from_shared bs = Inr r \<and> read_to_owned r = Some n"
  using from_shared_complete [OF assms] by metis

theorem packed_decoder_complete_witness:
  "\<exists>r. from_shared sample_leaf_bytes = Inr r \<and> read_to_owned r = Some sample_leaf"
  by (rule packed_decoder_complete [OF sample_leaf_decodes]) (use sample_leaf_sizes in simp_all)

text \<open>
  C16 (\<open>ReadNode::search\<close>, \<open>Node::search\<close>).  The accelerated search of an accepted packed node,
  with its common-prefix shortcut and its eight-byte order words, never leaves the node's
  buffers and returns what the ordinary binary search of the owned node returns, which is
  the position of the key or its insertion point.
\<close>

theorem packed_search_correct:
  assumes "from_shared bs = Inr r" "read_to_owned r = Some n"
  shows "read_search r key = Some (node_search n key) \<and> node_search n key = search_ref (nd_keys n) key"
proof -
  from from_shared_sound [OF assms(1)] assms(2) have p: "packs r (nd_keys n)" by (metis option.inject)
  then have "sorted_wrt (<) (nd_keys n)" by (simp add: packs_def)
  with read_search_ref [OF p] node_search_ref show ?thesis by simp
qed

theorem packed_search_correct_witness:
  "\<exists>r. from_shared sample_leaf_bytes = Inr r \<and> read_search r [1, 2] = Some (Inr 1)"
proof -
  obtain r where r: "from_shared sample_leaf_bytes = Inr r" "read_to_owned r = Some sample_leaf"
    by (rule sample_leaf_shared)
  have "search_ref (nd_keys sample_leaf) [1, 2] = Inr 1" by code_simp
  with packed_search_correct [OF r, of "[1, 2]"] r show ?thesis by auto
qed

end
