(* ===== verification/Tree_Spec.thy ===== *)
theory Tree_Spec
  imports Read_Decode
begin

text \<open>
  What a stored tree holds, as the contract between the code that builds trees and the code
  that reads them.  \<open>holds look f l cid es\<close> says that the node stored under \<open>cid\<close> decodes, in the
  packed form and with format \<open>f\<close>, to the root of a subtree of height \<open>l\<close> whose leaves list the
  entries \<open>es\<close> in strictly increasing order of keys; the keys and the counts of an internal node
  are the first keys and the sizes of its children.  \<open>look\<close> is the content of the store.
\<close>

inductive holds :: "(cid \<Rightarrow> bytes option) \<Rightarrow> tree_format \<Rightarrow> nat \<Rightarrow> cid \<Rightarrow> entry list \<Rightarrow> bool" for look f where
  holds_leaf: "look cid = Some bs \<Longrightarrow> from_shared bs = Inr r \<Longrightarrow> read_to_owned r = Some n \<Longrightarrow> nd_format n = f \<Longrightarrow> nd_leaf n \<Longrightarrow>
    nd_level n = 0 \<Longrightarrow> nd_keys n \<noteq> [] \<Longrightarrow> es = zip (nd_keys n) (nd_vals n) \<Longrightarrow> holds look f 0 cid es"
| holds_node: "look cid = Some bs \<Longrightarrow> from_shared bs = Inr r \<Longrightarrow> read_to_owned r = Some n \<Longrightarrow> nd_format n = f \<Longrightarrow> \<not> nd_leaf n \<Longrightarrow>
    nd_level n = of_nat (Suc l) \<Longrightarrow> Suc l < 256 \<Longrightarrow> length kids = length (nd_keys n) \<Longrightarrow>
    (\<forall>i < length kids. holds look f l (nd_vals n ! i) (kids ! i) \<and> length (nd_vals n ! i) = 32 \<and>
      nd_keys n ! i = fst (hd (kids ! i)) \<and> unat (nd_child_counts n ! i) = length (kids ! i)) \<Longrightarrow>
    es = concat kids \<Longrightarrow> sorted_wrt (<) (map fst es) \<Longrightarrow> holds look f (Suc l) cid es"

inductive_cases holds_leafE: "holds look f 0 cid es"
inductive_cases holds_nodeE: "holds look f (Suc l) cid es"

definition tree_holds :: "(cid \<Rightarrow> bytes option) \<Rightarrow> tree_format \<Rightarrow> cid option \<Rightarrow> entry list \<Rightarrow> bool" where
  "tree_holds look f root es = (case root of None \<Rightarrow> es = [] | Some cid \<Rightarrow> \<exists>l. holds look f l cid es)"

section \<open>Reading a packed node\<close>

lemma collect_optD: "collect_opt xs = Some ys \<Longrightarrow> xs = map Some ys"
  by (induction xs arbitrary: ys) (auto simp: bind_eq_Some_conv)

lemma owned_access:
  assumes "read_to_owned r = Some n"
  shows "read_len r = length (nd_keys n)" "length (nd_vals n) = length (nd_keys n)"
    "i < length (nd_keys n) \<Longrightarrow> read_key r i = Some (nd_keys n ! i)" "i < length (nd_keys n) \<Longrightarrow> read_value r i = Some (nd_vals n ! i)"
    "rn_leaf r = nd_leaf n" "rn_level r = nd_level n" "rn_format r = nd_format n"
    "\<not> nd_leaf n \<Longrightarrow> i < length (nd_keys n) \<Longrightarrow> read_child_count r i = Some (nd_child_counts n ! i)"
proof -
  obtain keys vals where c: "collect_opt (map (read_key r) [0..<read_len r]) = Some keys"
    "collect_opt (map (read_value r) [0..<read_len r]) = Some vals"
    and n: "n = \<lparr>nd_keys = keys, nd_vals = vals, nd_child_counts = (if rn_leaf r then [] else map rm_child_count (rn_entries r)),
       nd_leaf = rn_leaf r, nd_level = rn_level r, nd_format = rn_format r\<rparr>"
    using assms by (auto simp: read_to_owned_def bind_eq_Some_conv)
  note k = collect_optD [OF c(1)] collect_optD [OF c(2)]
  have len: "length keys = read_len r" "length vals = read_len r" using arg_cong [OF k(1), of length] arg_cong [OF k(2), of length] by simp_all
  have nth: "read_key r i = Some (keys ! i)" "read_value r i = Some (vals ! i)" if "i < read_len r" for i
    using arg_cong [OF k(1), of "\<lambda>xs. xs ! i"] arg_cong [OF k(2), of "\<lambda>xs. xs ! i"] that len by simp_all
  show "read_len r = length (nd_keys n)" "length (nd_vals n) = length (nd_keys n)"
    "i < length (nd_keys n) \<Longrightarrow> read_key r i = Some (nd_keys n ! i)" "i < length (nd_keys n) \<Longrightarrow> read_value r i = Some (nd_vals n ! i)"
    "rn_leaf r = nd_leaf n" "rn_level r = nd_level n" "rn_format r = nd_format n"
    "\<not> nd_leaf n \<Longrightarrow> i < length (nd_keys n) \<Longrightarrow> read_child_count r i = Some (nd_child_counts n ! i)"
    using len nth by (auto simp: n read_child_count_def entry_get_def read_len_def)
qed

lemma shared_valid:
  assumes "from_shared bs = Inr r" "read_to_owned r = Some n"
  shows "sorted_wrt (<) (nd_keys n)" "length (nd_vals n) = length (nd_keys n)" "read_search r key = Some (search_ref (nd_keys n) key)"
    "\<not> nd_leaf n \<Longrightarrow> nd_keys n \<noteq> []" "\<not> nd_leaf n \<Longrightarrow> length (nd_child_counts n) = length (nd_keys n)"
proof -
  obtain n' where n': "from_compact_bytes bs = Inr n'" "read_to_owned r = Some n'" "packs r (nd_keys n')" by (rule from_shared_sound [OF assms(1)])
  then have n: "n' = n" using assms(2) by simp
  note v = from_compact_bytes_valid [OF n'(1), unfolded n node_validate_iff]
  show "sorted_wrt (<) (nd_keys n)" "length (nd_vals n) = length (nd_keys n)" using v by simp_all
  show "read_search r key = Some (search_ref (nd_keys n) key)" using read_search_ref [OF n'(3)] n by simp
  show "\<not> nd_leaf n \<Longrightarrow> nd_keys n \<noteq> []" "\<not> nd_leaf n \<Longrightarrow> length (nd_child_counts n) = length (nd_keys n)" using v by simp_all
qed

section \<open>What holds implies\<close>

lemma holds_nonempty: "holds look f l cid es \<Longrightarrow> es \<noteq> []"
proof (induction rule: holds.induct)
  case (holds_leaf cid bs r n es)
  then show ?case using shared_valid(2) [OF holds_leaf(2,3)] by (cases "nd_keys n"; cases "nd_vals n") auto
next
  case (holds_node cid bs r n l kids es)
  then have "0 < length kids" using shared_valid(4) by fastforce
  then show ?case using holds_node by (auto simp: hd_conv_nth) (metis list.set_sel(1) nth_mem length_greater_0_conv)
qed

lemma holds_sorted: "holds look f l cid es \<Longrightarrow> sorted_wrt (<) (map fst es)"
proof (induction rule: holds.induct)
  case (holds_leaf cid bs r n es)
  then show ?case using shared_valid(1,2) [OF holds_leaf(2,3)] by simp
qed simp

end
