(* ===== verification/Built_Trees.thy ===== *)
theory Built_Trees
  imports Builder Tree_Spec
begin

text \<open>
  The trees the bulk builder publishes hold the entries they were built from: every node of
  every level, read back from the store, decodes to the group of entries it was cut from.
\<close>

section \<open>Reading back one node\<close>

definition readable :: "config \<Rightarrow> bytes list \<Rightarrow> bool" where
  "readable cfg keys \<longleftrightarrow> format_strings_ok (cfg_format cfg) \<and> unat (hard_max cfg) < 2 ^ 32 \<and>
     (tf_node_layout (cfg_format cfg) = PrefixCompressed \<longrightarrow> sum_list (map length keys) < 2 ^ 32)"

lemma payload_of_length: "length (payload_of es) = sum_list (map (\<lambda>(k, v). length k + length v) es)"
  by (induction es) (auto simp: payload_of_def)

lemma group_decodes:
  assumes "level_room (cfg_format cfg) level g" "sorted_wrt (<) (map fst g)" "g \<noteq> []" "readable cfg (map fst g)"
    "ilen (cfg_format cfg) level g \<le> unat (hard_max cfg)"
  obtains r where "from_shared (item_bytes (cfg_format cfg) level g) = Inr r"
    "read_to_owned r = Some (item_node (cfg_format cfg) (level = 0) level g)"
proof -
  let ?f = "cfg_format cfg" let ?n = "item_node ?f (level = 0) level g" let ?bs = "item_bytes ?f level g"
  have lev: "level_ok ?f level g" and small: "bound_len ?f g < 2 ^ 60" using assms(1) by (auto simp: level_room_def)
  have ok: "items_ok (level = 0) g" "format_validate ?f = Inr ()" using lev by (auto simp: level_ok_def)
  have bs: "to_compact_bytes ?n = Inr ?bs" using item_bytes_eq(1) [OF lev] by (auto simp: to_bytes_def expect_ok_def split: sum.splits)
  have len: "length ?bs < 2 ^ 32" using item_bytes_eq(2) [OF lev] assms(4,5) by (simp add: readable_def)
  have valid: "node_validate ?n = Inr ()"
  proof (cases "level = 0")
    case True
    then have "item_counts g = []"
      using ok(1) by (induction g) (auto simp: items_ok_def item_counts_def List.map_filter_simps validate_child_count_def split: option.splits)
    then show ?thesis using True assms(2) ok(2) by (simp add: node_validate_iff)
  next
    case False
    then have "length (item_counts g) = length g" "0 \<notin> set (item_counts g)"
      using ok(1) by (induction g) (auto simp: items_ok_def item_counts_def List.map_filter_simps validate_child_count_iff)
    then show ?thesis using False assms(2,3) ok(2) by (simp add: node_validate_iff)
  qed
  have mem: "node_in_memory ?n"
  proof -
    have "payload_size g \<le> upper_len g" "64 * length g \<le> upper_len g" by (simp_all add: upper_len_eq)
    then have le: "payload_size g < 2 ^ 60" "64 * length g < 2 ^ 60" using small by (simp_all add: bound_len_def)
    have "length k + length v \<le> payload_size g" if "(k, v, c) \<in> set g" for k v c
      using that by (induction g) (auto simp: payload_size_def)
    then have "list_all (\<lambda>(k, v). length k < 2 ^ 63 \<and> length v < 2 ^ 63) (node_entries ?n)"
      using le(1) by (fastforce simp: list_all_iff node_entries_item_node item_entries_def)
    moreover have "length (payload_of (node_entries ?n)) = payload_size g"
      by (simp add: payload_of_length node_entries_item_node item_entries_def payload_size_def comp_def case_prod_unfold)
    ultimately show ?thesis using le by (simp add: node_in_memory_def)
  qed
  have "from_compact_bytes ?bs = Inr ?n"
    using from_to_compact_bytes [OF valid mem _ bs] assms(4) len by (simp add: readable_def)
  from from_shared_complete [OF this len] that assms(4) show thesis by (auto simp: readable_def)
qed

section \<open>Summaries and the entries below them\<close>

definition summary_holds :: "(cid \<Rightarrow> bytes option) \<Rightarrow> tree_format \<Rightarrow> nat \<Rightarrow> node_summary \<Rightarrow> entry list \<Rightarrow> bool" where
  "summary_holds look f l c es \<longleftrightarrow>
     holds look f l (ns_cid c) es \<and> ns_first_key c = fst (hd es) \<and> unat (ns_count c) = length es"

lemma leaf_group_holds:
  assumes "level_room (cfg_format cfg) 0 (map leaf_item es)" "sorted_wrt (<) (map fst es)" "es \<noteq> []" "readable cfg (map fst es)"
    "ilen (cfg_format cfg) 0 (map leaf_item es) \<le> unat (hard_max cfg)"
    "look (sha256 (item_bytes (cfg_format cfg) 0 (map leaf_item es))) = Some (item_bytes (cfg_format cfg) 0 (map leaf_item es))"
  shows "summary_holds look (cfg_format cfg) 0 (summary_of sha256 (cfg_format cfg) 0 (map leaf_item es)) es"
proof -
  let ?f = "cfg_format cfg" let ?g = "map leaf_item es"
  obtain r where r: "from_shared (item_bytes ?f 0 ?g) = Inr r" "read_to_owned r = Some (item_node ?f (0 = (0 :: u8)) 0 ?g)"
    by (rule group_decodes [OF assms(1)]) (use assms(2-5) in simp_all)
  have "holds look ?f 0 (sha256 (item_bytes ?f 0 ?g)) es"
    by (rule holds_leaf [where look = look, OF assms(6) r])
      (use assms(3) in \<open>simp_all add: item_node_def comp_assoc [symmetric] zip_map_fst_snd\<close>)
  moreover have "length es < 2 ^ 64"
  proof -
    have "length ?g \<le> upper_len ?g" by (simp add: upper_len_eq)
    then show ?thesis using assms(1) by (simp add: level_room_def bound_len_def)
  qed
  ultimately show ?thesis using assms(3) by (simp add: summary_holds_def summary_of_def hd_map group_count_def unat_of_nat_u64)
qed

lemma sorted_firsts:
  assumes "sorted_wrt (<) (map fst (concat ess))" "[] \<notin> set ess"
  shows "sorted_wrt (<) (map (\<lambda>es. fst (hd es)) (ess :: ('a :: linorder \<times> 'b) list list))"
  using assms
proof (induction ess)
  case (Cons es ess)
  have "fst (hd es) < fst (hd xs)" if "xs \<in> set ess" for xs
  proof -
    have "hd es \<in> set es" "hd xs \<in> set (concat ess)" using Cons.prems(2) that hd_in_set [of es] hd_in_set [of xs] by fastforce+
    then show ?thesis using Cons.prems(1) by (auto simp: sorted_wrt_append)
  qed
  then show ?case using Cons by (auto simp: sorted_wrt_append)
qed simp

lemma summary_holds_nonempty: "list_all2 (summary_holds look f l) cs ess \<Longrightarrow> [] \<notin> set ess"
  using holds_nonempty by (fastforce simp: list_all2_conv_all_nth in_set_conv_nth summary_holds_def)

lemma summary_firsts:
  "list_all2 (summary_holds look f l) cs ess \<Longrightarrow> map ns_first_key cs = map (\<lambda>es. fst (hd es)) ess \<and>
     sum_list (map (unat \<circ> ns_count) cs) = length (concat ess)"
  by (induction rule: list_all2_induct) (auto simp: summary_holds_def)

lemma node_group_holds:
  assumes "list_all2 (summary_holds look (cfg_format cfg) l) cs ess" "sorted_wrt (<) (map fst (concat ess))" "cs \<noteq> []"
    "unat level = Suc l" "level_room (cfg_format cfg) level (map child_item cs)" "\<forall>c \<in> set cs. length (ns_cid c) = 32"
    "readable cfg (map ns_first_key cs)" "ilen (cfg_format cfg) level (map child_item cs) \<le> unat (hard_max cfg)"
    "look (sha256 (item_bytes (cfg_format cfg) level (map child_item cs))) = Some (item_bytes (cfg_format cfg) level (map child_item cs))"
  shows "summary_holds look (cfg_format cfg) (Suc l) (summary_of sha256 (cfg_format cfg) level (map child_item cs)) (concat ess)"
proof -
  let ?f = "cfg_format cfg" let ?g = "map child_item cs" let ?n = "item_node ?f (level = 0) level ?g"
  note ne = summary_holds_nonempty [OF assms(1)] and fi = summary_firsts [OF assms(1)]
  have "of_nat (unat level) = level" by simp
  then have lv: "level = of_nat (Suc l)" "level \<noteq> 0" "Suc l < 256"
    using assms(4) unat_byte_lt [of level] by (simp, fastforce, simp)
  have len: "length ess = length cs" using list_all2_lengthD [OF assms(1)] by simp
  have sorted: "sorted_wrt (<) (map fst ?g)" using sorted_firsts [OF assms(2) ne] fi by simp
  obtain r where r: "from_shared (item_bytes ?f level ?g) = Inr r" "read_to_owned r = Some ?n"
    by (rule group_decodes [OF assms(5) sorted]) (use assms(3,7,8) in simp_all)
  have "holds look ?f (Suc l) (sha256 (item_bytes ?f level ?g)) (concat ess)"
  proof (rule holds_node [where look = look, OF assms(9) r])
    show "\<forall>i < length ess. holds look ?f l (nd_vals ?n ! i) (ess ! i) \<and> length (nd_vals ?n ! i) = 32 \<and>
        nd_keys ?n ! i = fst (hd (ess ! i)) \<and> unat (nd_child_counts ?n ! i) = length (ess ! i)"
      using assms(1,6) len by (auto simp: item_node_def list_all2_conv_all_nth summary_holds_def)
  qed (use lv len assms(2) in \<open>simp_all add: item_node_def\<close>)
  moreover have "fst (hd ?g) = fst (hd (concat ess))"
  proof -
    obtain c cs' es ess' where "cs = c # cs'" "ess = es # ess'" using assms(3) len by (cases cs; cases ess) auto
    then show ?thesis using fi ne by (cases es) simp_all
  qed
  moreover have "unat (group_count level ?g) = length (concat ess)"
  proof -
    have "sum_list (map (item_count level) ?g) = length (concat ess)" using lv(2) fi by (simp add: item_count_def comp_def)
    moreover have "sum_list (map (unat \<circ> ns_count) cs) < 2 ^ 64" using assms(5) by (simp add: level_room_def comp_def)
    ultimately show ?thesis using fi unat_group_count [of level ?g] by linarith
  qed
  ultimately show ?thesis by (simp add: summary_holds_def summary_of_def)
qed

section \<open>Levels\<close>

lemma list_all2_groups:
  assumes "list_all2 R (concat css) ess"
  obtains esss where "concat esss = ess" "list_all2 (list_all2 R) css esss"
  using assms
proof (induction css arbitrary: ess thesis)
  case (Cons cs css)
  from Cons.prems(2) obtain es1 es2 where es: "ess = es1 @ es2" "list_all2 R cs es1" "list_all2 R (concat css) es2"
    by (auto simp: list_all2_append1)
  obtain esss where "concat esss = es2" "list_all2 (list_all2 R) css esss" by (rule Cons.IH [OF _ es(3)])
  then show ?case using Cons.prems(1) [of "es1 # esss"] es by simp
qed simp

lemma built_level_step:
  assumes "build_level sha256 xxh64 publish_log cfg origin level cs log = Inr (cs', log')" "children_room (cfg_format cfg) cs" "cs \<noteq> []"
    "level \<noteq> 0"
  obtains css where "concat css = cs" "[] \<notin> set css" "cs' = map (\<lambda>c. summary_of sha256 (cfg_format cfg) level (map child_item c)) css"
    "log' = log @ group_entries sha256 (cfg_format cfg) level (map (map child_item) css)"
    "\<And>c. c \<in> set css \<Longrightarrow> ilen (cfg_format cfg) level (map child_item c) \<le> unat (hard_max cfg)"
    "digest_32 sha256 \<Longrightarrow> children_room (cfg_format cfg) cs'"
proof -
  obtain gs where gs: "level_groups xxh64 cfg level (map child_item cs) = Inr gs" "cs' = map (summary_of sha256 (cfg_format cfg) level) gs"
    "log' = log @ group_entries sha256 (cfg_format cfg) level gs"
    using assms(1) unfolding build_level_eq [OF child_level_room [OF assms(2,4)] assms(3,4)] persist_log
    by (auto simp: and_then_Inr_iff)
  note sound = level_groups_sound [OF gs(1)]
  obtain css where css: "gs = map (map child_item) css" "concat css = cs" by (rule concat_map_groups [OF sound(1)])
  show thesis
  proof (rule that [OF css(2)])
    show "[] \<notin> set css" using sound(2) by (auto simp: css(1))
    show "ilen (cfg_format cfg) level (map child_item c) \<le> unat (hard_max cfg)" if "c \<in> set css" for c
      using sound(3) that by (auto simp: css(1))
    show "children_room (cfg_format cfg) cs'" if "digest_32 sha256"
      using child_groups_room [OF assms(2) that sound(1,2) assms(4)] gs(2) by simp
  qed (simp_all add: gs css(1))
qed

lemma readable_le: "readable cfg keys \<Longrightarrow> sum_list (map length keys') \<le> sum_list (map length keys) \<Longrightarrow> readable cfg keys'"
  by (auto simp: readable_def)

lemma level_holds:
  assumes "list_all2 (summary_holds look (cfg_format cfg) l) cs ess" "sorted_wrt (<) (map fst (concat ess))"
    "readable cfg (map fst (concat ess))" "children_room (cfg_format cfg) cs" "unat level = Suc l"
    "concat css = cs" "[] \<notin> set css" "\<And>c. c \<in> set css \<Longrightarrow> ilen (cfg_format cfg) level (map child_item c) \<le> unat (hard_max cfg)"
    "\<forall>(k, v) \<in> set (group_entries sha256 (cfg_format cfg) level (map (map child_item) css)). look k = Some v"
  obtains ess' where "concat ess' = concat ess"
    "list_all2 (summary_holds look (cfg_format cfg) (Suc l)) (map (\<lambda>c. summary_of sha256 (cfg_format cfg) level (map child_item c)) css) ess'"
proof -
  let ?f = "cfg_format cfg"
  obtain esss where esss: "concat esss = ess" "list_all2 (list_all2 (summary_holds look ?f l)) css esss"
    by (rule list_all2_groups [of "summary_holds look ?f l" css ess]) (use assms(1,6) in auto)
  have lv: "level \<noteq> 0" using assms(5) by auto
  have "list_all2 (\<lambda>c es. summary_holds look ?f (Suc l) (summary_of sha256 ?f level (map child_item c)) (concat es)) css esss"
    unfolding list_all2_conv_all_nth
  proof (intro conjI allI impI)
    show "length css = length esss" using list_all2_lengthD [OF esss(2)] .
    fix i assume i: "i < length css"
    define c where "c = css ! i" define es where "es = esss ! i"
    have c: "c \<in> set css" and l2: "list_all2 (summary_holds look ?f l) c es" and "es \<in> set esss"
      using i esss(2) by (auto simp: c_def es_def list_all2_conv_all_nth)
    obtain e1 e2 where "esss = e1 @ es # e2" using \<open>es \<in> set esss\<close> by (auto simp: in_set_conv_decomp)
    then have mid: "concat ess = concat (concat e1) @ concat es @ concat (concat e2)" using esss(1) by auto
    obtain c1 c2 where "css = c1 @ c # c2" using c by (auto simp: in_set_conv_decomp)
    then have "map child_item cs = map child_item (concat c1) @ map child_item c @ map child_item (concat c2)"
      using assms(6) by auto
    then have room: "level_room ?f level (map child_item c)"
      using child_level_room [OF assms(4) lv] level_room_part by metis
    have "sum_list (map length (map ns_first_key c)) \<le> sum_list (map (length \<circ> fst) (concat es))"
      using sum_of_firsts [OF summary_holds_nonempty [OF l2], of "length \<circ> fst"] summary_firsts [OF l2] by (simp add: comp_def)
    then have "readable cfg (map ns_first_key c)" using readable_le [OF assms(3)] mid by simp
    with room show "summary_holds look ?f (Suc l) (summary_of sha256 ?f level (map child_item (css ! i))) (concat (esss ! i))"
      unfolding c_def [symmetric] es_def [symmetric]
      using assms(2,4,5,6,7,8,9) mid c
      by (intro node_group_holds [OF l2]) (auto simp: sorted_wrt_append children_room_def group_entries_def)
  qed
  then have "list_all2 (summary_holds look ?f (Suc l)) (map (\<lambda>c. summary_of sha256 ?f level (map child_item c)) css) (map concat esss)"
    by (simp add: list_all2_map1 list_all2_map2)
  moreover have "concat (map concat xsss) = concat (concat xsss)" for xsss :: "entry list list list" by (induction xsss) simp_all
  then have "concat (map concat esss) = concat ess" using esss(1) by metis
  ultimately show thesis using that by blast
qed

definition log_ok :: "hash256 \<Rightarrow> entry list \<Rightarrow> bool" where
  "log_ok sha256 log \<longleftrightarrow> (\<forall>(k, v) \<in> set log. sha256 v = k)"

definition log_in :: "(cid \<Rightarrow> bytes option) \<Rightarrow> entry list \<Rightarrow> bool" where
  "log_in look log \<longleftrightarrow> (\<forall>(k, v) \<in> set log. look k = Some v)"

lemma log_ok_groups [simp]: "log_ok sha256 (log @ group_entries sha256 f level gs) = log_ok sha256 log"
  by (auto simp: log_ok_def group_entries_def)

lemma log_in_append [simp]: "log_in look (xs @ ys) \<longleftrightarrow> log_in look xs \<and> log_in look ys"
  by (auto simp: log_in_def)

lemma log_in_subset: "log_in look ys \<Longrightarrow> set xs \<subseteq> set ys \<Longrightarrow> log_in look xs"
  by (auto simp: log_in_def)

lemma build_levels_hold:
  assumes "build_levels sha256 xxh64 publish_log cfg origin level cs log = Inr (t, log')" "children_room (cfg_format cfg) cs" "digest_32 sha256"
    "cs \<noteq> []" "log_ok sha256 log"
  shows "set log \<subseteq> set log' \<and> log_ok sha256 log' \<and> tr_config t = cfg \<and>
    (\<forall>look ess. list_all2 (summary_holds look (cfg_format cfg) (unat level)) cs ess \<longrightarrow> sorted_wrt (<) (map fst (concat ess)) \<longrightarrow>
      readable cfg (map fst (concat ess)) \<longrightarrow> log_in look log' \<longrightarrow> tree_holds look (cfg_format cfg) (tr_root t) (concat ess))"
  using assms
proof (induction sha256 xxh64 "publish_log" cfg origin level cs log rule: build_levels.induct)
  case (1 sha256 xxh64 cfg origin level cs log)
  show ?case
  proof (cases "1 < length cs")
    case False
    then obtain c where c: "cs = [c]" using "1.prems"(4) by (cases cs) auto
    have t: "t = root_tree cfg cs" "log' = log" using "1.prems"(1) False by (auto simp: build_levels.simps)
    have "tree_holds look (cfg_format cfg) (Some (ns_cid c)) (concat ess)"
      if "list_all2 (summary_holds look (cfg_format cfg) (unat level)) cs ess" for look ess
      using that c by (auto simp: tree_holds_def summary_holds_def list_all2_Cons1)
    then show ?thesis using t c "1.prems"(5) by (simp add: root_tree_def)
  next
    case True
    then have l: "level \<noteq> 255" using "1.prems"(1) by (auto simp: build_levels.simps)
    obtain cs' log1 where b: "build_level sha256 xxh64 publish_log cfg origin (level + 1) cs log = Inr (cs', log1)"
      "build_levels sha256 xxh64 publish_log cfg origin (level + 1) cs' log1 = Inr (t, log')"
      using "1.prems"(1) True l by (subst (asm) build_levels.simps) (auto simp: and_then_Inr_iff)
    have lv: "unat (level + 1) = Suc (unat level)" "level + 1 \<noteq> 0" using unat_level_Suc [OF l] by auto
    obtain css where css: "concat css = cs" "[] \<notin> set css" "cs' = map (\<lambda>c. summary_of sha256 (cfg_format cfg) (level + 1) (map child_item c)) css"
      "log1 = log @ group_entries sha256 (cfg_format cfg) (level + 1) (map (map child_item) css)"
      "\<And>c. c \<in> set css \<Longrightarrow> ilen (cfg_format cfg) (level + 1) (map child_item c) \<le> unat (hard_max cfg)"
      "digest_32 sha256 \<Longrightarrow> children_room (cfg_format cfg) cs'"
      by (rule built_level_step [OF b(1) "1.prems"(2,4) lv(2)]) blast
    have "cs' \<noteq> []" using css(1,3) "1.prems"(4) by auto
    from "1.hyps" [OF True l b(1) refl b(2) css(6) [OF "1.prems"(3)] "1.prems"(3) this] "1.prems"(5)
    have IH: "set log1 \<subseteq> set log'" "log_ok sha256 log'" "tr_config t = cfg"
      "\<And>look ess. list_all2 (summary_holds look (cfg_format cfg) (Suc (unat level))) cs' ess \<Longrightarrow> sorted_wrt (<) (map fst (concat ess)) \<Longrightarrow>
        readable cfg (map fst (concat ess)) \<Longrightarrow> log_in look log' \<Longrightarrow> tree_holds look (cfg_format cfg) (tr_root t) (concat ess)"
      by (auto simp: css(4) lv(1))
    have "tree_holds look (cfg_format cfg) (tr_root t) (concat ess)"
      if h: "list_all2 (summary_holds look (cfg_format cfg) (unat level)) cs ess" "sorted_wrt (<) (map fst (concat ess))"
        "readable cfg (map fst (concat ess))" "log_in look log'" for look ess
    proof -
      have "log_in look log1" using log_in_subset [OF h(4) IH(1)] .
      then have new: "\<forall>(k, v) \<in> set (group_entries sha256 (cfg_format cfg) (level + 1) (map (map child_item) css)). look k = Some v"
        by (simp add: css(4)) (simp add: log_in_def)
      obtain ess' where "concat ess' = concat ess" "list_all2 (summary_holds look (cfg_format cfg) (Suc (unat level))) cs' ess'"
        unfolding css(3) by (rule level_holds [OF h(1-3) "1.prems"(2) lv(1) css(1,2,5) new])
      then show ?thesis using IH(4) [of look ess'] h by simp
    qed
    then show ?thesis using IH by (auto simp: css(4))
  qed
qed

lemma leaf_groups_hold:
  assumes "tree_room (cfg_format cfg) (concat ess)" "sorted_wrt (<) (map fst (concat ess))" "readable cfg (map fst (concat ess))" "[] \<notin> set ess"
    "\<And>es. es \<in> set ess \<Longrightarrow> ilen (cfg_format cfg) 0 (map leaf_item es) \<le> unat (hard_max cfg)"
    "log_in look (group_entries sha256 (cfg_format cfg) 0 (map (map leaf_item) ess))"
  shows "list_all2 (summary_holds look (cfg_format cfg) 0) (map (\<lambda>es. summary_of sha256 (cfg_format cfg) 0 (map leaf_item es)) ess) ess"
  unfolding list.rel_map
proof (rule list.rel_refl_strong)
  fix es assume es: "es \<in> set ess"
  obtain e1 e2 where mid: "concat ess = concat e1 @ es @ concat e2" using es by (auto simp: in_set_conv_decomp)
  have "level_room (cfg_format cfg) 0 (map leaf_item es)"
    using leaf_level_room [OF assms(1)] level_room_part [of "cfg_format cfg" 0 "map leaf_item (concat e1)"] by (metis mid map_append)
  moreover have "readable cfg (map fst es)" using readable_le [OF assms(3)] mid by simp
  moreover have "sorted_wrt (<) (map fst es)" using assms(2) by (simp add: mid sorted_wrt_append)
  ultimately show "summary_holds look (cfg_format cfg) 0 (summary_of sha256 (cfg_format cfg) 0 (map leaf_item es)) es"
    using assms(4-6) es by (intro leaf_group_holds) (auto simp: log_in_def group_entries_def)
qed

lemma build_from_chunks_levels:
  "chunks \<noteq> [] \<Longrightarrow> build_from_chunks sha256 xxh64 publish cfg origin chunks store = build_levels sha256 xxh64 publish cfg origin 0 chunks store"
  by (cases chunks) (auto simp: build_from_chunks_def build_levels.simps root_tree_def)

lemma sorted_unique_nonempty:
  assumes "es \<noteq> []"
  shows "sorted_unique es \<noteq> []"
proof -
  have "map_of (sorted_unique es) (fst (last es)) \<noteq> None"
    unfolding sorted_unique_ok(2) using assms by (cases es rule: rev_cases) auto
  then show ?thesis by auto
qed

lemma batch_build_log_holds:
  assumes "batch_build sha256 xxh64 publish_log b = Inr (t, log')" "digest_32 sha256" "log_ok sha256 (bb_store b)"
    "tree_room (cfg_format (bb_config b)) (sorted_unique (bb_entries b))" "readable (bb_config b) (map fst (sorted_unique (bb_entries b)))"
  shows "log_ok sha256 log' \<and> tr_config t = bb_config b \<and>
    (\<forall>look. log_in look log' \<longrightarrow> tree_holds look (cfg_format (bb_config b)) (tr_root t) (sorted_unique (bb_entries b)))"
proof (cases "bb_entries b = []")
  case True
  then show ?thesis using assms(1,3) by (auto simp: batch_build_def tree_holds_def sorted_unique_def)
next
  case False
  let ?cfg = "bb_config b" let ?f = "cfg_format ?cfg" let ?es = "sorted_unique (bb_entries b)"
  note ne = sorted_unique_nonempty [OF False]
  obtain chunks log1 where pc: "parallel_chunk sha256 xxh64 publish_log ?cfg (bb_origin b) ?es (bb_store b) = Inr (chunks, log1)"
    and bc: "build_from_chunks sha256 xxh64 publish_log ?cfg (bb_origin b) chunks log1 = Inr (t, log')"
    using assms(1) False by (auto simp: batch_build_def and_then_Inr_iff)
  obtain gs where gs: "level_groups xxh64 ?cfg 0 (map leaf_item ?es) = Inr gs" "chunks = map (summary_of sha256 ?f 0) gs"
    "log1 = bb_store b @ group_entries sha256 ?f 0 gs"
    using pc unfolding parallel_chunk_eq [OF leaf_level_room [OF assms(4)] ne] persist_log by (auto simp: and_then_Inr_iff)
  note sound = level_groups_sound [OF gs(1)]
  obtain ess where ess: "gs = map (map leaf_item) ess" "concat ess = ?es" by (rule concat_map_groups [OF sound(1)])
  have "children_room ?f chunks" using leaf_groups_room [OF assms(4,2) sound(1,2)] gs(2) by simp
  moreover have chunks: "chunks \<noteq> []" using gs(2) sound(1) ne by auto
  ultimately have built: "set log1 \<subseteq> set log'" "log_ok sha256 log'" "tr_config t = ?cfg"
    "\<And>look ess. list_all2 (summary_holds look ?f 0) chunks ess \<Longrightarrow> sorted_wrt (<) (map fst (concat ess)) \<Longrightarrow>
      readable ?cfg (map fst (concat ess)) \<Longrightarrow> log_in look log' \<Longrightarrow> tree_holds look ?f (tr_root t) (concat ess)"
    using build_levels_hold [OF bc [unfolded build_from_chunks_levels [OF chunks]]] assms(2,3) by (auto simp: gs(3))
  have "tree_holds look ?f (tr_root t) ?es" if "log_in look log'" for look
  proof -
    have "log_in look (group_entries sha256 ?f 0 (map (map leaf_item) ess))"
      using log_in_subset [OF that built(1)] by (simp add: gs(3) ess(1))
    then have "list_all2 (summary_holds look ?f 0) chunks ess"
      using leaf_groups_hold [of ?cfg ess look sha256] assms(4,5) sorted_unique_ok(1) [of "bb_entries b"] sound(2,3)
      by (auto simp: gs(2) ess comp_def)
    then show ?thesis using built(4) [of look ess] assms(5) sorted_unique_ok(1) that by (simp add: ess(2))
  qed
  then show ?thesis using built by blast
qed

lemma level_groups_error:
  assumes "level_ok (cfg_format cfg) level items" "level_groups xxh64 cfg level items = Inl e"
  shows "\<exists>i \<in> set items. unat (hard_max cfg) < ilen (cfg_format cfg) level [i] \<and>
    e = EntryTooLarge (of_nat (ilen (cfg_format cfg) level [i])) (hard_max cfg)"
proof -
  let ?par = "parallel_boundary_hash_min_entries \<le> length (item_entries items)"
  obtain det where det: "chunk_ranges_for_entries_impl xxh64 cfg level (item_entries items) (level_counts level items) ?par =
      map_ok (ranges_from 0) (ref_chunks xxh64 (cfg_format cfg) level items [] det)"
    "detector_ok xxh64 det []" "cs_hard_max_node_bytes (bd_spec det) = hard_max cfg"
    by (rule dispatch_ref [OF assms(1), of xxh64 ?par])
  have "map_ok (ranges_from 0) (ref_chunks xxh64 (cfg_format cfg) level items [] det) = Inl e"
    using chunk_ranges_groups [OF assms(1), of xxh64] assms(2) unfolding det(1) [symmetric] by (simp add: chunk_ranges_for_entries_parallel_def)
  then have "ref_chunks xxh64 (cfg_format cfg) level items [] det = Inl e"
    by (cases "ref_chunks xxh64 (cfg_format cfg) level items [] det") simp_all
  from ref_chunks_error [OF _ det(2) _ this] assms(1) det(3) show ?thesis by (simp add: hard_max_def)
qed

lemma level_groups_single:
  assumes "level_ok (cfg_format cfg) level [i]" "ilen (cfg_format cfg) level [i] \<le> unat (hard_max cfg)"
  shows "level_groups xxh64 cfg level [i] = Inr [[i]]"
proof (cases "level_groups xxh64 cfg level [i]")
  case (Inl e)
  then show ?thesis using level_groups_error [OF assms(1) Inl] assms(2) by auto
next
  case (Inr gs)
  note sound = level_groups_sound [OF Inr]
  obtain g gs' where g: "gs = g # gs'" "g \<noteq> []" using sound(1,2) by (cases gs) auto
  then have "g = [i]" "concat gs' = []" using sound(1) by (auto simp: append_eq_Cons_conv)
  moreover from this have "gs' = []" using sound(2) g by (cases gs') auto
  ultimately show ?thesis using Inr g by simp
qed

section \<open>Building into a store\<close>

text \<open>The result in a store and the result in the log: the same tree or the same error.\<close>

definition same_result :: "('s \<Rightarrow> entry list \<Rightarrow> bool) \<Rightarrow> error + 'a \<times> 's \<Rightarrow> error + 'a \<times> entry list \<Rightarrow> bool" where
  "same_result R r1 r2 = (case r2 of Inl e \<Rightarrow> r1 = Inl e | Inr (x, log) \<Rightarrow> \<exists>s. r1 = Inr (x, s) \<and> R s log)"

lemma same_result_simps [simp]: "same_result R (Inl e) (Inl e)" "same_result R (Inr (x, s)) (Inr (x, log)) = R s log"
  by (auto simp: same_result_def)

lemma same_result_bind:
  assumes "same_result R r1 r2" "\<And>x s log. R s log \<Longrightarrow> same_result R (k1 (x, s)) (k2 (x, log))"
  shows "same_result R (and_then r1 k1) (and_then r2 k2)"
proof (cases r2)
  case (Inl e)
  then show ?thesis using assms(1) by (simp add: same_result_def)
next
  case (Inr p)
  obtain x log where p: "p = (x, log)" by (cases p)
  obtain s where "r1 = Inr (x, s)" "R s log" using assms(1) Inr p by (auto simp: same_result_def)
  then show ?thesis using assms(2) [of s log x] Inr p by simp
qed

lemma same_result_const:
  "(\<And>x. r = Inr x \<Longrightarrow> same_result R (k1 x) (k2 x)) \<Longrightarrow> same_result R (and_then r k1) (and_then r k2)"
  by (cases r) auto

definition look_of :: "('s \<Rightarrow> bytes \<Rightarrow> error + bytes option) \<Rightarrow> 's \<Rightarrow> cid \<Rightarrow> bytes option" where
  "look_of get s k = (case get s k of Inr v \<Rightarrow> v | Inl e \<Rightarrow> None)"

definition log_builder :: "'s batch_builder \<Rightarrow> entry list batch_builder" where
  "log_builder b = \<lparr>bb_store = [], bb_config = bb_config b, bb_origin = bb_origin b, bb_entries = bb_entries b\<rparr>"

text \<open>A store whose publication of nodes is a batched write.\<close>

locale publishing_store = node_store get put_all healthy
  for get :: "'s \<Rightarrow> bytes \<Rightarrow> error + bytes option" and put_all :: "'s \<Rightarrow> entry list \<Rightarrow> error + 's" and healthy :: "'s \<Rightarrow> bool" +
  fixes publish :: "'s publisher"
  assumes publish_new: "publish s (publication_new es origin) = put_all s es"
begin

definition mirrors :: "'s \<Rightarrow> 's \<Rightarrow> entry list \<Rightarrow> bool" where
  "mirrors s0 s log \<longleftrightarrow> healthy s \<and> (\<forall>k. get s k = (case map_of (rev log) k of Some v \<Rightarrow> Inr (Some v) | None \<Rightarrow> get s0 k))"

lemma persist_mirrors:
  assumes "mirrors s0 s log"
  shows "\<exists>s'. persist_nodes publish s nodes origin = Inr s' \<and>
    (\<exists>log'. persist_nodes publish_log log nodes origin = Inr log' \<and> mirrors s0 s' log')"
proof (cases "nodes = []")
  case True
  then show ?thesis using assms by (simp add: persist_nodes_def)
next
  case False
  let ?es = "map (\<lambda>n. (bn_cid n, bn_bytes n)) nodes"
  obtain s' where s': "put_all s ?es = Inr s'" "healthy s'" using put_all_healthy [of s ?es] assms by (auto simp: mirrors_def)
  have "mirrors s0 s' (log @ ?es)"
    using assms s'(2) get_put_all [OF _ s'(1)] by (auto simp: mirrors_def map_add_def split: option.splits)
  moreover have "persist_nodes publish_log log nodes origin = Inr (log @ ?es)"
    using False by (simp add: persist_nodes_def publish_log_def publication_new_def)
  ultimately show ?thesis using False s'(1) by (simp add: persist_nodes_def publish_new)
qed

lemma persist_result:
  assumes "mirrors s0 s log"
  shows "same_result (mirrors s0) (and_then (persist_nodes publish s nodes origin) (\<lambda>s. Inr (x, s)))
    (and_then (persist_nodes publish_log log nodes origin) (\<lambda>s. Inr (x, s)))"
  using persist_mirrors [OF assms, of nodes origin] by auto

lemma parallel_chunk_result:
  "mirrors s0 s log \<Longrightarrow> same_result (mirrors s0) (parallel_chunk sha256 xxh64 publish cfg origin es s)
     (parallel_chunk sha256 xxh64 publish_log cfg origin es log)"
  by (auto simp: parallel_chunk_def intro!: same_result_const persist_result)

lemma build_level_result:
  "mirrors s0 s log \<Longrightarrow> same_result (mirrors s0) (build_level sha256 xxh64 publish cfg origin level cs s)
     (build_level sha256 xxh64 publish_log cfg origin level cs log)"
  by (auto simp: build_level_def intro!: same_result_const persist_result)

lemma build_levels_result:
  "mirrors s0 s log \<Longrightarrow> same_result (mirrors s0) (build_levels sha256 xxh64 publish cfg origin level cs s)
     (build_levels sha256 xxh64 publish_log cfg origin level cs log)"
proof (induction sha256 xxh64 publish_log cfg origin level cs log arbitrary: s rule: build_levels.induct)
  case (1 sha256 xxh64 cfg origin level cs log)
  show ?case
  proof (cases "1 < length cs \<and> level \<noteq> 255")
    case True
    have "same_result (mirrors s0)
      (and_then (build_level sha256 xxh64 publish cfg origin (level + 1) cs s) (\<lambda>(cs, s). build_levels sha256 xxh64 publish cfg origin (level + 1) cs s))
      (and_then (build_level sha256 xxh64 publish_log cfg origin (level + 1) cs log)
        (\<lambda>(cs, s). build_levels sha256 xxh64 publish_log cfg origin (level + 1) cs s))"
    proof (cases "build_level sha256 xxh64 publish_log cfg origin (level + 1) cs log")
      case (Inl e)
      then show ?thesis using build_level_result [OF "1.prems", of sha256 xxh64 cfg origin "level + 1" cs] by (auto simp: same_result_def)
    next
      case (Inr r)
      obtain cs' log' where r: "r = (cs', log')" by (cases r)
      obtain s' where s': "build_level sha256 xxh64 publish cfg origin (level + 1) cs s = Inr (cs', s')" "mirrors s0 s' log'"
        using build_level_result [OF "1.prems", of sha256 xxh64 cfg origin "level + 1" cs] Inr r by (auto simp: same_result_def)
      show ?thesis using "1.hyps" [OF conjunct1 [OF True] conjunct2 [OF True] Inr r [symmetric] s'(2)] Inr r s'(1) by simp
    qed
    then show ?thesis using True by (subst (1 2) build_levels.simps) simp
  next
    case False
    then show ?thesis using "1.prems" by (subst (1 2) build_levels.simps) auto
  qed
qed

lemma batch_build_result:
  assumes "healthy (bb_store b)"
  shows "same_result (mirrors (bb_store b)) (batch_build sha256 xxh64 publish b)
    (batch_build sha256 xxh64 publish_log (log_builder b))"
proof -
  have start: "mirrors (bb_store b) (bb_store b) []" using assms by (simp add: mirrors_def)
  have chunks: "same_result (mirrors (bb_store b)) (build_from_chunks sha256 xxh64 publish cfg origin cs s)
      (build_from_chunks sha256 xxh64 publish_log cfg origin cs log)" if "mirrors (bb_store b) s log" for cfg origin cs s log
    using that build_levels_result [OF that] by (auto simp: build_from_chunks_def)
  show ?thesis
    using start chunks by (auto simp: batch_build_def log_builder_def intro!: same_result_bind [OF parallel_chunk_result [OF start]])
qed

lemma mirrors_reads:
  assumes "mirrors s0 s log" "log_ok sha256 log" "addressed sha256 s0" "inj_on sha256 ({v. \<exists>k. get s0 k = Inr (Some v)} \<union> snd ` set log)"
  shows "log_in (look_of get s) log" "get s0 k = Inr (Some v) \<Longrightarrow> get s k = Inr (Some v)" "addressed sha256 s"
proof -
  note get = assms(1) [unfolded mirrors_def, THEN conjunct2, rule_format]
  have addr: "sha256 v = k \<and> v \<in> snd ` set log" if "map_of (rev log) k = Some v" for k v
    using map_of_SomeD [OF that] assms(2) by (force simp: log_ok_def)
  have "get s k = Inr (Some v)" if "(k, v) \<in> set log" for k v
  proof -
    have "k \<in> fst ` set (rev log)" using that by force
    then obtain v' where v': "map_of (rev log) k = Some v'" by (metis map_of_eq_None_iff option.exhaust)
    moreover have "sha256 v = k" "v \<in> snd ` set log" using that assms(2) by (force simp: log_ok_def)+
    ultimately have "v' = v" using addr [OF v'] assms(4) by (auto dest: inj_onD)
    then show ?thesis using get [of k] v' by simp
  qed
  then show "log_in (look_of get s) log" by (auto simp: log_in_def look_of_def)
  show "get s k = Inr (Some v)" if old: "get s0 k = Inr (Some v)" for k v
  proof (cases "map_of (rev log) k")
    case (Some v')
    have "sha256 v = k" using assms(3) old by (simp add: addressed_def)
    then have "v' = v" using addr [OF Some] assms(4) old by (auto dest: inj_onD)
    then show ?thesis using get [of k] Some by simp
  qed (use get [of k] old in simp)
  show "addressed sha256 s" using assms(3) get addr by (auto simp: addressed_def split: option.splits)
qed

lemma batch_build_in_store:
  assumes "healthy (bb_store b)" "addressed sha256 (bb_store b)" "digest_32 sha256"
    "tree_room (cfg_format (bb_config b)) (sorted_unique (bb_entries b))" "readable (bb_config b) (map fst (sorted_unique (bb_entries b)))"
    "batch_build sha256 xxh64 publish_log (log_builder b) = Inr (t, nodes)"
    "inj_on sha256 ({v. \<exists>k. get (bb_store b) k = Inr (Some v)} \<union> snd ` set nodes)"
  obtains s where "batch_build sha256 xxh64 publish b = Inr (t, s)" "healthy s" "addressed sha256 s" "tr_config t = bb_config b"
    "tree_holds (look_of get s) (cfg_format (bb_config b)) (tr_root t) (sorted_unique (bb_entries b))"
    "\<And>k v. get (bb_store b) k = Inr (Some v) \<Longrightarrow> get s k = Inr (Some v)"
proof -
  obtain s where s: "batch_build sha256 xxh64 publish b = Inr (t, s)" "mirrors (bb_store b) s nodes"
    using batch_build_result [OF assms(1), of sha256 xxh64] assms(6) by (auto simp: same_result_def)
  have log: "log_ok sha256 nodes \<and> tr_config t = bb_config b \<and>
    (\<forall>look. log_in look nodes \<longrightarrow> tree_holds look (cfg_format (bb_config b)) (tr_root t) (sorted_unique (bb_entries b)))"
    using batch_build_log_holds [OF assms(6,3)] assms(4,5) by (simp add: log_builder_def log_ok_def)
  note reads = mirrors_reads [OF s(2) conjunct1 [OF log] assms(2,7)]
  show thesis
    by (rule that [OF s(1) _ reads(3)]) (use s(2) log reads(1,2) in \<open>auto simp: mirrors_def\<close>)
qed

end

interpretation mem_publish: publishing_store mem_get mem_batch_put mem_ok mem_publish_nodes
  by unfold_locales (simp add: mem_publish_nodes_def publish_nodes_def publication_new_def)

section \<open>Properties\<close>

text \<open>
  C3 (\<open>BatchBuilder::add\<close>, \<open>BatchBuilder::build\<close>).  A bulk build publishes a tree that holds
  exactly what was added: the entries in strictly increasing order of keys, each key with the
  last value added for it.  The input may have any order and duplicates; the nodes are written
  to an in-memory store, whose earlier contents stay readable.  The hypotheses bound the
  input (below \<open>2 ^ 60\<close> bytes, nodes and prefix-compressed keys below 4 GiB), say that SHA-256
  gives 32 bytes, and that it has no collision among the bytes in the store and the published nodes.
\<close>

theorem batch_build_correct:
  assumes "mem_ok (bb_store b)" "mem.addressed sha256 (bb_store b)" "digest_32 sha256"
    "tree_room (cfg_format (bb_config b)) (sorted_unique (bb_entries b))" "readable (bb_config b) (map fst (sorted_unique (bb_entries b)))"
    "batch_build sha256 xxh64 publish_log (log_builder b) = Inr (t, nodes)"
    "inj_on sha256 ({v. \<exists>k. mem_get (bb_store b) k = Inr (Some v)} \<union> snd ` set nodes)"
  shows "\<exists>s. batch_build sha256 xxh64 mem_publish_nodes b = Inr (t, s) \<and> mem_ok s \<and> tr_config t = bb_config b \<and>
    tree_holds (look_of mem_get s) (cfg_format (bb_config b)) (tr_root t) (sorted_unique (bb_entries b)) \<and>
    sorted_wrt (<) (map fst (sorted_unique (bb_entries b))) \<and> map_of (sorted_unique (bb_entries b)) = map_of (rev (bb_entries b)) \<and>
    (\<forall>k v. mem_get (bb_store b) k = Inr (Some v) \<longrightarrow> mem_get s k = Inr (Some v))"
  by (rule mem_publish.batch_build_in_store [OF assms]) (use sorted_unique_ok(1,2) [of "bb_entries b"] in blast)

definition one_entry :: "mem_store batch_builder" where
  "one_entry = batch_add [1] [2] (batch_builder_new mem_new config_default)"

abbreviation zero_sha :: hash256 where
  "zero_sha \<equiv> \<lambda>bs. replicate 32 0"

lemma one_entry_fields [simp]:
  "bb_store one_entry = mem_new" "bb_config one_entry = config_default" "bb_entries one_entry = [([1], [2])]"
  "bb_origin one_entry = TreeBuild"
  by (simp_all add: one_entry_def batch_add_def batch_builder_new_def batch_builder_new_with_origin_def)

lemma one_entry_unique [simp]: "sorted_unique [e] = [e]"
  by (simp add: sorted_unique_def push_unique_def)

lemma default_config_facts:
  "cfg_format config_default = tree_format_default" "name_len tree_format_default = 0" "unat (hard_max config_default) = 16777216"
  "registered tree_format_default"
  by (simp_all add: config_default_def hard_max_def tree_format_default_def chunking_default_def entry_count_key_hash_def name_len_def)

lemma one_entry_room: "tree_room tree_format_default [([1], [2])]" "readable config_default [[1]]"
  using default_config_facts by (simp_all add: tree_room_def readable_def)

lemma one_entry_log:
  "\<exists>t bs. batch_build sha256 xxh64 publish_log (log_builder one_entry) = Inr (t, [(sha256 bs, bs)])"
proof -
  note f = default_config_facts
  have room: "level_room (cfg_format config_default) 0 (map leaf_item [([1], [2])])"
    using leaf_level_room [OF one_entry_room(1)] by (simp add: f(1))
  then have lev: "level_ok (cfg_format config_default) 0 [leaf_item ([1], [2])]" by (simp add: level_room_def)
  have "ilen (cfg_format config_default) 0 [leaf_item ([1], [2])] \<le> unat (hard_max config_default)"
    using ilen_bound_len [OF lev] f by (simp add: bound_len_def leaf_item_def)
  from level_groups_single [OF lev this] have "parallel_chunk sha256 xxh64 publish_log config_default TreeBuild [([1], [2])] [] =
      Inr ([summary_of sha256 tree_format_default 0 [leaf_item ([1], [2])]], group_entries sha256 tree_format_default 0 [[leaf_item ([1], [2])]])"
    using parallel_chunk_eq [OF room, of sha256 xxh64 publish_log TreeBuild "[]"] persist_log [of "[]" sha256 tree_format_default 0 "[[leaf_item ([1], [2])]]" TreeBuild] by (simp add: f(1))
  then show ?thesis by (simp add: batch_build_def log_builder_def build_from_chunks_def group_entries_def)
qed

lemma one_entry_ready:
  obtains t nodes where "mem_ok (bb_store one_entry)" "mem.addressed zero_sha (bb_store one_entry)" "digest_32 zero_sha"
    "tree_room (cfg_format (bb_config one_entry)) (sorted_unique (bb_entries one_entry))"
    "readable (bb_config one_entry) (map fst (sorted_unique (bb_entries one_entry)))"
    "batch_build zero_sha (\<lambda>seed bs. 0) publish_log (log_builder one_entry) = Inr (t, nodes)"
    "inj_on zero_sha ({v. \<exists>k. mem_get (bb_store one_entry) k = Inr (Some v)} \<union> snd ` set nodes)"
proof -
  obtain t nodes where log: "batch_build zero_sha (\<lambda>seed bs. 0) publish_log (log_builder one_entry) = Inr (t, nodes)" "length nodes = 1"
    using one_entry_log [of zero_sha "\<lambda>seed bs. 0"] by auto
  have empty: "mem_get mem_new k = Inr None" for k by (simp add: mem_new_def mem_defs)
  have "snd ` set nodes = {snd (hd nodes)}" using log(2) by (cases nodes) auto
  then have "inj_on zero_sha ({v. \<exists>k. mem_get (bb_store one_entry) k = Inr (Some v)} \<union> snd ` set nodes)"
    by (simp add: empty)
  then show thesis using that [OF _ _ _ _ _ log(1)] one_entry_room mem_new_ok
    by (auto simp: mem.addressed_def empty digest_32_def default_config_facts)
qed

theorem batch_build_correct_witness:
  "\<exists>t s. batch_build zero_sha (\<lambda>seed bs. 0) mem_publish_nodes one_entry = Inr (t, s) \<and> mem_ok s \<and>
    tree_holds (look_of mem_get s) tree_format_default (tr_root t) [([1], [2])]"
proof -
  obtain t nodes where r: "mem_ok (bb_store one_entry)" "mem.addressed zero_sha (bb_store one_entry)" "digest_32 zero_sha"
    "tree_room (cfg_format (bb_config one_entry)) (sorted_unique (bb_entries one_entry))"
    "readable (bb_config one_entry) (map fst (sorted_unique (bb_entries one_entry)))"
    "batch_build zero_sha (\<lambda>seed bs. 0) publish_log (log_builder one_entry) = Inr (t, nodes)"
    "inj_on zero_sha ({v. \<exists>k. mem_get (bb_store one_entry) k = Inr (Some v)} \<union> snd ` set nodes)" by (rule one_entry_ready)
  show ?thesis using batch_build_correct [OF r] by (auto simp: default_config_facts)
qed

end
