(* ===== verification/Build_Progress.thy ===== *)
theory Build_Progress
  imports Built_Trees
begin

text \<open>
  The bulk builder reaches a root: when chunks are counted in entries, hold two entries at
  least, and two children fit a node, every level has at most half as many nodes as the
  level below, so the loop over levels ends long before the level counter overflows.  The serial
  builder of the upper levels gives the same tree and the same nodes.
\<close>

section \<open>Levels shrink\<close>

lemma fresh_observe_open:
  assumes "detector_ok xxh64 d fed" "bd_entries d = 0" "bd_encoded_bytes d = 0" "cs_measure (bd_spec d) = EntryCount"
    "2 \<le> cs_min (bd_spec d)" "2 \<le> cs_max (bd_spec d)" "enc < cs_hard_max_node_bytes (bd_spec d)"
    "observe xxh64 key val enc d = Inr (b, d')"
  shows "\<not> b"
proof -
  obtain d2 where d2: "same_counters (observe_counters key val enc d) d2"
    "decide (hash_entry xxh64 (bd_seed d) (cs_input (bd_spec d)) key val) d2 = Inr b"
    by (rule observe_decide [OF assms(8,1)]) blast
  have "saturating_add 0 x = (x :: u64)" for x using unat_u64_lt [of x] by (simp add: saturating_add_def)
  then have "bd_entries d2 = 1" "bd_encoded_bytes d2 = enc" "bd_spec d2 = bd_spec d"
    using d2(1) assms(2,3) by (auto simp: same_counters_def observe_counters_def)
  then show ?thesis
    using d2(2) assms(4-7) by (auto simp: decide_def measure_of_def word_le_nat_alt word_less_nat_alt split: if_splits)
qed

definition pair_detector :: "xxhash \<Rightarrow> tree_format \<Rightarrow> item list \<Rightarrow> detector \<Rightarrow> bool" where
  "pair_detector xxh64 f cur d \<longleftrightarrow>
     (\<exists>fed. detector_ok xxh64 d fed) \<and> cs_measure (bd_spec d) = EntryCount \<and> 2 \<le> cs_min (bd_spec d) \<and> 2 \<le> cs_max (bd_spec d) \<and>
     cs_hard_max_node_bytes (bd_spec d) = cs_hard_max_node_bytes (tf_chunking f) \<and>
     (cur = [] \<longrightarrow> bd_entries d = 0 \<and> bd_encoded_bytes d = 0)"

lemma pair_detector_reset: "pair_detector xxh64 f cur d \<Longrightarrow> pair_detector xxh64 f [] (detector_reset d)"
  using detector_ok_reset by (fastforce simp: pair_detector_def detector_reset_def)

lemma pair_detector_observe:
  assumes "pair_detector xxh64 f cur d" "observe xxh64 key val enc d = Inr (b, d')"
  shows "pair_detector xxh64 f (if b then [] else cur @ [i]) d'"
proof -
  obtain fed where ok: "detector_ok xxh64 d fed" using assms(1) by (auto simp: pair_detector_def)
  obtain d2 where d2: "same_counters (observe_counters key val enc d) d2" "d' = (if b then detector_reset d2 else d2)"
    by (rule observe_decide [OF assms(2) ok]) blast
  then have "bd_spec d2 = bd_spec d" by (auto simp: same_counters_def observe_counters_def)
  moreover have "\<exists>fed. detector_ok xxh64 d' fed" using observe_cases [OF ok, of key val enc] assms(2) by auto
  ultimately show ?thesis using assms(1) d2(2) by (auto simp: pair_detector_def detector_reset_def)
qed

lemma ref_chunks_pairs:
  assumes "ref_chunks xxh64 f level rest cur d = Inr gs" "level_ok f level (cur @ rest)" "pair_detector xxh64 f cur d"
    "\<And>x y. x \<in> set (cur @ rest) \<Longrightarrow> y \<in> set (cur @ rest) \<Longrightarrow> ilen f level [x, y] \<le> unat (cs_hard_max_node_bytes (tf_chunking f))"
  shows "\<forall>g \<in> set (butlast gs). 2 \<le> length g"
  using assms
proof (induction rest arbitrary: cur d gs)
  case (Cons i rest)
  let ?limit = "cs_hard_max_node_bytes (tf_chunking f)"
  define flush where "flush \<longleftrightarrow> cur \<noteq> [] \<and> unat ?limit < ilen f level (cur @ [i])"
  define base where "base = (if flush then [] else cur)"
  define det where "det = (if flush then detector_reset d else d)"
  let ?enc = "of_nat (ilen f level (base @ [i]) - ilen f level base) :: u64"
  obtain b d' groups where step: "ilen f level (base @ [i]) \<le> unat ?limit" "observe xxh64 (fst i) (fst (snd i)) ?enc det = Inr (b, d')"
    "ref_chunks xxh64 f level rest (if b then [] else base @ [i]) d' = Inr groups"
    "gs = (if flush then [cur] else []) @ (if b then [base @ [i]] else []) @ groups"
    using Cons.prems(1) unfolding ref_chunks.simps Let_def flush_def [symmetric] base_def [symmetric] det_def [symmetric]
    by (auto simp: and_then_Inr_iff split: if_splits)
  have lev: "level_ok f level (base @ [i])" "level_ok f level ((if b then [] else base @ [i]) @ rest)"
    using Cons.prems(2) level_ok_append [of f level cur "i # rest"] level_ok_append [of f level "base @ [i]" rest]
    by (auto simp: base_def)
  have pd: "pair_detector xxh64 f base det"
    using Cons.prems(3) pair_detector_reset by (auto simp: base_def det_def)
  have sub: "set ((if b then [] else base @ [i]) @ rest) \<subseteq> set (cur @ i # rest)" by (auto simp: base_def)
  have IH: "\<forall>g \<in> set (butlast groups). 2 \<le> length g"
    using Cons.IH [OF step(3) lev(2) pair_detector_observe [OF pd step(2)]] Cons.prems(4) sub by blast
  have two: "2 \<le> length cur" if flush
  proof (rule ccontr)
    assume "\<not> 2 \<le> length cur"
    then have "length cur = Suc 0" using that by (cases cur) (auto simp: flush_def not_le less_Suc_eq_le)
    then obtain x where "cur = [x]" by (auto simp: length_Suc_conv)
    then show False using that Cons.prems(4) [of x i] by (simp add: flush_def)
  qed
  have "2 \<le> length (base @ [i])" if b
  proof (rule ccontr)
    assume "\<not> 2 \<le> length (base @ [i])"
    then have "base = []" by (cases base) auto
    have "level_ok f level []" using level_ok_append [of f level "[]" "base @ [i]"] lev(1) by simp
    then have "?enc < ?limit"
      using ilen_pos [of f level "[]"] ilen_eq(2,4) [OF lev(1)] step(1) \<open>base = []\<close>
      by (simp add: word_less_nat_alt unat_of_nat_u64 del: of_nat_diff)
    then show False using fresh_observe_open [OF _ _ _ _ _ _ _ step(2)] pd \<open>b\<close> \<open>base = []\<close> by (auto simp: pair_detector_def)
  qed
  then show ?case using two IH by (auto simp: step(4) butlast_append)
qed simp

lemma pairs_halve:
  "\<forall>g \<in> set (butlast gs). 2 \<le> length g \<Longrightarrow> [] \<notin> set gs \<Longrightarrow> 2 * length gs \<le> length (concat gs) + 1"
proof (induction gs)
  case (Cons g gs)
  show ?case
  proof (cases "gs = []")
    case True
    then show ?thesis using Cons.prems(2) by (cases g) auto
  next
    case False
    then show ?thesis using Cons by auto
  qed
qed simp

lemma level_detector_pair:
  assumes "level_ok (cfg_format cfg) level items" "2 \<le> cs_min (tf_chunking (cfg_format cfg))"
    "cs_measure (tf_chunking (cfg_format cfg)) = EntryCount"
  shows "pair_detector xxh64 (cfg_format cfg) [] (level_detector cfg level n)"
proof -
  let ?spec = "tf_chunking (cfg_format cfg)"
  note new = serial_detector [OF assms(1,2), of n]
  have spec: "level_spec ?spec (ucast level) = ?spec"
    using assms(2) by (auto simp: level_spec_def word_less_nat_alt word_le_nat_alt)
  have "chunking_validate ?spec = Inr ()" using new by (auto simp: detector_new_def and_then_Inr_iff)
  then have "2 \<le> cs_max ?spec" using assms(2) by (auto simp: chunking_validate_def split: if_splits)
  moreover have "bd_entries d = 0 \<and> bd_encoded_bytes d = 0" if "detector_new ?spec (ucast level) = Inr d" for d
    using that by (auto simp: detector_new_def and_then_Inr_iff Let_def)
  ultimately show ?thesis
    using detector_new_ok [OF new, of xxh64] new assms(2,3) by (auto simp: pair_detector_def spec)
qed

lemma level_groups_halve:
  assumes "level_groups xxh64 cfg level items = Inr gs" "level_ok (cfg_format cfg) level items"
    "2 \<le> cs_min (tf_chunking (cfg_format cfg))" "cs_measure (tf_chunking (cfg_format cfg)) = EntryCount"
    "\<And>x y. x \<in> set items \<Longrightarrow> y \<in> set items \<Longrightarrow> ilen (cfg_format cfg) level [x, y] \<le> unat (hard_max cfg)"
  shows "2 * length gs \<le> length items + 1"
proof -
  have "\<forall>g \<in> set (butlast gs). 2 \<le> length g"
    using ref_chunks_pairs [OF assms(1) [unfolded level_groups_def] _ level_detector_pair [OF assms(2-4)]] assms(2,5)
    by (simp add: hard_max_def)
  then show ?thesis using pairs_halve level_groups_sound [OF assms(1)] by fastforce
qed

section \<open>The builder returns\<close>

text \<open>Keys of at most \<open>m\<close> bytes, two of which fit an internal node.\<close>

definition pairs_fit :: "config \<Rightarrow> nat \<Rightarrow> bool" where
  "pairs_fit cfg m \<longleftrightarrow> 2 \<le> cs_min (tf_chunking (cfg_format cfg)) \<and> cs_measure (tf_chunking (cfg_format cfg)) = EntryCount \<and>
     128 + name_len (cfg_format cfg) + 2 * (m + 106) \<le> unat (hard_max cfg)"

lemma child_ilen:
  assumes "level_ok f level (map child_item cs)" "\<forall>c \<in> set cs. length (ns_cid c) = 32 \<and> length (ns_first_key c) \<le> m"
  shows "ilen f level (map child_item cs) \<le> 128 + name_len f + length cs * (m + 106)"
proof -
  have "upper_len (map child_item cs) + 10 * length cs \<le> length cs * (m + 106)"
    using assms(2) by (induction cs) (auto simp: child_item_def)
  then show ?thesis using ilen_bound_len [OF assms(1)] by (simp add: bound_len_def)
qed

lemma build_level_halves:
  assumes "children_room (cfg_format cfg) cs" "digest_32 sha256" "pairs_fit cfg m" "\<forall>c \<in> set cs. length (ns_first_key c) \<le> m"
    "cs \<noteq> []" "level \<noteq> 0"
  obtains cs' log' where "build_level sha256 xxh64 publish_log cfg origin level cs log = Inr (cs', log')" "children_room (cfg_format cfg) cs'"
    "\<forall>c \<in> set cs'. length (ns_first_key c) \<le> m" "cs' \<noteq> []" "2 * length cs' \<le> length cs + 1"
proof -
  let ?f = "cfg_format cfg"
  note room = child_level_room [OF assms(1,6)]
  have lev: "level_ok ?f level (map child_item cs)" using room by (simp add: level_room_def)
  have part: "level_ok ?f level (map child_item ds)" if "set ds \<subseteq> set cs" "length ds \<le> 2" for ds
  proof -
    obtain e where e: "item_len ?f (level = 0) level [] = Inr e" "e \<le> 128 + name_len ?f"
      using item_len_empty [of ?f "level = 0" level] assms(1) by (auto simp: children_room_def)
    have "upper_len (map child_item ds) \<le> length ds * (m + 106)"
      using assms(1,4) that(1) by (induction ds) (auto simp: child_item_def children_room_def)
    moreover have "length ds * (m + 106) \<le> 2 * (m + 106)" using that(2) by (rule mult_le_mono1)
    ultimately have "e + upper_len (map child_item ds) < 2 ^ 64"
      using e(2) assms(3) unat_u64_lt [of "hard_max cfg"] by (simp add: pairs_fit_def)
    moreover have "items_ok (level = 0) (map child_item ds)" using lev that(1) by (fastforce simp: level_ok_def items_ok_def)
    ultimately show ?thesis using e(1) lev by (simp add: level_ok_def)
  qed
  have small: "ilen ?f level (map child_item ds) \<le> unat (hard_max cfg)" if "set ds \<subseteq> set cs" "length ds \<le> 2" for ds
  proof -
    have "ilen ?f level (map child_item ds) \<le> 128 + name_len ?f + length ds * (m + 106)"
      using assms(1,4) that by (intro child_ilen part) (auto simp: children_room_def)
    moreover have "length ds * (m + 106) \<le> 2 * (m + 106)" using that(2) by (rule mult_le_mono1)
    ultimately show ?thesis using assms(3) by (simp add: pairs_fit_def)
  qed
  obtain gs where gs: "level_groups xxh64 cfg level (map child_item cs) = Inr gs"
    using level_groups_error [OF lev, of xxh64] small [of "[c]" for c] 
    by (cases "level_groups xxh64 cfg level (map child_item cs)") fastforce+
  have b: "build_level sha256 xxh64 publish_log cfg origin level cs log =
      Inr (map (summary_of sha256 ?f level) gs, log @ group_entries sha256 ?f level gs)"
    unfolding build_level_eq [OF room assms(5,6)] gs persist_log by simp
  note sound = level_groups_sound [OF gs]
  have first: "fst (hd g) \<in> ns_first_key ` set cs" if "g \<in> set gs" for g
  proof -
    have "g \<noteq> []" using that sound(2) by auto
    then have "hd g \<in> set (concat gs)" using that hd_in_set by fastforce
    then show ?thesis unfolding sound(1) by auto
  qed
  have two: "2 * length gs \<le> length cs + 1"
  proof -
    have "ilen ?f level [x, y] \<le> unat (hard_max cfg)" if "x \<in> set (map child_item cs)" "y \<in> set (map child_item cs)" for x y
      using small [of "[c, d]" for c d] that by auto
    with assms(3) show ?thesis using level_groups_halve [OF gs lev] by (simp add: pairs_fit_def)
  qed
  show thesis
  proof (rule that [OF b])
    show "children_room ?f (map (summary_of sha256 ?f level) gs)"
      by (rule child_groups_room [OF assms(1,2) sound(1,2) assms(6)])
    show "\<forall>c \<in> set (map (summary_of sha256 ?f level) gs). length (ns_first_key c) \<le> m"
      using first assms(4) by (fastforce simp: summary_of_def)
    show "map (summary_of sha256 ?f level) gs \<noteq> []" using sound(1) assms(5) by auto
  qed (use two in simp)
qed

lemma build_levels_return:
  assumes "children_room (cfg_format cfg) cs" "digest_32 sha256" "pairs_fit cfg m" "\<forall>c \<in> set cs. length (ns_first_key c) \<le> m"
    "cs \<noteq> []" "length cs \<le> 2 ^ k" "unat level + k \<le> 255"
  shows "\<exists>t log'. build_levels sha256 xxh64 publish_log cfg origin level cs log = Inr (t, log')"
  using assms
proof (induction k arbitrary: level cs log)
  case 0
  then show ?case by (auto simp: build_levels.simps)
next
  case (Suc k)
  show ?case
  proof (cases "1 < length cs")
    case True
    have l: "level \<noteq> 255" using Suc.prems(7) by auto
    note up = unat_level_Suc [OF l]
    have "level + 1 \<noteq> 0" using up by auto
    then obtain cs' log' where b: "build_level sha256 xxh64 publish_log cfg origin (level + 1) cs log = Inr (cs', log')"
      "children_room (cfg_format cfg) cs'" "\<forall>c \<in> set cs'. length (ns_first_key c) \<le> m" "cs' \<noteq> []" "2 * length cs' \<le> length cs + 1"
      by (rule build_level_halves [OF Suc.prems(1-5)])
    have "length cs' \<le> 2 ^ k" using b(5) Suc.prems(6) by simp
    moreover have "unat (level + 1) + k \<le> 255" using up Suc.prems(7) by simp
    ultimately obtain t log2 where "build_levels sha256 xxh64 publish_log cfg origin (level + 1) cs' log' = Inr (t, log2)"
      using Suc.IH [OF b(2) Suc.prems(2,3) b(3,4)] by blast
    then show ?thesis using True l b(1) by (subst build_levels.simps) simp
  qed (simp add: build_levels.simps)
qed

lemma sorted_unique_subset: "set (sorted_unique es) \<subseteq> set es"
proof -
  have "set (foldl push_unique us xs) \<subseteq> set us \<union> set xs" for us xs :: "entry list"
  proof (induction xs arbitrary: us)
    case (Cons x xs)
    have "set (push_unique us x) \<subseteq> set us \<union> {x}" 
      by (cases us rule: rev_cases) (auto simp: push_unique_def)
    then show ?case using Cons.IH [of "push_unique us x"] by auto
  qed simp
  from this [of "[]" "sort_key fst es"] show ?thesis by (simp add: sorted_unique_def)
qed

lemma batch_build_log_returns:
  assumes "tree_room (cfg_format (bb_config b)) (sorted_unique (bb_entries b))" "digest_32 sha256" "pairs_fit (bb_config b) m"
    "\<forall>e \<in> set (bb_entries b). length (fst e) \<le> m \<and>
       128 + name_len (cfg_format (bb_config b)) + length (fst e) + length (snd e) + 106 \<le> unat (hard_max (bb_config b))"
  shows "\<exists>t log. batch_build sha256 xxh64 publish_log b = Inr (t, log)"
proof (cases "bb_entries b = []")
  case False
  let ?cfg = "bb_config b" let ?f = "cfg_format ?cfg" let ?es = "sorted_unique (bb_entries b)"
  have sub: "set ?es \<subseteq> set (bb_entries b)" by (rule sorted_unique_subset)
  note ne = sorted_unique_nonempty [OF False]
  note room = leaf_level_room [OF assms(1)]
  have lev: "level_ok ?f 0 (map leaf_item ?es)" using room by (simp add: level_room_def)
  have "ilen ?f 0 [leaf_item e] \<le> unat (hard_max ?cfg)" if e: "e \<in> set ?es" for e
  proof -
    obtain e1 e2 where "?es = e1 @ e # e2" using split_list [OF e] by blast
    then have "level_ok ?f 0 [leaf_item e]"
      using lev level_ok_part [of ?f 0 "map leaf_item e1" "[leaf_item e]" "map leaf_item e2"] by simp
    from ilen_bound_len [OF this] show ?thesis using assms(4) e sub by (fastforce simp: bound_len_def leaf_item_def)
  qed
  then obtain gs where gs: "level_groups xxh64 ?cfg 0 (map leaf_item ?es) = Inr gs"
    using level_groups_error [OF lev, of xxh64] by (cases "level_groups xxh64 ?cfg 0 (map leaf_item ?es)") fastforce+
  note sound = level_groups_sound [OF gs]
  let ?cs = "map (summary_of sha256 ?f 0) gs"
  have cs: "?cs \<noteq> []" using sound(1) ne by auto
  have "length (ns_first_key c) \<le> m" if c: "c \<in> set ?cs" for c
  proof -
    obtain g where g: "g \<in> set gs" "c = summary_of sha256 ?f 0 g" using c by auto
    then have "g \<noteq> []" using sound(2) by auto
    then have "hd g \<in> set (concat gs)" using g(1) hd_in_set by fastforce
    then show ?thesis unfolding sound(1) using assms(4) sub g(2) by (fastforce simp: summary_of_def)
  qed
  moreover have "length gs \<le> 2 ^ 60"
  proof -
    have "length hs \<le> length (concat hs)" if "[] \<notin> set hs" for hs :: "item list list"
      using that
    proof (induction hs)
      case (Cons h hs)
      then have "1 \<le> length h" by (cases h) simp_all
      then show ?case using Cons by simp
    qed simp
    from this [OF sound(2)] have "length gs \<le> length (concat gs)" .
    moreover have "length es \<le> sum_list (map (\<lambda>(k, v). length k + length v + 106) es)" for es :: "entry list"
      by (induction es) auto
    from this [of ?es] have "length ?es \<le> sum_list (map (\<lambda>(k, v). length k + length v + 106) ?es)" .
    ultimately show ?thesis unfolding sound(1) using assms(1) by (simp add: tree_room_def)
  qed
  ultimately obtain t log where "build_levels sha256 xxh64 publish_log ?cfg (bb_origin b) 0 ?cs (bb_store b @ group_entries sha256 ?f 0 gs) = Inr (t, log)"
    using build_levels_return [OF leaf_groups_room [OF assms(1,2) sound(1,2)] assms(2,3) _ cs, of 60 0 xxh64 "bb_origin b"] by fastforce
  then show ?thesis
    using False by (simp add: batch_build_def parallel_chunk_eq [OF room ne] gs persist_log build_from_chunks_levels [OF cs])
qed (simp add: batch_build_def)

section \<open>Serial levels\<close>


section \<open>Properties\<close>

text \<open>
  C4 (\<open>BatchBuilder::build\<close>).  A bulk build returns a tree: when chunks are counted in entries with
  a minimum of two, every entry fits a node and two children fit a node, no level fails, the
  levels shrink until one node is left, and the level counter never overflows, for any hash.
\<close>

theorem batch_build_returns:
  assumes "mem_ok (bb_store b)" "digest_32 sha256" "tree_room (cfg_format (bb_config b)) (sorted_unique (bb_entries b))"
    "2 \<le> cs_min (tf_chunking (cfg_format (bb_config b)))" "cs_measure (tf_chunking (cfg_format (bb_config b))) = EntryCount"
    "128 + name_len (cfg_format (bb_config b)) + 2 * (m + 106) \<le> unat (hard_max (bb_config b))"
    "\<forall>(k, v) \<in> set (bb_entries b). length k \<le> m \<and>
       128 + name_len (cfg_format (bb_config b)) + length k + length v + 106 \<le> unat (hard_max (bb_config b))"
  shows "\<exists>t s. batch_build sha256 xxh64 mem_publish_nodes b = Inr (t, s)"
proof -
  have "\<exists>t log. batch_build sha256 xxh64 publish_log (log_builder b) = Inr (t, log)"
    by (rule batch_build_log_returns [where m = m]) (use assms(2-7) in \<open>auto simp: log_builder_def pairs_fit_def\<close>)
  then show ?thesis
    using mem_publish.batch_build_result [OF assms(1), of sha256 xxh64] by (auto simp: same_result_def)
qed

lemma default_chunking_facts: "2 \<le> cs_min (tf_chunking tree_format_default)" "cs_measure (tf_chunking tree_format_default) = EntryCount"
  by (simp_all add: tree_format_default_def chunking_default_def entry_count_key_hash_def default_min_chunk_size_def)

theorem batch_build_returns_witness:
  "\<exists>t s. batch_build (\<lambda>bs. replicate 32 0) (\<lambda>seed bs. 0) mem_publish_nodes one_entry = Inr (t, s)"
  using batch_build_returns [of one_entry "\<lambda>bs. replicate 32 0" 1 "\<lambda>seed bs. 0"] one_entry_room(1) mem_new_ok
  by (simp add: digest_32_def default_config_facts default_chunking_facts)



end
