(* ===== verification/Node_Cache.thy ===== *)
theory Node_Cache
  imports Read_Decode "HOL-Library.AList"
begin

text \<open>
  The in-process cache of immutable nodes (\<open>NodeCache\<close> of \<^verbatim>\<open>src/src/prolly/mod.rs\<close>): entries with an
  owned and a packed form, an access log of (identifier, generation) pairs that orders
  eviction, pins that exempt an entry, and limits on nodes and bytes.  The hash map is an
  association list with distinct keys; its iteration order is never observed.  A \<open>usize\<close>
  counter is a 64-bit word.
\<close>

section \<open>Definitions\<close>

record node_cache_entry =
  ce_owned :: "node option"
  ce_read :: "read_node option"
  ce_generation :: u64
  ce_bytes :: u64
  ce_pinned :: bool

record node_cache =
  nc_max_nodes :: "nat option"
  nc_max_bytes :: "u64 option"
  nc_nodes :: "(cid \<times> node_cache_entry) list"
  nc_access_log :: "(cid \<times> u64) list"
  nc_next_generation :: u64
  nc_bytes :: u64
  nc_read_nodes :: u64

record cache_usage =
  cu_entries :: nat
  cu_serialized_bytes :: u64
  cu_pinned_entries :: nat
  cu_pinned_serialized_bytes :: u64

definition cache_new :: "nat option \<Rightarrow> u64 option \<Rightarrow> node_cache" where
  "cache_new max_nodes max_bytes =
     \<lparr>nc_max_nodes = max_nodes, nc_max_bytes = max_bytes, nc_nodes = [], nc_access_log = [],
      nc_next_generation = 0, nc_bytes = 0, nc_read_nodes = 0\<rparr>"

definition cache_len :: "node_cache \<Rightarrow> nat" where
  "cache_len c = length (nc_nodes c)"

definition has_read_nodes :: "node_cache \<Rightarrow> bool" where
  "has_read_nodes c \<longleftrightarrow> 0 < nc_read_nodes c"

definition pinned_len :: "node_cache \<Rightarrow> nat" where
  "pinned_len c = length (filter (\<lambda>(cid, e). ce_pinned e) (nc_nodes c))"

definition entries_bytes :: "(cid \<times> node_cache_entry) list \<Rightarrow> nat" where
  "entries_bytes nodes = sum_list (map (\<lambda>(cid, e). unat (ce_bytes e)) nodes)"

definition pinned_bytes_len :: "node_cache \<Rightarrow> error + u64" where
  "pinned_bytes_len c =
     (let b = entries_bytes (filter (\<lambda>(cid, e). ce_pinned e) (nc_nodes c)) in
      if 2 ^ 64 \<le> b then Inl (Panic ''attempt to add with overflow'') else Inr (of_nat b))"

definition usage :: "node_cache \<Rightarrow> error + cache_usage" where
  "usage c = and_then (pinned_bytes_len c) (\<lambda>b.
     Inr \<lparr>cu_entries = cache_len c, cu_serialized_bytes = nc_bytes c, cu_pinned_entries = pinned_len c, cu_pinned_serialized_bytes = b\<rparr>)"

definition is_unbounded :: "node_cache \<Rightarrow> bool" where
  "is_unbounded c \<longleftrightarrow> nc_max_nodes c = None \<and> nc_max_bytes c = None"

definition is_disabled :: "node_cache \<Rightarrow> bool" where
  "is_disabled c \<longleftrightarrow> nc_max_nodes c = Some 0 \<or> nc_max_bytes c = Some 0"

text \<open>\<open>OnceLock::get_or_init\<close> of the owned form from the packed one.\<close>

definition owned_or_init :: "node_cache_entry \<Rightarrow> error + node \<times> node_cache_entry" where
  "owned_or_init e =
     (case ce_owned e of
        Some n \<Rightarrow> Inr (n, e)
      | None \<Rightarrow> (case ce_read e of
          None \<Rightarrow> Inl (Panic ''cache entry has one representation'')
        | Some r \<Rightarrow> (case read_to_owned r of
            None \<Rightarrow> Inl (Panic ''index out of bounds'')
          | Some n \<Rightarrow> Inr (n, e\<lparr>ce_owned := Some n\<rparr>))))"

definition cache_peek :: "cid \<Rightarrow> node_cache \<Rightarrow> error + node option \<times> node_cache" where
  "cache_peek cid c =
     (case map_of (nc_nodes c) cid of
        None \<Rightarrow> Inr (None, c)
      | Some e \<Rightarrow> and_then (owned_or_init e) (\<lambda>(n, e). Inr (Some n, c\<lparr>nc_nodes := AList.update cid e (nc_nodes c)\<rparr>)))"

definition peek_read :: "cid \<Rightarrow> node_cache \<Rightarrow> read_node option" where
  "peek_read cid c = Option.bind (map_of (nc_nodes c) cid) ce_read"

definition cache_clear :: "node_cache \<Rightarrow> nat \<times> node_cache" where
  "cache_clear c = (length (nc_nodes c), c\<lparr>nc_nodes := [], nc_access_log := [], nc_bytes := 0, nc_read_nodes := 0\<rparr>)"

definition entries_read :: "(cid \<times> node_cache_entry) list \<Rightarrow> nat" where
  "entries_read nodes = length (filter (\<lambda>(cid, e). ce_read e \<noteq> None) nodes)"

definition clear_unpinned :: "node_cache \<Rightarrow> error + nat \<times> node_cache" where
  "clear_unpinned c =
     (let kept = filter (\<lambda>(cid, e). ce_pinned e) (nc_nodes c) in
      if 2 ^ 64 \<le> entries_bytes kept then Inl (Panic ''attempt to add with overflow'')
      else Inr (length (nc_nodes c) - length kept,
        c\<lparr>nc_nodes := kept, nc_access_log := [], nc_bytes := of_nat (entries_bytes kept), nc_read_nodes := of_nat (entries_read kept)\<rparr>))"

definition next_generation :: "node_cache \<Rightarrow> u64 \<times> node_cache" where
  "next_generation c = (nc_next_generation c + 1, c\<lparr>nc_next_generation := nc_next_generation c + 1\<rparr>)"

definition exceeds_limit :: "node_cache \<Rightarrow> bool" where
  "exceeds_limit c \<longleftrightarrow>
     (case nc_max_nodes c of None \<Rightarrow> False | Some max_nodes \<Rightarrow> max_nodes < length (nc_nodes c)) \<or>
     (case nc_max_bytes c of None \<Rightarrow> False | Some max_bytes \<Rightarrow> max_bytes < nc_bytes c)"

definition remove_entry :: "cid \<Rightarrow> node_cache \<Rightarrow> nat \<times> node_cache" where
  "remove_entry cid c =
     (case map_of (nc_nodes c) cid of
        None \<Rightarrow> (0, c)
      | Some e \<Rightarrow> (1, c\<lparr>nc_nodes := AList.delete cid (nc_nodes c),
          nc_read_nodes := saturating_sub (nc_read_nodes c) (of_bool (ce_read e \<noteq> None)),
          nc_bytes := saturating_sub (nc_bytes c) (ce_bytes e)\<rparr>))"

function evict_loop :: "nat \<Rightarrow> nat \<Rightarrow> node_cache \<Rightarrow> nat \<times> node_cache" where
  "evict_loop evicted scanned c =
     (if \<not> exceeds_limit c then (evicted, c)
      else case nc_access_log c of
        [] \<Rightarrow> (evicted, c)
      | (cid, generation) # rest \<Rightarrow>
          let c1 = c\<lparr>nc_access_log := rest\<rparr> in
          case map_of (nc_nodes c) cid of
            None \<Rightarrow> evict_loop evicted scanned c1
          | Some e \<Rightarrow>
              if ce_generation e \<noteq> generation then evict_loop evicted scanned c1
              else if ce_pinned e then
                let c2 = c1\<lparr>nc_access_log := rest @ [(cid, generation)]\<rparr> in
                if length (nc_access_log c2) \<le> scanned + 1 then (evicted, c2)
                else evict_loop evicted (scanned + 1) c2
              else let (n, c2) = remove_entry cid c1 in evict_loop (evicted + n) 0 c2)"
  by pat_completeness auto

termination
  by (relation "measures [\<lambda>(evicted, scanned, c). length (nc_access_log c),
      \<lambda>(evicted, scanned, c). length (nc_access_log c) - scanned]")
    (auto simp: remove_entry_def split: option.splits)

declare evict_loop.simps [simp del]

definition evict_to_limit :: "node_cache \<Rightarrow> nat \<times> node_cache" where
  "evict_to_limit c = evict_loop 0 0 c"

definition compact_access_log_if_needed :: "node_cache \<Rightarrow> node_cache" where
  "compact_access_log_if_needed c =
     (if length (nc_access_log c) \<le> max (4 * length (nc_nodes c)) 64 then c
      else c\<lparr>nc_access_log := filter (\<lambda>(cid, generation).
        case map_of (nc_nodes c) cid of None \<Rightarrow> False | Some e \<Rightarrow> ce_generation e = generation) (nc_access_log c)\<rparr>)"

definition node_cache_get :: "cid \<Rightarrow> node_cache \<Rightarrow> error + node option \<times> node_cache" where
  "node_cache_get cid c =
     (if is_unbounded c then cache_peek cid c
      else case map_of (nc_nodes c) cid of
        None \<Rightarrow> Inr (None, c)
      | Some e \<Rightarrow>
          let (generation, c) = next_generation c in
          and_then (owned_or_init (e\<lparr>ce_generation := generation\<rparr>)) (\<lambda>(n, e).
          Inr (Some n, compact_access_log_if_needed
            (c\<lparr>nc_nodes := AList.update cid e (nc_nodes c), nc_access_log := nc_access_log c @ [(cid, generation)]\<rparr>))))"

definition get_read :: "cid \<Rightarrow> node_cache \<Rightarrow> read_node option \<times> node_cache" where
  "get_read cid c =
     (if is_unbounded c then (peek_read cid c, c)
      else case map_of (nc_nodes c) cid of
        None \<Rightarrow> (None, c)
      | Some e \<Rightarrow> (case ce_read e of
          None \<Rightarrow> (None, c)
        | Some r \<Rightarrow>
            let (generation, c) = next_generation c in
            (Some r, compact_access_log_if_needed
              (c\<lparr>nc_nodes := AList.update cid (e\<lparr>ce_generation := generation\<rparr>) (nc_nodes c),
                 nc_access_log := nc_access_log c @ [(cid, generation)]\<rparr>))))"

definition insert_owned_with_pin :: "cid \<Rightarrow> node \<Rightarrow> u64 \<Rightarrow> bool \<Rightarrow> node_cache \<Rightarrow> (bool \<times> nat) \<times> node_cache" where
  "insert_owned_with_pin cid node bytes pinned c =
     (if nc_max_nodes c = Some 0 \<or> nc_max_bytes c = Some 0 then (case cache_clear c of (n, c) \<Rightarrow> ((False, n), c))
      else let (generation, c) = next_generation c;
               previous = map_of (nc_nodes c) cid;
               kept = (case previous of None \<Rightarrow> False | Some p \<Rightarrow> ce_pinned p);
               newly_pinned = (pinned \<and> \<not> kept);
               entry = \<lparr>ce_owned = Some node, ce_read = None, ce_generation = generation, ce_bytes = bytes, ce_pinned = pinned \<or> kept\<rparr>;
               c = c\<lparr>nc_nodes := AList.update cid entry (nc_nodes c)\<rparr>;
               c = (case previous of None \<Rightarrow> c
                    | Some p \<Rightarrow> c\<lparr>nc_read_nodes := saturating_sub (nc_read_nodes c) (of_bool (ce_read p \<noteq> None)),
                        nc_bytes := saturating_sub (nc_bytes c) (ce_bytes p)\<rparr>);
               c = c\<lparr>nc_bytes := saturating_add (nc_bytes c) bytes\<rparr> in
        if is_unbounded c then ((newly_pinned, 0), c)
        else let (evicted, c) = evict_to_limit (c\<lparr>nc_access_log := nc_access_log c @ [(cid, generation)]\<rparr>) in
          ((newly_pinned, evicted), compact_access_log_if_needed c))"

definition cache_insert :: "cid \<Rightarrow> node \<Rightarrow> u64 \<Rightarrow> node_cache \<Rightarrow> nat \<times> node_cache" where
  "cache_insert cid node bytes c = (case insert_owned_with_pin cid node bytes False c of ((p, n), c) \<Rightarrow> (n, c))"

definition insert_pinned :: "cid \<Rightarrow> node \<Rightarrow> u64 \<Rightarrow> node_cache \<Rightarrow> (bool \<times> nat) \<times> node_cache" where
  "insert_pinned cid node bytes c = insert_owned_with_pin cid node bytes True c"

definition insert_read_with_pin :: "cid \<Rightarrow> read_node \<Rightarrow> bool \<Rightarrow> node_cache \<Rightarrow> (bool \<times> nat) \<times> node_cache" where
  "insert_read_with_pin cid node pinned c =
     (if is_disabled c then (case cache_clear c of (n, c) \<Rightarrow> ((False, n), c))
      else let (generation, c) = next_generation c;
               retained = of_nat (retained_bytes node);
               previous = map_of (nc_nodes c) cid;
               kept = (case previous of None \<Rightarrow> False | Some p \<Rightarrow> ce_pinned p);
               newly_pinned = (pinned \<and> \<not> kept);
               entry = \<lparr>ce_owned = None, ce_read = Some node, ce_generation = generation, ce_bytes = retained, ce_pinned = pinned \<or> kept\<rparr>;
               c = c\<lparr>nc_nodes := AList.update cid entry (nc_nodes c)\<rparr>;
               c = (case previous of None \<Rightarrow> c\<lparr>nc_read_nodes := saturating_add (nc_read_nodes c) 1\<rparr>
                    | Some p \<Rightarrow> c\<lparr>nc_read_nodes := (if ce_read p = None then saturating_add (nc_read_nodes c) 1 else nc_read_nodes c),
                        nc_bytes := saturating_sub (nc_bytes c) (ce_bytes p)\<rparr>);
               c = c\<lparr>nc_bytes := saturating_add (nc_bytes c) retained\<rparr> in
        if is_unbounded c then ((newly_pinned, 0), c)
        else let (evicted, c) = evict_to_limit (c\<lparr>nc_access_log := nc_access_log c @ [(cid, generation)]\<rparr>) in
          ((newly_pinned, evicted), compact_access_log_if_needed c))"

definition insert_read :: "cid \<Rightarrow> read_node \<Rightarrow> node_cache \<Rightarrow> nat \<times> node_cache" where
  "insert_read cid node c = (case insert_read_with_pin cid node False c of ((p, n), c) \<Rightarrow> (n, c))"

definition pin_existing :: "cid \<Rightarrow> node_cache \<Rightarrow> bool \<times> node_cache" where
  "pin_existing cid c =
     (case map_of (nc_nodes c) cid of
        None \<Rightarrow> (False, c)
      | Some e \<Rightarrow> (\<not> ce_pinned e, c\<lparr>nc_nodes := AList.update cid (e\<lparr>ce_pinned := True\<rparr>) (nc_nodes c)\<rparr>))"

definition unpin_all :: "node_cache \<Rightarrow> (nat \<times> nat) \<times> node_cache" where
  "unpin_all c =
     (let unpinned = length (filter (\<lambda>(cid, e). ce_pinned e) (nc_nodes c));
          c = c\<lparr>nc_nodes := map (\<lambda>(cid, e). (cid, e\<lparr>ce_pinned := False\<rparr>)) (nc_nodes c)\<rparr>;
          (evicted, c) = evict_to_limit c in
      ((unpinned, evicted), compact_access_log_if_needed c))"

section \<open>Invariants\<close>

text \<open>The counters agree with the entries and every entry has a representation.\<close>

definition counters_ok :: "node_cache \<Rightarrow> bool" where
  "counters_ok c \<longleftrightarrow>
     distinct (map fst (nc_nodes c)) \<and> unat (nc_bytes c) = entries_bytes (nc_nodes c) \<and>
     unat (nc_read_nodes c) = entries_read (nc_nodes c) \<and>
     (\<forall>cid e. map_of (nc_nodes c) cid = Some e \<longrightarrow> ce_owned e \<noteq> None \<or> ce_read e \<noteq> None)"

text \<open>Every entry of a bounded cache is in the access log under its current generation.\<close>

definition logged :: "node_cache \<Rightarrow> bool" where
  "logged c \<longleftrightarrow> (\<forall>cid e. map_of (nc_nodes c) cid = Some e \<longrightarrow> (cid, ce_generation e) \<in> set (nc_access_log c))"

definition all_pinned :: "node_cache \<Rightarrow> bool" where
  "all_pinned c \<longleftrightarrow> (\<forall>cid e. map_of (nc_nodes c) cid = Some e \<longrightarrow> ce_pinned e)"

definition old_bytes :: "cid \<Rightarrow> (cid \<times> node_cache_entry) list \<Rightarrow> nat" where
  "old_bytes cid nodes = (case map_of nodes cid of None \<Rightarrow> 0 | Some e \<Rightarrow> unat (ce_bytes e))"

definition old_read :: "cid \<Rightarrow> (cid \<times> node_cache_entry) list \<Rightarrow> nat" where
  "old_read cid nodes = (case map_of nodes cid of None \<Rightarrow> 0 | Some e \<Rightarrow> of_bool (ce_read e \<noteq> None))"

lemma entries_update:
  "distinct (map fst nodes) \<Longrightarrow> entries_bytes (AList.update cid e nodes) + old_bytes cid nodes = entries_bytes nodes + unat (ce_bytes e)"
  "distinct (map fst nodes) \<Longrightarrow> entries_read (AList.update cid e nodes) + old_read cid nodes = entries_read nodes + of_bool (ce_read e \<noteq> None)"
  by (induction nodes) (auto simp: entries_bytes_def entries_read_def old_bytes_def old_read_def)

lemma entries_delete:
  "distinct (map fst nodes) \<Longrightarrow> entries_bytes (AList.delete cid nodes) + old_bytes cid nodes = entries_bytes nodes"
  "distinct (map fst nodes) \<Longrightarrow> entries_read (AList.delete cid nodes) + old_read cid nodes = entries_read nodes"
proof -
  have none: "map_of xs cid = None \<Longrightarrow> AList.delete cid xs = xs" for xs :: "(cid \<times> node_cache_entry) list"
    by (induction xs) (auto split: if_splits)
  { fix nodes :: "(cid \<times> node_cache_entry) list"
    assume "distinct (map fst nodes)"
    then have "entries_bytes (AList.delete cid nodes) + old_bytes cid nodes = entries_bytes nodes \<and>
        entries_read (AList.delete cid nodes) + old_read cid nodes = entries_read nodes"
    proof (induction nodes)
      case (Cons x nodes)
      obtain k e where x: "x = (k, e)" by (cases x)
      show ?case
      proof (cases "k = cid")
        case True
        then have "map_of nodes cid = None" using Cons.prems by (auto simp: x map_of_eq_None_iff)
        from none [OF this] show ?thesis by (auto simp: x True entries_bytes_def entries_read_def old_bytes_def old_read_def)
      next
        case False
        with Cons show ?thesis by (auto simp: x entries_bytes_def entries_read_def old_bytes_def old_read_def)
      qed
    qed (simp add: entries_bytes_def entries_read_def old_bytes_def old_read_def) }
  then show "distinct (map fst nodes) \<Longrightarrow> entries_bytes (AList.delete cid nodes) + old_bytes cid nodes = entries_bytes nodes"
    "distinct (map fst nodes) \<Longrightarrow> entries_read (AList.delete cid nodes) + old_read cid nodes = entries_read nodes" by auto
qed

lemma delete_absent: "map_of nodes cid = None \<Longrightarrow> AList.delete cid nodes = nodes"
  by (induction nodes) (auto split: if_splits)

lemma remove_entry_log [simp]: "nc_access_log (snd (remove_entry cid c)) = nc_access_log c"
  by (simp add: remove_entry_def split: option.split)

lemma remove_entry_ok:
  assumes "counters_ok c"
  shows "counters_ok (snd (remove_entry cid c))"
    and remove_entry_nodes: "nc_nodes (snd (remove_entry cid c)) = AList.delete cid (nc_nodes c)"
proof -
  note ok = assms [unfolded counters_ok_def]
  show "nc_nodes (snd (remove_entry cid c)) = AList.delete cid (nc_nodes c)"
    by (simp add: remove_entry_def delete_absent split: option.split)
  show "counters_ok (snd (remove_entry cid c))"
  proof (cases "map_of (nc_nodes c) cid")
    case (Some e)
    have "unat (saturating_sub (nc_bytes c) (ce_bytes e)) = entries_bytes (AList.delete cid (nc_nodes c))"
      "unat (saturating_sub (nc_read_nodes c) (of_bool (ce_read e \<noteq> None))) = entries_read (AList.delete cid (nc_nodes c))"
      using ok entries_delete [of "nc_nodes c" cid] Some by (auto simp: unat_saturating_sub old_bytes_def old_read_def)
    then show ?thesis
      using ok Some by (auto simp: remove_entry_def counters_ok_def delete_conv' distinct_delete)
  qed (use assms in \<open>simp add: remove_entry_def\<close>)
qed

text \<open>
  What every iteration keeps holds at the end; and when the loop stops above a limit, either
  the log is empty or the last \<open>scanned\<close> entries are the whole log.
\<close>

lemma evict_loop_invariant:
  assumes "I scanned c"
    and stale: "\<And>n c cid g rest. I n c \<Longrightarrow> nc_access_log c = (cid, g) # rest \<Longrightarrow>
      (\<forall>e. map_of (nc_nodes c) cid = Some e \<longrightarrow> ce_generation e \<noteq> g) \<Longrightarrow> I n (c\<lparr>nc_access_log := rest\<rparr>)"
    and rotate: "\<And>n c cid g rest e. I n c \<Longrightarrow> nc_access_log c = (cid, g) # rest \<Longrightarrow>
      map_of (nc_nodes c) cid = Some e \<Longrightarrow> ce_generation e = g \<Longrightarrow> ce_pinned e \<Longrightarrow> I (n + 1) (c\<lparr>nc_access_log := rest @ [(cid, g)]\<rparr>)"
    and evict: "\<And>n c cid g rest e. I n c \<Longrightarrow> nc_access_log c = (cid, g) # rest \<Longrightarrow>
      map_of (nc_nodes c) cid = Some e \<Longrightarrow> \<not> ce_pinned e \<Longrightarrow> I 0 (snd (remove_entry cid (c\<lparr>nc_access_log := rest\<rparr>)))"
  shows "\<exists>n. I n (snd (evict_loop evicted scanned c)) \<and>
    (exceeds_limit (snd (evict_loop evicted scanned c)) \<longrightarrow> length (nc_access_log (snd (evict_loop evicted scanned c))) \<le> n)"
  using assms(1)
proof (induction evicted scanned c rule: evict_loop.induct)
  case (1 evicted scanned c)
  show ?case
  proof (cases "exceeds_limit c \<and> nc_access_log c \<noteq> []")
    case False
    then show ?thesis using "1.prems" by (subst (1 2 3) evict_loop.simps) (auto split: list.split)
  next
    case True
    then obtain cid g rest where log: "nc_access_log c = (cid, g) # rest" and ex: "\<not> \<not> exceeds_limit c"
      by (cases "nc_access_log c") auto
    let ?c = "c\<lparr>nc_access_log := rest\<rparr>"
    consider "map_of (nc_nodes c) cid = None" | e where "map_of (nc_nodes c) cid = Some e" "ce_generation e \<noteq> g"
      | e where "map_of (nc_nodes c) cid = Some e" "\<not> ce_generation e \<noteq> g" "ce_pinned e"
      | e where "map_of (nc_nodes c) cid = Some e" "\<not> ce_generation e \<noteq> g" "\<not> ce_pinned e" by (cases "map_of (nc_nodes c) cid") auto
    then show ?thesis
    proof cases
      case 1
      have "evict_loop evicted scanned c = evict_loop evicted scanned ?c"
        using ex log 1 by (subst evict_loop.simps) simp
      moreover have "I scanned ?c" using stale [OF "1.prems" log] 1 by simp
      ultimately show ?thesis using "1.IH"(1) [OF ex log refl refl 1] by simp
    next
      case (2 e)
      have "evict_loop evicted scanned c = evict_loop evicted scanned ?c"
        using ex log 2 by (subst evict_loop.simps) simp
      moreover have "I scanned ?c" using stale [OF "1.prems" log] 2 by simp
      ultimately show ?thesis using "1.IH"(2) [OF ex log refl refl 2] by simp
    next
      case (3 e)
      let ?c2 = "c\<lparr>nc_access_log := rest @ [(cid, g)]\<rparr>"
      have I: "I (scanned + 1) ?c2" using rotate [OF "1.prems" log] 3 by simp
      have eq: "evict_loop evicted scanned c = (if length rest + 1 \<le> scanned + 1 then (evicted, ?c2) else evict_loop evicted (scanned + 1) ?c2)"
        using ex log 3 by (subst evict_loop.simps) simp
      show ?thesis
      proof (cases "length rest + 1 \<le> scanned + 1")
        case True
        then show ?thesis unfolding eq using I by (intro exI [of _ "scanned + 1"]) simp
      next
        case False
        then show ?thesis
          unfolding eq using "1.IH"(3) [OF ex log refl refl 3 refl] I by simp
      qed
    next
      case (4 e)
      obtain m c2 where r: "remove_entry cid ?c = (m, c2)" by (cases "remove_entry cid ?c")
      have "evict_loop evicted scanned c = evict_loop (evicted + m) 0 c2"
        using ex log 4 r by (subst evict_loop.simps) simp
      moreover have "I 0 c2" using evict [OF "1.prems" log 4(1,3)] r by simp
      ultimately show ?thesis using "1.IH"(4) [OF ex log refl refl 4 r [symmetric] refl] by simp
    qed
  qed
qed

lemma delete_shrinks:
  "entries_bytes (AList.delete cid nodes) \<le> entries_bytes nodes" "length (AList.delete cid nodes) \<le> length nodes"
  by (induction nodes) (auto simp: entries_bytes_def)

lemma evict_counters:
  assumes "counters_ok c"
  shows "counters_ok (snd (evict_to_limit c))" "nc_max_nodes (snd (evict_to_limit c)) = nc_max_nodes c"
    "nc_max_bytes (snd (evict_to_limit c)) = nc_max_bytes c"
    "map_of (nc_nodes (snd (evict_to_limit c))) \<subseteq>\<^sub>m map_of (nc_nodes c)"
    "entries_bytes (nc_nodes (snd (evict_to_limit c))) \<le> entries_bytes (nc_nodes c)"
    "length (nc_nodes (snd (evict_to_limit c))) \<le> length (nc_nodes c)"
proof -
  let ?I = "\<lambda>(n :: nat) c'. counters_ok c' \<and> nc_max_nodes c' = nc_max_nodes c \<and> nc_max_bytes c' = nc_max_bytes c \<and>
    map_of (nc_nodes c') \<subseteq>\<^sub>m map_of (nc_nodes c) \<and> entries_bytes (nc_nodes c') \<le> entries_bytes (nc_nodes c) \<and>
    length (nc_nodes c') \<le> length (nc_nodes c)"
  have "\<exists>n. ?I n (snd (evict_loop 0 0 c)) \<and>
      (exceeds_limit (snd (evict_loop 0 0 c)) \<longrightarrow> length (nc_access_log (snd (evict_loop 0 0 c))) \<le> n)"
  proof (rule evict_loop_invariant [of ?I])
    show "?I 0 c" using assms by simp
  next
    fix n c' cid rest assume I: "?I n c'"
    have ok: "counters_ok (c'\<lparr>nc_access_log := rest\<rparr>)" for rest using I by (simp add: counters_ok_def)
    show "?I 0 (snd (remove_entry cid (c'\<lparr>nc_access_log := rest\<rparr>)))"
      using I remove_entry_ok [OF ok] delete_shrinks [of cid "nc_nodes c'"]
      by (auto simp: map_le_def dom_def delete_conv' remove_entry_def split: option.splits if_splits)
  qed (auto simp: counters_ok_def)
  then show "counters_ok (snd (evict_to_limit c))" "nc_max_nodes (snd (evict_to_limit c)) = nc_max_nodes c"
    "nc_max_bytes (snd (evict_to_limit c)) = nc_max_bytes c"
    "map_of (nc_nodes (snd (evict_to_limit c))) \<subseteq>\<^sub>m map_of (nc_nodes c)"
    "entries_bytes (nc_nodes (snd (evict_to_limit c))) \<le> entries_bytes (nc_nodes c)"
    "length (nc_nodes (snd (evict_to_limit c))) \<le> length (nc_nodes c)"
    by (auto simp: evict_to_limit_def)
qed

definition pinned_live :: "node_cache \<Rightarrow> cid \<times> u64 \<Rightarrow> bool" where
  "pinned_live c p \<longleftrightarrow> (\<exists>e. map_of (nc_nodes c) (fst p) = Some e \<and> ce_generation e = snd p \<and> ce_pinned e)"

lemma evict_logged:
  assumes "counters_ok c" "logged c"
  shows "logged (snd (evict_to_limit c))" "exceeds_limit (snd (evict_to_limit c)) \<Longrightarrow> all_pinned (snd (evict_to_limit c))"
proof -
  have same: "counters_ok (c'\<lparr>nc_access_log := l\<rparr>) = counters_ok c'" "pinned_live (c'\<lparr>nc_access_log := l\<rparr>) p = pinned_live c' p" for c' l p
    by (simp_all add: counters_ok_def pinned_live_def)
  let ?I = "\<lambda>n c'. counters_ok c' \<and> logged c' \<and>
    (\<forall>p \<in> set (drop (length (nc_access_log c') - n) (nc_access_log c')). pinned_live c' p)"
  have "\<exists>n. ?I n (snd (evict_loop 0 0 c)) \<and>
      (exceeds_limit (snd (evict_loop 0 0 c)) \<longrightarrow> length (nc_access_log (snd (evict_loop 0 0 c))) \<le> n)"
  proof (rule evict_loop_invariant [of ?I])
    show "?I 0 c" using assms by simp
  next
    fix n c' cid g rest assume I: "?I n c'" and log: "nc_access_log c' = (cid, g) # rest"
      and stale: "\<forall>e. map_of (nc_nodes c') cid = Some e \<longrightarrow> ce_generation e \<noteq> g"
    have "\<not> pinned_live c' (cid, g)" using stale by (auto simp: pinned_live_def)
    then have "\<not> length (nc_access_log c') \<le> n" using I log by auto
    then have n: "n \<le> length rest" using log by simp
    then have "drop (length (nc_access_log c') - n) (nc_access_log c') = drop (length rest - n) rest"
      by (simp add: log Suc_diff_le)
    moreover have "logged (c'\<lparr>nc_access_log := rest\<rparr>)" using I log stale by (fastforce simp: logged_def)
    ultimately show "?I n (c'\<lparr>nc_access_log := rest\<rparr>)" using I n by (simp add: same)
  next
    fix n c' cid g rest e assume I: "?I n c'" and log: "nc_access_log c' = (cid, g) # rest"
      and e: "map_of (nc_nodes c') cid = Some e" "ce_generation e = g" "ce_pinned e"
    have "set (drop (length rest - n) rest) \<subseteq> set (drop (length (nc_access_log c') - n) (nc_access_log c'))"
      by (cases "n \<le> length rest") (auto simp: log Suc_diff_le dest: in_set_dropD)
    moreover have "pinned_live c' (cid, g)" using e by (auto simp: pinned_live_def)
    moreover have "logged (c'\<lparr>nc_access_log := rest @ [(cid, g)]\<rparr>)" using I log by (fastforce simp: logged_def)
    ultimately show "?I (n + 1) (c'\<lparr>nc_access_log := rest @ [(cid, g)]\<rparr>)" using I by (auto simp: same)
  next
    fix n c' cid g rest e assume I: "?I n c'" and log: "nc_access_log c' = (cid, g) # rest"
      and e: "map_of (nc_nodes c') cid = Some e" "\<not> ce_pinned e"
    have ok: "counters_ok (c'\<lparr>nc_access_log := rest\<rparr>)" using I by (simp add: counters_ok_def)
    have "logged (snd (remove_entry cid (c'\<lparr>nc_access_log := rest\<rparr>)))"
      using I log by (auto simp: logged_def remove_entry_nodes [OF ok] delete_conv' split: if_splits)
    then show "?I 0 (snd (remove_entry cid (c'\<lparr>nc_access_log := rest\<rparr>)))" using remove_entry_ok [OF ok] by simp
  qed
  then show "logged (snd (evict_to_limit c))" "exceeds_limit (snd (evict_to_limit c)) \<Longrightarrow> all_pinned (snd (evict_to_limit c))"
    by (auto simp: evict_to_limit_def) (fastforce simp: all_pinned_def logged_def pinned_live_def)
qed

lemma compact_ok:
  "counters_ok (compact_access_log_if_needed c) = counters_ok c"
  "nc_nodes (compact_access_log_if_needed c) = nc_nodes c"
  "exceeds_limit (compact_access_log_if_needed c) = exceeds_limit c"
  "all_pinned (compact_access_log_if_needed c) = all_pinned c"
  "nc_max_nodes (compact_access_log_if_needed c) = nc_max_nodes c" "nc_max_bytes (compact_access_log_if_needed c) = nc_max_bytes c"
  by (simp_all add: compact_access_log_if_needed_def counters_ok_def exceeds_limit_def all_pinned_def split: option.split)

lemma compact_logged: "logged c \<Longrightarrow> logged (compact_access_log_if_needed c)"
  by (auto simp: compact_access_log_if_needed_def logged_def)

lemma update_counters:
  assumes "counters_ok c" "unat b + old_bytes cid (nc_nodes c) = unat (nc_bytes c) + unat (ce_bytes e)"
    "unat r + old_read cid (nc_nodes c) = unat (nc_read_nodes c) + of_bool (ce_read e \<noteq> None)"
    "ce_owned e \<noteq> None \<or> ce_read e \<noteq> None"
  shows "counters_ok (c\<lparr>nc_next_generation := g, nc_nodes := AList.update cid e (nc_nodes c), nc_bytes := b, nc_read_nodes := r, nc_access_log := l\<rparr>)"
  using assms entries_update [of "nc_nodes c" cid e]
  by (auto simp: counters_ok_def update_conv' distinct_update)

lemma update_logged:
  assumes "logged c" "(cid, ce_generation e) \<in> set l" "set (nc_access_log c) \<subseteq> set l"
  shows "logged (c\<lparr>nc_next_generation := g, nc_nodes := AList.update cid e (nc_nodes c), nc_bytes := b, nc_read_nodes := r, nc_access_log := l\<rparr>)"
  using assms by (auto simp: logged_def update_conv')

definition settled :: "node_cache \<Rightarrow> bool" where
  "settled c \<longleftrightarrow> (is_unbounded c \<or> logged c) \<and> (exceeds_limit c \<longrightarrow> all_pinned c)"

lemma settle:
  assumes "counters_ok c" "logged c"
  shows "settled (compact_access_log_if_needed (snd (evict_to_limit c)))"
    "counters_ok (compact_access_log_if_needed (snd (evict_to_limit c)))"
  using evict_logged [OF assms] evict_counters(1) [OF assms(1)] compact_logged
  by (auto simp: settled_def compact_ok)

lemma unbounded_exceeds: "is_unbounded c \<Longrightarrow> \<not> exceeds_limit c"
  by (simp add: is_unbounded_def exceeds_limit_def)

text \<open>The cache after an entry was put in place and before eviction.\<close>

definition placed :: "cid \<Rightarrow> node_cache_entry \<Rightarrow> u64 \<Rightarrow> node_cache \<Rightarrow> node_cache" where
  "placed cid e r c = c\<lparr>nc_next_generation := nc_next_generation c + 1, nc_nodes := AList.update cid e (nc_nodes c),
     nc_bytes := saturating_add (saturating_sub (nc_bytes c) (of_nat (old_bytes cid (nc_nodes c)))) (ce_bytes e), nc_read_nodes := r\<rparr>"

lemma old_bytes_le:
  assumes "counters_ok c"
  shows "old_bytes cid (nc_nodes c) \<le> unat (nc_bytes c)" "old_read cid (nc_nodes c) \<le> unat (nc_read_nodes c)"
    "unat (of_nat (old_bytes cid (nc_nodes c)) :: u64) = old_bytes cid (nc_nodes c)"
proof -
  show le: "old_bytes cid (nc_nodes c) \<le> unat (nc_bytes c)" "old_read cid (nc_nodes c) \<le> unat (nc_read_nodes c)"
    using assms entries_delete [of "nc_nodes c" cid] by (auto simp: counters_ok_def)
  show "unat (of_nat (old_bytes cid (nc_nodes c)) :: u64) = old_bytes cid (nc_nodes c)"
    using le(1) unat_u64_lt [of "nc_bytes c"] by (simp add: unat_of_nat_u64)
qed

lemma placed_ok:
  assumes "counters_ok c" "entries_bytes (nc_nodes c) + unat (ce_bytes e) < 2 ^ 64"
    "unat r + old_read cid (nc_nodes c) = unat (nc_read_nodes c) + of_bool (ce_read e \<noteq> None)"
    "ce_owned e \<noteq> None \<or> ce_read e \<noteq> None"
  shows "counters_ok (placed cid e r c)" "counters_ok ((placed cid e r c)\<lparr>nc_access_log := l\<rparr>)"
proof -
  let ?b = "saturating_add (saturating_sub (nc_bytes c) (of_nat (old_bytes cid (nc_nodes c)))) (ce_bytes e)"
  have "unat ?b + old_bytes cid (nc_nodes c) = unat (nc_bytes c) + unat (ce_bytes e)"
    using assms(1,2) old_bytes_le [OF assms(1), of cid] by (simp add: unat_saturating_add unat_saturating_sub counters_ok_def)
  from update_counters [OF assms(1) this assms(3,4)]
  show "counters_ok (placed cid e r c)" "counters_ok ((placed cid e r c)\<lparr>nc_access_log := l\<rparr>)"
    by (simp_all add: placed_def counters_ok_def)
qed

definition kept_pin :: "cid \<Rightarrow> node_cache \<Rightarrow> bool" where
  "kept_pin cid c = (case map_of (nc_nodes c) cid of None \<Rightarrow> False | Some p \<Rightarrow> ce_pinned p)"

definition finish_insert :: "cid \<Rightarrow> node_cache_entry \<Rightarrow> node_cache \<Rightarrow> node_cache" where
  "finish_insert cid e c =
     (if is_unbounded c then c
      else compact_access_log_if_needed (snd (evict_to_limit (c\<lparr>nc_access_log := nc_access_log c @ [(cid, ce_generation e)]\<rparr>))))"

lemma insert_owned_eq:
  assumes "\<not> is_disabled c"
  shows "snd (insert_owned_with_pin cid node bytes pinned c) = (let
      e = \<lparr>ce_owned = Some node, ce_read = None, ce_generation = nc_next_generation c + 1, ce_bytes = bytes, ce_pinned = pinned \<or> kept_pin cid c\<rparr>
      in finish_insert cid e (placed cid e (saturating_sub (nc_read_nodes c) (of_nat (old_read cid (nc_nodes c)))) c))"
proof -
  have "saturating_sub w 0 = w" for w by (simp add: saturating_sub_def)
  then show ?thesis
    using assms unfolding insert_owned_with_pin_def is_disabled_def next_generation_def Let_def finish_insert_def placed_def
      kept_pin_def old_bytes_def old_read_def is_unbounded_def prod.case
    by (cases c; cases "map_of (nc_nodes c) cid") (auto simp: case_prod_unfold)
qed

lemma insert_read_eq:
  assumes "\<not> is_disabled c"
  shows "snd (insert_read_with_pin cid node pinned c) = (let
      e = \<lparr>ce_owned = None, ce_read = Some node, ce_generation = nc_next_generation c + 1, ce_bytes = of_nat (retained_bytes node),
        ce_pinned = pinned \<or> kept_pin cid c\<rparr>
      in finish_insert cid e (placed cid e (if old_read cid (nc_nodes c) = 0 then saturating_add (nc_read_nodes c) 1 else nc_read_nodes c) c))"
proof -
  have "saturating_sub w 0 = w" for w by (simp add: saturating_sub_def)
  then show ?thesis
    using assms unfolding insert_read_with_pin_def next_generation_def Let_def finish_insert_def placed_def
      kept_pin_def old_bytes_def old_read_def is_unbounded_def prod.case
    by (cases c; cases "map_of (nc_nodes c) cid") (auto simp: case_prod_unfold)
qed

lemma insert_read_count:
  assumes "counters_ok c"
  shows "unat (saturating_sub (nc_read_nodes c) (of_nat (old_read cid (nc_nodes c)))) + old_read cid (nc_nodes c) = unat (nc_read_nodes c)"
    "length (nc_nodes c) + 1 < 2 ^ 64 \<Longrightarrow>
      unat (if old_read cid (nc_nodes c) = 0 then saturating_add (nc_read_nodes c) 1 else nc_read_nodes c) + old_read cid (nc_nodes c) =
      unat (nc_read_nodes c) + 1"
proof -
  have le: "old_read cid (nc_nodes c) \<le> unat (nc_read_nodes c)" using old_bytes_le(2) [OF assms] .
  then have "unat (of_nat (old_read cid (nc_nodes c)) :: u64) = old_read cid (nc_nodes c)"
    using unat_u64_lt [of "nc_read_nodes c"] by (simp add: unat_of_nat_u64)
  then show "unat (saturating_sub (nc_read_nodes c) (of_nat (old_read cid (nc_nodes c)))) + old_read cid (nc_nodes c) = unat (nc_read_nodes c)"
    using le by (simp add: unat_saturating_sub)
  assume "length (nc_nodes c) + 1 < 2 ^ 64"
  moreover have "entries_read (nc_nodes c) \<le> length (nc_nodes c)" by (simp add: entries_read_def)
  ultimately have "unat (nc_read_nodes c) + 1 < 2 ^ 64" using assms by (simp add: counters_ok_def)
  then have "unat (saturating_add (nc_read_nodes c) 1) = unat (nc_read_nodes c) + 1" by (simp add: unat_saturating_add)
  moreover have "old_read cid (nc_nodes c) \<le> 1" by (auto simp: old_read_def split: option.split)
  ultimately show "unat (if old_read cid (nc_nodes c) = 0 then saturating_add (nc_read_nodes c) 1 else nc_read_nodes c) + old_read cid (nc_nodes c) =
      unat (nc_read_nodes c) + 1" by auto
qed

lemma finish_insert_ok:
  assumes "counters_ok (placed cid e r c)"
  shows "counters_ok (finish_insert cid e (placed cid e r c))"
    "is_unbounded c \<or> logged c \<Longrightarrow> settled (finish_insert cid e (placed cid e r c))"
proof -
  let ?c = "(placed cid e r c)\<lparr>nc_access_log := nc_access_log (placed cid e r c) @ [(cid, ce_generation e)]\<rparr>"
  have ok: "counters_ok ?c" using assms by (simp add: counters_ok_def)
  show "counters_ok (finish_insert cid e (placed cid e r c))"
    using assms evict_counters(1) [OF ok] by (simp add: finish_insert_def compact_ok)
  have un: "is_unbounded (placed cid e r c) = is_unbounded c" by (simp add: is_unbounded_def placed_def)
  have "logged c \<Longrightarrow> logged ?c" by (auto simp: placed_def logged_def update_conv')
  moreover assume "is_unbounded c \<or> logged c"
  ultimately consider "is_unbounded c" | "\<not> is_unbounded c" "logged ?c" by blast
  then show "settled (finish_insert cid e (placed cid e r c))"
    by cases (use unbounded_exceeds settle(1) [OF ok] in \<open>auto simp: finish_insert_def un settled_def\<close>)
qed

lemma disabled_insert: "is_disabled c \<Longrightarrow> snd (insert_owned_with_pin cid node bytes pinned c) = snd (cache_clear c)"
  "is_disabled c \<Longrightarrow> snd (insert_read_with_pin cid rnode pinned c) = snd (cache_clear c)"
  by (auto simp: insert_owned_with_pin_def insert_read_with_pin_def is_disabled_def cache_clear_def)

lemma cache_clear_ok: "counters_ok (snd (cache_clear c)) \<and> settled (snd (cache_clear c))"
  by (auto simp: cache_clear_def counters_ok_def settled_def logged_def all_pinned_def entries_bytes_def entries_read_def)

lemma insert_owned_placed:
  assumes "counters_ok c" "entries_bytes (nc_nodes c) + unat bytes < 2 ^ 64"
  shows "counters_ok (placed cid \<lparr>ce_owned = Some node, ce_read = None, ce_generation = g, ce_bytes = bytes, ce_pinned = p\<rparr>
    (saturating_sub (nc_read_nodes c) (of_nat (old_read cid (nc_nodes c)))) c)"
  by (rule placed_ok(1) [OF assms(1)]) (use assms(2) insert_read_count(1) [OF assms(1)] in simp_all)

lemma insert_read_placed:
  assumes "counters_ok c" "entries_bytes (nc_nodes c) + retained_bytes node < 2 ^ 64" "length (nc_nodes c) + 1 < 2 ^ 64"
  shows "counters_ok (placed cid \<lparr>ce_owned = None, ce_read = Some node, ce_generation = g, ce_bytes = of_nat (retained_bytes node), ce_pinned = p\<rparr>
    (if old_read cid (nc_nodes c) = 0 then saturating_add (nc_read_nodes c) 1 else nc_read_nodes c) c)"
proof (rule placed_ok(1) [OF assms(1)])
  show "entries_bytes (nc_nodes c) + unat (ce_bytes \<lparr>ce_owned = None, ce_read = Some node, ce_generation = g,
      ce_bytes = of_nat (retained_bytes node), ce_pinned = p\<rparr>) < 2 ^ 64" using assms(2) by (simp add: unat_of_nat_u64)
qed (use insert_read_count(2) [OF assms(1,3)] in simp_all)

lemma insert_settled:
  assumes "counters_ok c" "is_unbounded c \<or> logged c"
  shows "entries_bytes (nc_nodes c) + unat bytes < 2 ^ 64 \<Longrightarrow> settled (snd (insert_owned_with_pin cid node bytes pinned c))"
    "entries_bytes (nc_nodes c) + retained_bytes rnode < 2 ^ 64 \<Longrightarrow> length (nc_nodes c) + 1 < 2 ^ 64 \<Longrightarrow>
      settled (snd (insert_read_with_pin cid rnode pinned c))"
  using cache_clear_ok finish_insert_ok(2) [OF insert_owned_placed [OF assms(1)] assms(2)]
    finish_insert_ok(2) [OF insert_read_placed [OF assms(1)] assms(2)]
  by (cases "is_disabled c"; simp add: disabled_insert insert_owned_eq insert_read_eq Let_def)+

section \<open>Sequences of operations\<close>

datatype cache_op =
    OpGet cid
  | OpGetRead cid
  | OpInsert cid node u64 bool
  | OpInsertRead cid read_node bool
  | OpPin cid
  | OpUnpinAll
  | OpClear
  | OpClearUnpinned

fun cache_apply :: "cache_op \<Rightarrow> node_cache \<Rightarrow> error + node_cache" where
  "cache_apply (OpGet cid) c = map_ok snd (node_cache_get cid c)"
| "cache_apply (OpGetRead cid) c = Inr (snd (get_read cid c))"
| "cache_apply (OpInsert cid node bytes pinned) c = Inr (snd (insert_owned_with_pin cid node bytes pinned c))"
| "cache_apply (OpInsertRead cid node pinned) c = Inr (snd (insert_read_with_pin cid node pinned c))"
| "cache_apply (OpPin cid) c = Inr (snd (pin_existing cid c))"
| "cache_apply OpUnpinAll c = Inr (snd (unpin_all c))"
| "cache_apply OpClear c = Inr (snd (cache_clear c))"
| "cache_apply OpClearUnpinned c = map_ok snd (clear_unpinned c)"

fun cache_run :: "cache_op list \<Rightarrow> node_cache \<Rightarrow> error + node_cache" where
  "cache_run [] c = Inr c"
| "cache_run (op # ops) c = and_then (cache_apply op c) (cache_run ops)"

text \<open>The bytes an operation may add, and the nodes it puts under an identifier.\<close>

fun op_bytes :: "cache_op \<Rightarrow> nat" where
  "op_bytes (OpInsert cid node bytes pinned) = unat bytes"
| "op_bytes (OpInsertRead cid node pinned) = retained_bytes node"
| "op_bytes _ = 0"

fun op_inserts :: "cache_op \<Rightarrow> cid \<Rightarrow> node \<Rightarrow> bool" where
  "op_inserts (OpInsert cid node bytes pinned) cid' n = (cid' = cid \<and> n = node)"
| "op_inserts (OpInsertRead cid node pinned) cid' n = (cid' = cid \<and> read_to_owned node = Some n)"
| "op_inserts _ cid' n = False"

fun op_decodes :: "cache_op \<Rightarrow> bool" where
  "op_decodes (OpInsertRead cid node pinned) = (read_to_owned node \<noteq> None)"
| "op_decodes _ = True"

definition op_puts :: "(cid \<Rightarrow> node \<Rightarrow> bool) \<Rightarrow> cache_op \<Rightarrow> bool" where
  "op_puts P op \<longleftrightarrow> op_decodes op \<and> (\<forall>cid n. op_inserts op cid n \<longrightarrow> P cid n)"

definition entry_ok :: "(cid \<Rightarrow> node \<Rightarrow> bool) \<Rightarrow> cid \<Rightarrow> node_cache_entry \<Rightarrow> bool" where
  "entry_ok P cid e \<longleftrightarrow> (case ce_owned e of None \<Rightarrow> ce_read e \<noteq> None | Some n \<Rightarrow> P cid n) \<and>
     (case ce_read e of None \<Rightarrow> True | Some r \<Rightarrow> (case read_to_owned r of None \<Rightarrow> False | Some n \<Rightarrow> P cid n))"

definition cache_ok :: "(cid \<Rightarrow> node \<Rightarrow> bool) \<Rightarrow> node_cache \<Rightarrow> bool" where
  "cache_ok P c \<longleftrightarrow> counters_ok c \<and> (\<forall>cid e. map_of (nc_nodes c) cid = Some e \<longrightarrow> entry_ok P cid e)"

lemma entry_ok_updates [simp]:
  "entry_ok P cid (e\<lparr>ce_generation := g\<rparr>) = entry_ok P cid e" "entry_ok P cid (e\<lparr>ce_pinned := p\<rparr>) = entry_ok P cid e"
  by (simp_all add: entry_ok_def split: option.split)

lemma finish_insert_nodes:
  assumes "counters_ok c" "counters_ok (placed cid e r c)"
  shows "map_of (nc_nodes (finish_insert cid e (placed cid e r c))) \<subseteq>\<^sub>m (map_of (nc_nodes c))(cid \<mapsto> e)"
    "entries_bytes (nc_nodes (finish_insert cid e (placed cid e r c))) \<le> entries_bytes (nc_nodes c) + unat (ce_bytes e)"
    "length (nc_nodes (finish_insert cid e (placed cid e r c))) \<le> length (nc_nodes c) + 1"
proof -
  let ?c = "(placed cid e r c)\<lparr>nc_access_log := nc_access_log (placed cid e r c) @ [(cid, ce_generation e)]\<rparr>"
  have nodes: "nc_nodes ?c = AList.update cid e (nc_nodes c)" "nc_nodes (placed cid e r c) = AList.update cid e (nc_nodes c)"
    by (simp_all add: placed_def)
  have ok: "counters_ok ?c" using assms(2) by (simp add: counters_ok_def)
  have "entries_bytes (AList.update cid e (nc_nodes c)) \<le> entries_bytes (nc_nodes c) + unat (ce_bytes e)"
    using entries_update(1) [of "nc_nodes c" cid e] assms(1) by (simp add: counters_ok_def)
  moreover have "length (AList.update cid e xs) \<le> length xs + 1" for xs :: "(cid \<times> node_cache_entry) list"
    by (induction xs) auto
  ultimately show "map_of (nc_nodes (finish_insert cid e (placed cid e r c))) \<subseteq>\<^sub>m (map_of (nc_nodes c))(cid \<mapsto> e)"
    "entries_bytes (nc_nodes (finish_insert cid e (placed cid e r c))) \<le> entries_bytes (nc_nodes c) + unat (ce_bytes e)"
    "length (nc_nodes (finish_insert cid e (placed cid e r c))) \<le> length (nc_nodes c) + 1"
    using evict_counters(4,5,6) [OF ok] by (auto simp: finish_insert_def compact_ok nodes update_conv' intro: le_trans)
qed

text \<open>
  What an operation that may add \<open>k\<close> bytes does: the cache stays well formed, grows by at
  most \<open>k\<close> bytes and one entry, and stays settled unless the operation empties the log.
\<close>

definition step_ok :: "(cid \<Rightarrow> node \<Rightarrow> bool) \<Rightarrow> nat \<Rightarrow> node_cache \<Rightarrow> node_cache \<Rightarrow> bool" where
  "step_ok P k c c' \<longleftrightarrow> cache_ok P c' \<and> entries_bytes (nc_nodes c') \<le> entries_bytes (nc_nodes c) + k \<and>
     length (nc_nodes c') \<le> length (nc_nodes c) + 1"

lemma step_ok_compact [simp]: "step_ok P k c (compact_access_log_if_needed c') = step_ok P k c c'"
  by (simp add: step_ok_def cache_ok_def compact_ok)

lemma settled_compact: "settled c \<Longrightarrow> settled (compact_access_log_if_needed c)"
  using compact_logged by (auto simp: settled_def compact_ok is_unbounded_def)

lemma touch_ok:
  assumes "cache_ok P c" "map_of (nc_nodes c) cid = Some e" "ce_bytes e' = ce_bytes e" "ce_read e' = ce_read e" "entry_ok P cid e'"
  shows "step_ok P 0 c (c\<lparr>nc_next_generation := g, nc_nodes := AList.update cid e' (nc_nodes c), nc_access_log := l\<rparr>)"
proof -
  have "counters_ok (c\<lparr>nc_next_generation := g, nc_nodes := AList.update cid e' (nc_nodes c), nc_bytes := nc_bytes c,
      nc_read_nodes := nc_read_nodes c, nc_access_log := l\<rparr>)"
    using assms by (intro update_counters) (auto simp: cache_ok_def old_bytes_def old_read_def entry_ok_def split: option.splits)
  moreover have "map_of xs cid = Some e \<Longrightarrow> length (AList.update cid e' xs) = length xs" for xs
    by (induction xs) auto
  moreover have "entries_bytes (AList.update cid e' (nc_nodes c)) = entries_bytes (nc_nodes c)"
    using assms(1-3) entries_update(1) [of "nc_nodes c" cid e'] by (simp add: cache_ok_def counters_ok_def old_bytes_def)
  ultimately show ?thesis using assms by (auto simp: step_ok_def cache_ok_def update_conv' counters_ok_def)
qed

lemma touch_settled:
  assumes "settled c" "map_of (nc_nodes c) cid = Some e" "ce_bytes e' = ce_bytes e" "ce_pinned e \<longrightarrow> ce_pinned e'"
    "is_unbounded c \<or> (cid, ce_generation e') \<in> set l \<and> set (nc_access_log c) \<subseteq> set l"
  shows "settled (c\<lparr>nc_next_generation := g, nc_nodes := AList.update cid e' (nc_nodes c), nc_access_log := l\<rparr>)"
proof -
  have "map_of xs cid = Some e \<Longrightarrow> length (AList.update cid e' xs) = length xs" for xs
    by (induction xs) auto
  then show ?thesis
    using assms by (auto simp: settled_def logged_def all_pinned_def exceeds_limit_def is_unbounded_def update_conv' split: option.splits)
qed

lemma owned_or_init_ok:
  assumes "entry_ok P cid e"
  obtains n e' where "owned_or_init e = Inr (n, e')" "P cid n" "entry_ok P cid e'" "ce_bytes e' = ce_bytes e" "ce_read e' = ce_read e"
    "ce_generation e' = ce_generation e" "ce_pinned e' = ce_pinned e"
  using assms by (auto simp: owned_or_init_def entry_ok_def split: option.splits)

lemma get_ok:
  assumes "cache_ok P c"
  obtains r c' where "node_cache_get cid c = Inr (r, c')" "step_ok P 0 c c'" "settled c \<Longrightarrow> settled c'"
    "case r of None \<Rightarrow> map_of (nc_nodes c) cid = None | Some n \<Rightarrow> P cid n"
proof (cases "map_of (nc_nodes c) cid")
  case None
  with assms that [of None c] show thesis
    by (simp add: node_cache_get_def cache_peek_def step_ok_def)
next
  case (Some e)
  then have e: "entry_ok P cid e" using assms by (simp add: cache_ok_def)
  let ?g = "nc_next_generation c + 1"
  have e1: "entry_ok P cid (e\<lparr>ce_generation := ?g\<rparr>)" using e by simp
  show thesis
  proof (cases "is_unbounded c")
    case True
    obtain n e' where o: "owned_or_init e = Inr (n, e')" "P cid n" "entry_ok P cid e'" "ce_bytes e' = ce_bytes e" "ce_read e' = ce_read e"
      "ce_generation e' = ce_generation e" "ce_pinned e' = ce_pinned e" by (rule owned_or_init_ok [OF e])
    have "node_cache_get cid c = Inr (Some n, c\<lparr>nc_nodes := AList.update cid e' (nc_nodes c)\<rparr>)"
      using True Some o by (simp add: node_cache_get_def cache_peek_def)
    then show thesis
      using that touch_ok [OF assms Some, of e' "nc_access_log c" "nc_next_generation c"]
        touch_settled [OF _ Some, of e' "nc_access_log c" "nc_next_generation c"] o True by simp
  next
    case False
    obtain n e' where o: "owned_or_init (e\<lparr>ce_generation := ?g\<rparr>) = Inr (n, e')" "P cid n" "entry_ok P cid e'" "ce_bytes e' = ce_bytes e"
      "ce_read e' = ce_read e" "ce_generation e' = ?g" "ce_pinned e' = ce_pinned e" by (rule owned_or_init_ok [OF e1]) simp
    have "node_cache_get cid c = Inr (Some n, compact_access_log_if_needed (c\<lparr>nc_next_generation := ?g,
        nc_nodes := AList.update cid e' (nc_nodes c), nc_access_log := nc_access_log c @ [(cid, ?g)]\<rparr>))"
      using False Some o by (simp add: node_cache_get_def next_generation_def)
    then show thesis
      using that touch_ok [OF assms Some, of e' "nc_access_log c @ [(cid, ?g)]" ?g]
        touch_settled [OF _ Some, of e' "nc_access_log c @ [(cid, ?g)]" ?g, THEN settled_compact] o by auto
  qed
qed

lemma get_read_ok:
  assumes "cache_ok P c"
  shows "step_ok P 0 c (snd (get_read cid c))" "settled c \<Longrightarrow> settled (snd (get_read cid c))"
proof -
  let ?g = "nc_next_generation c + 1"
  have same: "step_ok P 0 c c" using assms by (simp add: step_ok_def)
  consider "snd (get_read cid c) = c" | e where "\<not> is_unbounded c" "map_of (nc_nodes c) cid = Some e"
    "snd (get_read cid c) = compact_access_log_if_needed (c\<lparr>nc_next_generation := ?g,
      nc_nodes := AList.update cid (e\<lparr>ce_generation := ?g\<rparr>) (nc_nodes c), nc_access_log := nc_access_log c @ [(cid, ?g)]\<rparr>)"
    unfolding get_read_def next_generation_def Let_def prod.case
    by (cases "is_unbounded c"; cases "map_of (nc_nodes c) cid"; cases "ce_read (the (map_of (nc_nodes c) cid))") auto
  then have "step_ok P 0 c (snd (get_read cid c)) \<and> (settled c \<longrightarrow> settled (snd (get_read cid c)))"
  proof cases
    case (2 e)
    have "entry_ok P cid (e\<lparr>ce_generation := ?g\<rparr>)"
      using assms 2(2) by (simp add: cache_ok_def)
    then show ?thesis
      unfolding 2(3) using touch_ok [OF assms 2(2), of "e\<lparr>ce_generation := ?g\<rparr>" "nc_access_log c @ [(cid, ?g)]" ?g]
        touch_settled [OF _ 2(2), of "e\<lparr>ce_generation := ?g\<rparr>" "nc_access_log c @ [(cid, ?g)]" ?g, THEN settled_compact] by auto
  qed (use same in simp)
  then show "step_ok P 0 c (snd (get_read cid c))" "settled c \<Longrightarrow> settled (snd (get_read cid c))" by auto
qed

lemma get_read_hit:
  assumes "cache_ok P c" "fst (get_read cid c) = Some p"
  shows "\<exists>n. read_to_owned p = Some n \<and> P cid n"
proof -
  obtain e where e: "map_of (nc_nodes c) cid = Some e" "ce_read e = Some p"
    using assms(2) by (auto simp: get_read_def peek_read_def next_generation_def Let_def bind_eq_Some_conv split: if_splits option.splits)
  then have "entry_ok P cid e" using assms(1) by (simp add: cache_ok_def)
  then show ?thesis using e(2) by (auto simp: entry_ok_def split: option.splits)
qed

lemma pin_existing_ok:
  assumes "cache_ok P c"
  shows "step_ok P 0 c (snd (pin_existing cid c))" "settled c \<Longrightarrow> settled (snd (pin_existing cid c))"
proof -
  have "step_ok P 0 c (snd (pin_existing cid c)) \<and> (settled c \<longrightarrow> settled (snd (pin_existing cid c)))"
  proof (cases "map_of (nc_nodes c) cid")
    case None
    then show ?thesis using assms by (simp add: pin_existing_def step_ok_def)
  next
    case (Some e)
    have "entry_ok P cid (e\<lparr>ce_pinned := True\<rparr>)"
      using assms Some by (simp add: cache_ok_def)
    then show ?thesis
      using touch_ok [OF assms Some, of "e\<lparr>ce_pinned := True\<rparr>" "nc_access_log c" "nc_next_generation c"]
        touch_settled [OF _ Some, of "e\<lparr>ce_pinned := True\<rparr>" "nc_access_log c" "nc_next_generation c"] Some
      by (auto simp: pin_existing_def settled_def logged_def)
  qed
  then show "step_ok P 0 c (snd (pin_existing cid c))" "settled c \<Longrightarrow> settled (snd (pin_existing cid c))" by auto
qed

lemma unpin_all_ok:
  assumes "cache_ok P c"
  shows "step_ok P 0 c (snd (unpin_all c))"
    "is_unbounded c \<or> logged c \<Longrightarrow> settled (snd (unpin_all c)) \<and> \<not> exceeds_limit (snd (unpin_all c))"
proof -
  let ?un = "map (\<lambda>(cid, e). (cid, e\<lparr>ce_pinned := False\<rparr>)) :: (cid \<times> node_cache_entry) list \<Rightarrow> _"
  let ?c = "c\<lparr>nc_nodes := ?un (nc_nodes c)\<rparr>"
  let ?c' = "snd (evict_to_limit ?c)"
  have look: "map_of (?un xs) k = map_option (\<lambda>e. e\<lparr>ce_pinned := False\<rparr>) (map_of xs k)" for xs k
    by (induction xs) auto
  have sums: "map fst (?un xs) = map fst xs" "entries_bytes (?un xs) = entries_bytes xs" "entries_read (?un xs) = entries_read xs" for xs
    by (induction xs) (auto simp: entries_bytes_def entries_read_def)
  have keys: "distinct (map fst (?un (nc_nodes c)))" unfolding sums using assms by (simp add: cache_ok_def counters_ok_def)
  have reps: "\<forall>k e. map_of (nc_nodes ?c) k = Some e \<longrightarrow> ce_owned e \<noteq> None \<or> ce_read e \<noteq> None"
    using assms by (fastforce simp: cache_ok_def counters_ok_def look)
  have ok: "counters_ok ?c" using assms keys reps by (simp add: cache_ok_def counters_ok_def sums)
  have un: "snd (unpin_all c) = compact_access_log_if_needed ?c'" by (simp add: unpin_all_def Let_def case_prod_unfold)
  have sub: "map_of (nc_nodes ?c') k = Some e \<Longrightarrow> map_of (nc_nodes ?c) k = Some e" for k e
    using evict_counters(4) [OF ok] by (auto simp: map_le_def dom_def)
  have "cache_ok P ?c'" using assms evict_counters(1) [OF ok] by (auto simp: cache_ok_def look dest!: sub)
  then show "step_ok P 0 c (snd (unpin_all c))"
    using evict_counters(5,6) [OF ok] by (simp add: un) (simp add: step_ok_def sums)
  assume l: "is_unbounded c \<or> logged c"
  show "settled (snd (unpin_all c)) \<and> \<not> exceeds_limit (snd (unpin_all c))"
  proof (cases "is_unbounded c")
    case True
    then have "is_unbounded (snd (unpin_all c))"
      using evict_counters(2,3) [OF ok] by (simp add: un is_unbounded_def compact_ok)
    then show ?thesis using unbounded_exceeds by (simp add: settled_def)
  next
    case False
    have lg: "logged ?c" using l False by (auto simp: logged_def look)
    have "exceeds_limit ?c' \<Longrightarrow> nc_nodes ?c' = []"
    proof (rule ccontr)
      assume "exceeds_limit ?c'" "nc_nodes ?c' \<noteq> []"
      then obtain x xs where "nc_nodes ?c' = x # xs" by (cases "nc_nodes ?c'") auto
      then have x: "map_of (nc_nodes ?c') (fst x) = Some (snd x)" by simp
      obtain e where "e\<lparr>ce_pinned := False\<rparr> = snd x" using sub [OF x] by (auto simp: look)
      then have "\<not> ce_pinned (snd x)" by (auto dest: sym)
      then show False using evict_logged(2) [OF ok lg \<open>exceeds_limit ?c'\<close>] x by (auto simp: all_pinned_def)
    qed
    then have "\<not> exceeds_limit ?c'"
      using evict_counters(1) [OF ok] by (auto simp: exceeds_limit_def counters_ok_def entries_bytes_def word_less_nat_alt split: option.splits)
    then show ?thesis using settle(1) [OF ok lg] by (simp add: un compact_ok)
  qed
qed

lemma clear_unpinned_ok:
  assumes "cache_ok P c"
  obtains c' n where "clear_unpinned c = Inr (n, c')" "step_ok P 0 c c'"
proof -
  let ?kept = "filter (\<lambda>(cid, e). ce_pinned e) (nc_nodes c)"
  have le: "entries_bytes (filter Q xs) \<le> entries_bytes xs" "entries_read (filter Q xs) \<le> entries_read xs" for Q xs
    by (induction xs) (auto simp: entries_bytes_def entries_read_def)
  note c = assms [unfolded cache_ok_def counters_ok_def]
  have "entries_bytes ?kept < 2 ^ 64" "entries_read ?kept < 2 ^ 64"
    using le [of "\<lambda>(cid, e). ce_pinned e" "nc_nodes c"] c unat_u64_lt [of "nc_bytes c"] unat_u64_lt [of "nc_read_nodes c"] by simp_all
  moreover have "distinct (map fst ?kept)" using c by (simp add: distinct_map_filter)
  moreover have "map_of ?kept k = Some e \<Longrightarrow> map_of (nc_nodes c) k = Some e" for k e
    using c by (auto dest!: map_of_SomeD)
  moreover from this have "\<forall>k e. map_of ?kept k = Some e \<longrightarrow> entry_ok P k e \<and> (ce_owned e \<noteq> None \<or> ce_read e \<noteq> None)"
    using c by blast
  moreover have "length ?kept \<le> length (nc_nodes c) + 1" by (simp add: le_SucI)
  moreover define c' where "c' = c\<lparr>nc_nodes := ?kept, nc_access_log := [], nc_bytes := of_nat (entries_bytes ?kept),
    nc_read_nodes := of_nat (entries_read ?kept)\<rparr>"
  ultimately have "step_ok P 0 c c'"
    using le(1) [of "\<lambda>(cid, e). ce_pinned e" "nc_nodes c"]
    by (simp add: c'_def step_ok_def cache_ok_def counters_ok_def unat_of_nat_u64) blast
  moreover have "clear_unpinned c = Inr (length (nc_nodes c) - length ?kept, c')"
    using \<open>entries_bytes ?kept < 2 ^ 64\<close> by (simp add: clear_unpinned_def c'_def Let_def)
  ultimately show thesis by (rule that [rotated])
qed

lemma insert_step:
  assumes "cache_ok P c" "counters_ok (placed cid e r c)" "entry_ok P cid e"
  shows "step_ok P (unat (ce_bytes e)) c (finish_insert cid e (placed cid e r c))" (is "step_ok P _ c ?c'")
proof -
  have "entry_ok P k e'" if "map_of (nc_nodes ?c') k = Some e'" for k e'
  proof -
    have "((map_of (nc_nodes c))(cid \<mapsto> e)) k = Some e'"
      using finish_insert_nodes(1) [OF _ assms(2)] assms(1) that by (fastforce simp: map_le_def dom_def cache_ok_def)
    then show ?thesis using assms(1,3) by (auto simp: cache_ok_def split: if_splits)
  qed
  then show ?thesis
    using finish_insert_nodes(2,3) [OF _ assms(2)] finish_insert_ok(1) [OF assms(2)] assms(1) by (auto simp: step_ok_def cache_ok_def)
qed

lemma step_ok_clear: "step_ok P k c (snd (cache_clear c))"
  using cache_clear_ok [of c] by (simp add: step_ok_def cache_ok_def) (simp add: cache_clear_def entries_bytes_def)

lemma insert_owned_step:
  assumes "cache_ok P c" "P cid node" "entries_bytes (nc_nodes c) + unat bytes < 2 ^ 64"
  shows "step_ok P (unat bytes) c (snd (insert_owned_with_pin cid node bytes pinned c))"
proof (cases "is_disabled c")
  case True
  then show ?thesis using disabled_insert(1) step_ok_clear by simp
next
  case False
  let ?e = "\<lparr>ce_owned = Some node, ce_read = None, ce_generation = nc_next_generation c + 1, ce_bytes = bytes, ce_pinned = pinned \<or> kept_pin cid c\<rparr>"
  let ?r = "saturating_sub (nc_read_nodes c) (of_nat (old_read cid (nc_nodes c)))"
  have ok: "counters_ok c" using assms(1) by (simp add: cache_ok_def)
  have "step_ok P (unat (ce_bytes ?e)) c (finish_insert cid ?e (placed cid ?e ?r c))"
    using assms(2) by (intro insert_step [OF assms(1) insert_owned_placed [OF ok assms(3)]]) (simp add: entry_ok_def)
  then show ?thesis using insert_owned_eq [OF False] by (simp add: Let_def)
qed

lemma insert_read_step:
  assumes "cache_ok P c" "case read_to_owned node of None \<Rightarrow> False | Some n \<Rightarrow> P cid n"
    "entries_bytes (nc_nodes c) + retained_bytes node < 2 ^ 64" "length (nc_nodes c) + 1 < 2 ^ 64"
  shows "step_ok P (retained_bytes node) c (snd (insert_read_with_pin cid node pinned c))"
proof (cases "is_disabled c")
  case True
  then show ?thesis using disabled_insert(2) step_ok_clear by simp
next
  case False
  let ?e = "\<lparr>ce_owned = None, ce_read = Some node, ce_generation = nc_next_generation c + 1, ce_bytes = of_nat (retained_bytes node),
    ce_pinned = pinned \<or> kept_pin cid c\<rparr>"
  let ?r = "if old_read cid (nc_nodes c) = 0 then saturating_add (nc_read_nodes c) 1 else nc_read_nodes c"
  have ok: "counters_ok c" using assms(1) by (simp add: cache_ok_def)
  have b: "unat (of_nat (retained_bytes node) :: u64) = retained_bytes node" using assms(3) by (simp add: unat_of_nat_u64)
  have "step_ok P (unat (ce_bytes ?e)) c (finish_insert cid ?e (placed cid ?e ?r c))"
    using assms(2) by (intro insert_step [OF assms(1) insert_read_placed [OF ok assms(3,4)]]) (simp add: entry_ok_def)
  then show ?thesis using insert_read_eq [OF False] b by (simp add: Let_def)
qed

lemma cache_apply_ok:
  assumes "cache_ok P c" "op_puts P op" "entries_bytes (nc_nodes c) + op_bytes op < 2 ^ 64" "length (nc_nodes c) + 1 < 2 ^ 64"
  obtains c' where "cache_apply op c = Inr c'" "step_ok P (op_bytes op) c c'" "settled c \<Longrightarrow> op \<noteq> OpClearUnpinned \<Longrightarrow> settled c'"
proof (cases op)
  case (OpGet cid)
  obtain r c' where "node_cache_get cid c = Inr (r, c')" "step_ok P 0 c c'" "settled c \<Longrightarrow> settled c'"
    by (rule get_ok [OF assms(1), of cid]) blast
  then show thesis using that by (simp add: OpGet)
next
  case (OpGetRead cid)
  then show thesis using that get_read_ok [OF assms(1), of cid] by simp
next
  case (OpInsert cid node bytes pinned)
  then show thesis
    using that assms insert_owned_step [OF assms(1), of cid node bytes pinned] insert_settled(1) [of c bytes cid node pinned]
    by (simp add: cache_ok_def settled_def op_puts_def)
next
  case (OpInsertRead cid node pinned)
  then show thesis
    using that assms insert_read_step [OF assms(1), where node = node and cid = cid and pinned = pinned] insert_settled(2) [where c = c and rnode = node and cid = cid and pinned = pinned]
    by (auto simp: cache_ok_def settled_def op_puts_def)
next
  case (OpPin cid)
  then show thesis using that pin_existing_ok [OF assms(1), of cid] by simp
next
  case OpUnpinAll
  then show thesis using that unpin_all_ok [OF assms(1)] by (simp add: settled_def)
next
  case OpClear
  then show thesis using that step_ok_clear cache_clear_ok by simp
next
  case OpClearUnpinned
  obtain n c' where "clear_unpinned c = Inr (n, c')" "step_ok P 0 c c'" by (rule clear_unpinned_ok [OF assms(1)])
  then show thesis using that [of c'] by (simp add: OpClearUnpinned)
qed

lemma cache_run_ok:
  assumes "cache_ok P c" "\<forall>op \<in> set ops. op_puts P op"
    "entries_bytes (nc_nodes c) + sum_list (map op_bytes ops) < 2 ^ 64" "length (nc_nodes c) + length ops < 2 ^ 64"
  shows "\<exists>c'. cache_run ops c = Inr c' \<and> cache_ok P c' \<and> (settled c \<longrightarrow> OpClearUnpinned \<notin> set ops \<longrightarrow> settled c')"
  using assms
proof (induction ops arbitrary: c)
  case (Cons op ops)
  obtain c1 where c1: "cache_apply op c = Inr c1" "step_ok P (op_bytes op) c c1" "settled c \<Longrightarrow> op \<noteq> OpClearUnpinned \<Longrightarrow> settled c1"
    by (rule cache_apply_ok [of P c op]) (use Cons.prems in auto)
  have "\<exists>c'. cache_run ops c1 = Inr c' \<and> cache_ok P c' \<and> (settled c1 \<longrightarrow> OpClearUnpinned \<notin> set ops \<longrightarrow> settled c')"
    using c1(2) Cons.prems by (intro Cons.IH) (auto simp: step_ok_def)
  then show ?case using c1 by auto
qed simp

lemma new_cache_ok: "cache_ok P (cache_new max_nodes max_bytes)" "settled (cache_new max_nodes max_bytes)"
  by (auto simp: cache_ok_def counters_ok_def cache_new_def settled_def logged_def all_pinned_def entries_bytes_def entries_read_def)

section \<open>Properties\<close>

text \<open>C33: no sequence of cache operations panics, and after every one the cache is consistent.
  From an empty cache with any limits, operations whose inserted nodes fit the address space
  and whose packed nodes decode always return; at the end the identifiers are distinct, the byte
  and packed-node counters equal the sums over the entries, every entry has a representation,
  and a lookup of an identifier returns only a node that some operation inserted under it, and a
  packed lookup only a packed node that decodes to one.\<close>

theorem cache_consistent:
  assumes "\<forall>op \<in> set ops. op_decodes op" "sum_list (map op_bytes ops) < 2 ^ 64" "length ops < 2 ^ 64"
  shows "\<exists>c. cache_run ops (cache_new max_nodes max_bytes) = Inr c \<and> counters_ok c \<and>
    (\<forall>cid. \<exists>r c'. node_cache_get cid c = Inr (r, c') \<and> (\<forall>n. r = Some n \<longrightarrow> (\<exists>op \<in> set ops. op_inserts op cid n))) \<and>
    (\<forall>cid p. fst (get_read cid c) = Some p \<longrightarrow> (\<exists>n. read_to_owned p = Some n \<and> (\<exists>op \<in> set ops. op_inserts op cid n)))"
proof -
  let ?P = "\<lambda>cid n. \<exists>op \<in> set ops. op_inserts op cid n"
  have "\<forall>op \<in> set ops. op_puts ?P op" using assms(1) by (auto simp: op_puts_def)
  then obtain c where c: "cache_run ops (cache_new max_nodes max_bytes) = Inr c" "cache_ok ?P c"
    using cache_run_ok [OF new_cache_ok(1), of ops ?P max_nodes max_bytes] assms(2,3)
    by (auto simp: cache_new_def entries_bytes_def)
  have "\<exists>r c'. node_cache_get cid c = Inr (r, c') \<and> (\<forall>n. r = Some n \<longrightarrow> ?P cid n)" for cid
  proof -
    obtain r c' where "node_cache_get cid c = Inr (r, c')" "case r of None \<Rightarrow> map_of (nc_nodes c) cid = None | Some n \<Rightarrow> ?P cid n"
      by (rule get_ok [OF c(2), of cid]) blast
    then show ?thesis by (intro exI [of _ r] exI [of _ c']) auto
  qed
  then show ?thesis using c get_read_hit [OF c(2)] by (intro exI [of _ c]) (simp add: cache_ok_def)
qed

lemma cache_consistent_witness:
  "\<exists>c. cache_run [OpInsert [1] node_default 9 False, OpPin [1], OpGet [1], OpGetRead [1]] (cache_new (Some 4) None) = Inr c \<and> counters_ok c \<and>
    (\<forall>cid. \<exists>r c'. node_cache_get cid c = Inr (r, c') \<and> (\<forall>n. r = Some n \<longrightarrow> (\<exists>op \<in> set [OpInsert [1] node_default 9 False, OpPin [1], OpGet [1], OpGetRead [1]]. op_inserts op cid n))) \<and>
    (\<forall>cid p. fst (get_read cid c) = Some p \<longrightarrow> (\<exists>n. read_to_owned p = Some n \<and> (\<exists>op \<in> set [OpInsert [1] node_default 9 False, OpPin [1], OpGet [1], OpGetRead [1]]. op_inserts op cid n)))"
  by (rule cache_consistent) simp_all

text \<open>C34: eviction keeps the cache within its limits unless pins forbid it, and unpinning restores them.
  After any sequence of operations other than clearing the unpinned entries, a cache above its
  node or byte limit holds pinned entries only, and removing all pins brings it back within
  both limits.\<close>

theorem cache_within_limits:
  assumes "\<forall>op \<in> set ops. op_decodes op" "sum_list (map op_bytes ops) < 2 ^ 64" "length ops < 2 ^ 64" "OpClearUnpinned \<notin> set ops"
  shows "\<exists>c. cache_run ops (cache_new max_nodes max_bytes) = Inr c \<and> (exceeds_limit c \<longrightarrow> all_pinned c) \<and>
    \<not> exceeds_limit (snd (unpin_all c))"
proof -
  have "\<forall>op \<in> set ops. op_puts (\<lambda>cid n. True) op" using assms(1) by (simp add: op_puts_def)
  then obtain c where c: "cache_run ops (cache_new max_nodes max_bytes) = Inr c" "cache_ok (\<lambda>cid n. True) c" "settled c"
    using cache_run_ok [OF new_cache_ok(1), of ops "\<lambda>cid n. True" max_nodes max_bytes] new_cache_ok(2) assms(2-4)
    by (auto simp: cache_new_def entries_bytes_def)
  then show ?thesis using unpin_all_ok(2) [OF c(2)] by (intro exI [of _ c]) (simp add: settled_def)
qed

lemma cache_within_limits_witness:
  "\<exists>c. cache_run [OpInsert [1] node_default 9 True, OpInsert [2] node_default 9 True] (cache_new (Some 1) None) = Inr c \<and>
    (exceeds_limit c \<longrightarrow> all_pinned c) \<and> \<not> exceeds_limit (snd (unpin_all c))"
  by (rule cache_within_limits) simp_all

text \<open>C35: clearing the unpinned entries defeats the limit after a later unpin.
  Two entries pinned in a cache for one node survive \<open>clear_unpinned\<close>, which empties the access
  log; \<open>unpin_all\<close> then removes both pins and evicts neither, so the cache holds two unpinned
  entries above its limit of one.\<close>

theorem clear_unpinned_defeats_eviction:
  assumes "a \<noteq> b"
  shows "\<exists>c. cache_run [OpInsert a n 1 True, OpInsert b n 1 True, OpClearUnpinned, OpUnpinAll] (cache_new (Some 1) None) = Inr c \<and>
    exceeds_limit c \<and> cache_len c = 2 \<and> pinned_len c = 0"
  using assms
  by (simp add: cache_new_def insert_owned_with_pin_def next_generation_def is_unbounded_def evict_to_limit_def evict_loop.simps
      exceeds_limit_def compact_access_log_if_needed_def clear_unpinned_def unpin_all_def entries_bytes_def entries_read_def
      cache_len_def pinned_len_def Let_def)

lemma clear_unpinned_defeats_eviction_witness:
  "([1] :: cid) \<noteq> [2] \<and> (\<exists>c. cache_run [OpInsert [1] node_default 1 True, OpInsert [2] node_default 1 True, OpClearUnpinned, OpUnpinAll]
    (cache_new (Some 1) None) = Inr c \<and> exceeds_limit c \<and> cache_len c = 2 \<and> pinned_len c = 0)"
  using clear_unpinned_defeats_eviction [of "[1]" "[2]" node_default] by simp

end
