(* ===== verification/Engine_State.thy ===== *)
theory Engine_State
  imports Node_Cache Stores
begin

text \<open>
  The state of the engine and the loading of nodes: the counters of \<open>ProllyMetrics\<close>
  (\<^verbatim>\<open>src/src/prolly/mod.rs\<close>), the execution limits and per-operation statistics of
  \<^verbatim>\<open>engine/execution.rs\<close>, the checks of \<^verbatim>\<open>engine/validation.rs\<close>, and the loaders of
  \<^verbatim>\<open>engine/mod.rs\<close>, which look into the cache, then into the store, and admit what they read.
  A handler returns its result and the state, also when it fails.  The store is a record of
  the methods the engine calls; a lock that is poisoned is skipped, as \<open>if let Ok(..)\<close> does.
\<close>

section \<open>Metrics and execution limits\<close>

record metrics =
  mt_node_cache_hits :: u64
  mt_node_cache_misses :: u64
  mt_node_cache_evictions :: u64
  mt_nodes_read :: u64
  mt_bytes_read :: u64
  mt_nodes_written :: u64
  mt_bytes_written :: u64
  mt_store_get_calls :: u64
  mt_store_batch_get_calls :: u64
  mt_store_batch_get_keys :: u64
  mt_store_put_calls :: u64
  mt_store_batch_put_calls :: u64
  mt_store_batch_put_nodes :: u64

definition metrics_default :: metrics where
  "metrics_default = \<lparr>mt_node_cache_hits = 0, mt_node_cache_misses = 0, mt_node_cache_evictions = 0, mt_nodes_read = 0,
     mt_bytes_read = 0, mt_nodes_written = 0, mt_bytes_written = 0, mt_store_get_calls = 0, mt_store_batch_get_calls = 0,
     mt_store_batch_get_keys = 0, mt_store_put_calls = 0, mt_store_batch_put_calls = 0, mt_store_batch_put_nodes = 0\<rparr>"

definition metrics_reset :: "metrics \<Rightarrow> metrics" where
  "metrics_reset m = m\<lparr>mt_node_cache_hits := 0, mt_node_cache_misses := 0, mt_node_cache_evictions := 0, mt_nodes_read := 0,
     mt_bytes_read := 0, mt_nodes_written := 0, mt_bytes_written := 0, mt_store_get_calls := 0, mt_store_batch_get_calls := 0,
     mt_store_batch_get_keys := 0, mt_store_put_calls := 0, mt_store_batch_put_calls := 0, mt_store_batch_put_nodes := 0\<rparr>"

definition add_metric :: "u64 \<Rightarrow> nat \<Rightarrow> u64" where
  "add_metric counter v = (if 0 < v then counter + of_nat v else counter)"

definition add_cache_hits :: "nat \<Rightarrow> metrics \<Rightarrow> metrics" where
  "add_cache_hits n m = m\<lparr>mt_node_cache_hits := add_metric (mt_node_cache_hits m) n\<rparr>"

definition add_cache_misses :: "nat \<Rightarrow> metrics \<Rightarrow> metrics" where
  "add_cache_misses n m = m\<lparr>mt_node_cache_misses := add_metric (mt_node_cache_misses m) n\<rparr>"

definition add_cache_evictions :: "nat \<Rightarrow> metrics \<Rightarrow> metrics" where
  "add_cache_evictions n m = m\<lparr>mt_node_cache_evictions := add_metric (mt_node_cache_evictions m) n\<rparr>"

definition record_point_read :: "nat \<Rightarrow> metrics \<Rightarrow> metrics" where
  "record_point_read bytes m =
     m\<lparr>mt_store_get_calls := add_metric (mt_store_get_calls m) 1, mt_nodes_read := add_metric (mt_nodes_read m) 1,
       mt_bytes_read := add_metric (mt_bytes_read m) bytes\<rparr>"

definition record_batch_read :: "nat \<Rightarrow> nat \<Rightarrow> nat \<Rightarrow> metrics \<Rightarrow> metrics" where
  "record_batch_read keys loaded_bytes loaded_nodes m =
     m\<lparr>mt_store_batch_get_calls := add_metric (mt_store_batch_get_calls m) 1,
       mt_store_batch_get_keys := add_metric (mt_store_batch_get_keys m) keys,
       mt_nodes_read := add_metric (mt_nodes_read m) loaded_nodes, mt_bytes_read := add_metric (mt_bytes_read m) loaded_bytes\<rparr>"

definition record_batch_write :: "nat \<Rightarrow> nat \<Rightarrow> metrics \<Rightarrow> metrics" where
  "record_batch_write nodes bytes m =
     (if nodes = 0 then m
      else m\<lparr>mt_store_batch_put_calls := add_metric (mt_store_batch_put_calls m) 1,
        mt_store_batch_put_nodes := add_metric (mt_store_batch_put_nodes m) nodes,
        mt_nodes_written := add_metric (mt_nodes_written m) nodes, mt_bytes_written := add_metric (mt_bytes_written m) bytes\<rparr>)"

record execution_config =
  ec_read_parallelism :: nat
  ec_max_in_flight_bytes :: nat
  ec_node_cache_max_nodes :: nat
  ec_node_cache_max_bytes :: nat

definition nonzero :: "string \<Rightarrow> nat \<Rightarrow> error + nat" where
  "nonzero field v = (if v = 0 then Inl (InvalidExecutionConfig field v) else Inr v)"

definition execution_try_new :: "nat \<Rightarrow> nat \<Rightarrow> nat \<Rightarrow> nat \<Rightarrow> error + execution_config" where
  "execution_try_new read_parallelism max_in_flight_bytes max_nodes max_bytes =
     and_then (nonzero ''read_parallelism'' read_parallelism) (\<lambda>p.
     and_then (nonzero ''max_in_flight_bytes'' max_in_flight_bytes) (\<lambda>b.
     and_then (nonzero ''node_cache_max_nodes'' max_nodes) (\<lambda>n.
     and_then (nonzero ''node_cache_max_bytes'' max_bytes) (\<lambda>m.
     Inr \<lparr>ec_read_parallelism = p, ec_max_in_flight_bytes = b, ec_node_cache_max_nodes = n, ec_node_cache_max_bytes = m\<rparr>))))"

definition execution_default :: execution_config where
  "execution_default = \<lparr>ec_read_parallelism = 16, ec_max_in_flight_bytes = 64 * 1024 * 1024,
     ec_node_cache_max_nodes = 16384, ec_node_cache_max_bytes = 256 * 1024 * 1024\<rparr>"

record operation_stats =
  os_cache_hits :: u64
  os_cache_misses :: u64
  os_nodes_read :: u64
  os_bytes_read :: u64
  os_nodes_written :: u64
  os_bytes_written :: u64
  os_peak_in_flight_reads :: nat

record operation_context =
  oc_limits :: execution_config
  oc_stats :: operation_stats
  oc_cancelled :: bool

definition operation_new :: "execution_config \<Rightarrow> operation_context" where
  "operation_new limits = \<lparr>oc_limits = limits,
     oc_stats = \<lparr>os_cache_hits = 0, os_cache_misses = 0, os_nodes_read = 0, os_bytes_read = 0, os_nodes_written = 0,
       os_bytes_written = 0, os_peak_in_flight_reads = 0\<rparr>, oc_cancelled = False\<rparr>"

definition on_stats :: "(operation_stats \<Rightarrow> operation_stats) \<Rightarrow> operation_context \<Rightarrow> operation_context" where
  "on_stats f op = op\<lparr>oc_stats := f (oc_stats op)\<rparr>"

definition record_cache_hit :: "operation_context \<Rightarrow> operation_context" where
  "record_cache_hit = on_stats (\<lambda>s. s\<lparr>os_cache_hits := saturating_add (os_cache_hits s) 1\<rparr>)"

definition record_cache_miss :: "operation_context \<Rightarrow> operation_context" where
  "record_cache_miss = on_stats (\<lambda>s. s\<lparr>os_cache_misses := saturating_add (os_cache_misses s) 1\<rparr>)"

definition record_read :: "nat \<Rightarrow> operation_context \<Rightarrow> operation_context" where
  "record_read bytes = on_stats (\<lambda>s. s\<lparr>os_nodes_read := saturating_add (os_nodes_read s) 1,
     os_bytes_read := saturating_add (os_bytes_read s) (of_nat bytes)\<rparr>)"

definition record_write :: "nat \<Rightarrow> operation_context \<Rightarrow> operation_context" where
  "record_write bytes = on_stats (\<lambda>s. s\<lparr>os_nodes_written := saturating_add (os_nodes_written s) 1,
     os_bytes_written := saturating_add (os_bytes_written s) (of_nat bytes)\<rparr>)"

definition observe_in_flight_reads :: "nat \<Rightarrow> operation_context \<Rightarrow> operation_context" where
  "observe_in_flight_reads reads = on_stats (\<lambda>s. s\<lparr>os_peak_in_flight_reads := max (os_peak_in_flight_reads s) reads\<rparr>)"

definition operation_cancel :: "operation_context \<Rightarrow> operation_context" where
  "operation_cancel op = op\<lparr>oc_cancelled := True\<rparr>"

section \<open>Validation\<close>

record shared_read =
  sr_bytes :: bytes
  sr_cid_verified :: bool

definition unverified :: "bytes \<Rightarrow> shared_read" where
  "unverified bs = \<lparr>sr_bytes = bs, sr_cid_verified = False\<rparr>"

definition cid_verified :: "bytes \<Rightarrow> shared_read" where
  "cid_verified bs = \<lparr>sr_bytes = bs, sr_cid_verified = True\<rparr>"

definition validate_cid :: "hash256 \<Rightarrow> cid \<Rightarrow> bytes \<Rightarrow> error + unit" where
  "validate_cid sha256 expected bs =
     (let actual = cid_from_bytes sha256 bs in if actual = expected then Inr () else Inl (CidMismatch expected actual))"

definition invalid_node_error :: "error \<Rightarrow> error" where
  "invalid_node_error e = (case e of Deserialize _ \<Rightarrow> InvalidNode | _ \<Rightarrow> e)"

definition format_mismatch :: "hash256 \<Rightarrow> tree_format \<Rightarrow> tree_format \<Rightarrow> error + 'a" where
  "format_mismatch sha256 expected actual =
     and_then (format_digest sha256 expected) (\<lambda>e.
     and_then (format_digest sha256 actual) (\<lambda>a. Inl (FormatMismatch e a)))"

definition decode_owned :: "hash256 \<Rightarrow> cid \<Rightarrow> tree_format \<Rightarrow> bytes \<Rightarrow> error + node" where
  "decode_owned sha256 expected_cid expected_format bs =
     and_then (validate_cid sha256 expected_cid bs) (\<lambda>_.
     case from_bytes_with_format sha256 bs expected_format of Inl e \<Rightarrow> Inl (invalid_node_error e) | Inr n \<Rightarrow> Inr n)"

definition decode_cid_verified_read :: "hash256 \<Rightarrow> tree_format \<Rightarrow> bytes \<Rightarrow> error + read_node" where
  "decode_cid_verified_read sha256 expected_format bs =
     and_then (case from_shared bs of Inl e \<Rightarrow> Inl (invalid_node_error e) | Inr n \<Rightarrow> Inr n) (\<lambda>node.
     if rn_format node \<noteq> expected_format then format_mismatch sha256 expected_format (rn_format node) else Inr node)"

definition decode_read :: "hash256 \<Rightarrow> cid \<Rightarrow> tree_format \<Rightarrow> bytes \<Rightarrow> error + read_node" where
  "decode_read sha256 expected_cid expected_format bs =
     and_then (validate_cid sha256 expected_cid bs) (\<lambda>_. decode_cid_verified_read sha256 expected_format bs)"

definition decode_validated_read :: "hash256 \<Rightarrow> cid \<Rightarrow> tree_format \<Rightarrow> shared_read \<Rightarrow> error + read_node" where
  "decode_validated_read sha256 expected_cid expected_format rd =
     and_then (if \<not> sr_cid_verified rd then validate_cid sha256 expected_cid (sr_bytes rd) else Inr ()) (\<lambda>_.
     decode_cid_verified_read sha256 expected_format (sr_bytes rd))"

definition validate_cached_node :: "hash256 \<Rightarrow> node \<Rightarrow> tree_format \<Rightarrow> error + unit" where
  "validate_cached_node sha256 node expected_format =
     (if nd_format node \<noteq> expected_format then format_mismatch sha256 expected_format (nd_format node) else Inr ())"

definition validate_cached_read_node :: "hash256 \<Rightarrow> read_node \<Rightarrow> tree_format \<Rightarrow> error + unit" where
  "validate_cached_read_node sha256 node expected_format =
     (if rn_format node \<noteq> expected_format then format_mismatch sha256 expected_format (rn_format node) else Inr ())"

section \<open>The store interface of the engine\<close>

record 's read_store =
  st_get :: "'s \<Rightarrow> bytes \<Rightarrow> error + bytes option"
  st_get_validated_shared :: "'s \<Rightarrow> bytes \<Rightarrow> error + shared_read option"
  st_batch_get_validated_shared_ordered_unique :: "'s \<Rightarrow> bytes list \<Rightarrow> error + shared_read option list"
  st_has_native_shared_reads :: bool
  st_prefers_batch_reads :: bool

text \<open>The default methods of \<open>Store\<close>, and what \<open>MemStore\<close> overrides.\<close>

definition get_validated_shared :: "('s \<Rightarrow> bytes \<Rightarrow> error + bytes option) \<Rightarrow> 's \<Rightarrow> bytes \<Rightarrow> error + shared_read option" where
  "get_validated_shared get_shared s key = map_ok (map_option unverified) (get_shared s key)"

definition batch_get_validated_shared_ordered_unique ::
  "('s \<Rightarrow> bytes list \<Rightarrow> error + bytes option list) \<Rightarrow> 's \<Rightarrow> bytes list \<Rightarrow> error + shared_read option list" where
  "batch_get_validated_shared_ordered_unique batch s keys = map_ok (map (map_option unverified)) (batch s keys)"

definition mem_get_shared :: "mem_store \<Rightarrow> bytes \<Rightarrow> error + bytes option" where
  "mem_get_shared s key = and_then (lock_data s) (\<lambda>data. Inr (bt_get key data))"

definition mem_batch_get_shared_ordered_unique :: "mem_store \<Rightarrow> bytes list \<Rightarrow> error + bytes option list" where
  "mem_batch_get_shared_ordered_unique s keys = and_then (lock_data s) (\<lambda>data. Inr (map (\<lambda>key. bt_get key data) keys))"

definition mem_read_store :: "mem_store read_store" where
  "mem_read_store = \<lparr>st_get = mem_get, st_get_validated_shared = get_validated_shared mem_get_shared,
     st_batch_get_validated_shared_ordered_unique = batch_get_validated_shared_ordered_unique mem_batch_get_shared_ordered_unique,
     st_has_native_shared_reads = True, st_prefers_batch_reads = True\<rparr>"

section \<open>The engine\<close>

record 's engine =
  en_store :: 's
  en_config :: config
  en_execution :: execution_config
  en_node_cache :: node_cache
  en_cache_poisoned :: bool
  en_metrics :: metrics
  en_format_digest :: "cid option"
  en_recent_leaf :: "(cid \<times> read_node) option"
  en_recent_poisoned :: bool

definition with_execution_config :: "hash256 \<Rightarrow> 's \<Rightarrow> config \<Rightarrow> execution_config \<Rightarrow> 's engine" where
  "with_execution_config sha256 store cfg execution =
     \<lparr>en_store = store, en_config = cfg, en_execution = execution,
      en_node_cache = cache_new (rc_node_cache_max_nodes (cfg_runtime cfg)) (map_option of_nat (rc_node_cache_max_bytes (cfg_runtime cfg))),
      en_cache_poisoned = False, en_metrics = metrics_default,
      en_format_digest = (case format_digest sha256 (cfg_format cfg) of Inr digest \<Rightarrow> Some digest | Inl e \<Rightarrow> None),
      en_recent_leaf = None, en_recent_poisoned = False\<rparr>"

definition engine_new :: "hash256 \<Rightarrow> 's \<Rightarrow> config \<Rightarrow> 's engine" where
  "engine_new sha256 store cfg = with_execution_config sha256 store cfg execution_default"

definition engine_format_digest :: "hash256 \<Rightarrow> 's engine \<Rightarrow> (error + cid) \<times> 's engine" where
  "engine_format_digest sha256 en =
     (case en_format_digest en of
        Some digest \<Rightarrow> (Inr digest, en)
      | None \<Rightarrow> (case format_digest sha256 (cfg_format (en_config en)) of
          Inl e \<Rightarrow> (Inl e, en)
        | Inr digest \<Rightarrow> (Inr digest, en\<lparr>en_format_digest := Some digest\<rparr>)))"

definition on_metrics :: "(metrics \<Rightarrow> metrics) \<Rightarrow> 's engine \<Rightarrow> 's engine" where
  "on_metrics f en = en\<lparr>en_metrics := f (en_metrics en)\<rparr>"

text \<open>
  The accesses to the cache under its lock.  A panic inside would leave the lock poisoned;
  only the conversion of a packed entry to an owned one can panic.
\<close>

definition cache_get_read :: "cid \<Rightarrow> 's engine \<Rightarrow> read_node option \<times> 's engine" where
  "cache_get_read cid en =
     (if en_cache_poisoned en then (None, en)
      else case get_read cid (en_node_cache en) of (r, c) \<Rightarrow> (r, en\<lparr>en_node_cache := c\<rparr>))"

definition cache_get_owned :: "cid \<Rightarrow> 's engine \<Rightarrow> (error + node option) \<times> 's engine" where
  "cache_get_owned cid en =
     (if en_cache_poisoned en then (Inr None, en)
      else case node_cache_get cid (en_node_cache en) of
        Inl e \<Rightarrow> (Inl e, en\<lparr>en_cache_poisoned := True\<rparr>)
      | Inr (r, c) \<Rightarrow> (Inr r, en\<lparr>en_node_cache := c\<rparr>))"

definition admit_read :: "cid \<Rightarrow> read_node \<Rightarrow> 's engine \<Rightarrow> 's engine" where
  "admit_read cid node en =
     (if en_cache_poisoned en then en
      else case insert_read cid node (en_node_cache en) of
        (evictions, c) \<Rightarrow> on_metrics (add_cache_evictions evictions) (en\<lparr>en_node_cache := c\<rparr>))"

text \<open>The read of a node that is in no cache.\<close>

definition fetch_read ::
  "'s read_store \<Rightarrow> hash256 \<Rightarrow> tree_format \<Rightarrow> cid \<Rightarrow> 's engine \<times> operation_context \<Rightarrow> (error + read_node) \<times> 's engine \<times> operation_context" where
  "fetch_read ops sha256 f cid = (\<lambda>(en, op).
     let op = record_cache_miss op; en = on_metrics (add_cache_misses 1) en in
     case and_then (st_get_validated_shared ops (en_store en) cid) (\<lambda>r. ok_or r (NotFound cid)) of
       Inl e \<Rightarrow> (Inl e, en, op)
     | Inr rd \<Rightarrow>
         let op = record_read (length (sr_bytes rd)) op; en = on_metrics (record_point_read (length (sr_bytes rd))) en in
         case decode_validated_read sha256 cid f rd of
           Inl e \<Rightarrow> (Inl e, en, op)
         | Inr node \<Rightarrow> (Inr node, admit_read cid node en, op))"

definition repack_owned :: "hash256 \<Rightarrow> tree_format \<Rightarrow> cid \<Rightarrow> node \<Rightarrow> error + read_node" where
  "repack_owned sha256 f cid owned =
     and_then (validate_cached_node sha256 owned f) (\<lambda>_.
     and_then (to_bytes owned) (\<lambda>bs. decode_read sha256 cid f bs))"

definition load_read ::
  "'s read_store \<Rightarrow> hash256 \<Rightarrow> tree \<Rightarrow> cid \<Rightarrow> 's engine \<times> operation_context \<Rightarrow> (error + read_node) \<times> 's engine \<times> operation_context" where
  "load_read ops sha256 t cid = (\<lambda>(en, op).
     let f = cfg_format (tr_config t) in
     case cache_get_read cid en of
       (Some node, en) \<Rightarrow> (Inr node, on_metrics (add_cache_hits 1) en, record_cache_hit op)
     | (None, en) \<Rightarrow>
         (case (if st_has_native_shared_reads ops then (Inr None, en) else cache_get_owned cid en) of
            (Inl e, en) \<Rightarrow> (Inl e, en, op)
          | (Inr None, en) \<Rightarrow> fetch_read ops sha256 f cid (en, op)
          | (Inr (Some owned), en) \<Rightarrow>
              (case repack_owned sha256 f cid owned of
                 Inl e \<Rightarrow> (Inl e, en, op)
               | Inr node \<Rightarrow> (Inr node, on_metrics (add_cache_hits 1) (admit_read cid node en), record_cache_hit op))))"

definition load_owned ::
  "'s read_store \<Rightarrow> hash256 \<Rightarrow> tree \<Rightarrow> cid \<Rightarrow> 's engine \<times> operation_context \<Rightarrow> (error + node) \<times> 's engine \<times> operation_context" where
  "load_owned ops sha256 t cid = (\<lambda>(en, op).
     case cache_get_owned cid en of
       (Inl e, en) \<Rightarrow> (Inl e, en, op)
     | (Inr (Some node), en) \<Rightarrow> (Inr node, on_metrics (add_cache_hits 1) en, record_cache_hit op)
     | (Inr None, en) \<Rightarrow>
         let op = record_cache_miss op; en = on_metrics (add_cache_misses 1) en in
         (case and_then (st_get ops (en_store en) cid) (\<lambda>r. ok_or r (NotFound cid)) of
            Inl e \<Rightarrow> (Inl e, en, op)
          | Inr bs \<Rightarrow>
              let op = record_read (length bs) op; en = on_metrics (record_point_read (length bs)) en in
              case decode_owned sha256 cid (cfg_format (tr_config t)) bs of
                Inl e \<Rightarrow> (Inl e, en, op)
              | Inr node \<Rightarrow>
                  (Inr node,
                   if en_cache_poisoned en then en
                   else case cache_insert cid node (of_nat (length bs)) (en_node_cache en) of
                     (evictions, c) \<Rightarrow> on_metrics (add_cache_evictions evictions) (en\<lparr>en_node_cache := c\<rparr>),
                   op)))"

definition load_scan_read_arc_ready ::
  "'s read_store \<Rightarrow> hash256 \<Rightarrow> cid \<Rightarrow> bool \<Rightarrow> 's engine \<Rightarrow> (error + read_node) \<times> 's engine" where
  "load_scan_read_arc_ready ops sha256 cid observe_only en =
     (let f = cfg_format (en_config en) in
      case (if en_cache_poisoned en then None else peek_read cid (en_node_cache en)) of
        Some node \<Rightarrow> (Inr node, on_metrics (add_cache_hits 1) en)
      | None \<Rightarrow>
          let unbounded = (\<not> en_cache_poisoned en \<and> is_unbounded (en_node_cache en));
              admit = (\<not> observe_only \<or> unbounded);
              owned = (if st_has_native_shared_reads ops then (Inr None, en)
                else if observe_only then
                  (if en_cache_poisoned en then (Inr None, en)
                   else case cache_peek cid (en_node_cache en) of
                     Inl e \<Rightarrow> (Inl e, en)
                   | Inr (n, c) \<Rightarrow> (Inr n, en\<lparr>en_node_cache := c\<rparr>))
                else cache_get_owned cid en) in
          (case owned of
             (Inl e, en) \<Rightarrow> (Inl e, en)
           | (Inr (Some n), en) \<Rightarrow>
               (case and_then (to_bytes n) (decode_read sha256 cid f) of
                  Inl e \<Rightarrow> (Inl e, en)
                | Inr node \<Rightarrow> (Inr node, on_metrics (add_cache_hits 1) (if admit then admit_read cid node en else en)))
           | (Inr None, en) \<Rightarrow>
               let en = on_metrics (add_cache_misses 1) en in
               (case and_then (st_get_validated_shared ops (en_store en) cid) (\<lambda>r. ok_or r (NotFound cid)) of
                  Inl e \<Rightarrow> (Inl e, en)
                | Inr rd \<Rightarrow>
                    let en = on_metrics (record_point_read (length (sr_bytes rd))) en in
                    case decode_validated_read sha256 cid f rd of
                      Inl e \<Rightarrow> (Inl e, en)
                    | Inr node \<Rightarrow> (Inr node, if admit then admit_read cid node en else en))))"

section \<open>Batches of nodes\<close>

record inline_positions =
  ip_first :: nat
  ip_rest :: "nat list"

definition positions_new :: "nat \<Rightarrow> inline_positions" where
  "positions_new first = \<lparr>ip_first = first, ip_rest = []\<rparr>"

definition positions_from_vec :: "nat list \<Rightarrow> inline_positions option" where
  "positions_from_vec positions = (case positions of [] \<Rightarrow> None | first # rest \<Rightarrow> Some \<lparr>ip_first = first, ip_rest = rest\<rparr>)"

definition positions_push :: "nat \<Rightarrow> inline_positions \<Rightarrow> inline_positions" where
  "positions_push pos p = p\<lparr>ip_rest := ip_rest p @ [pos]\<rparr>"

definition positions_len :: "inline_positions \<Rightarrow> nat" where
  "positions_len p = 1 + length (ip_rest p)"

definition positions_at :: "inline_positions \<Rightarrow> nat \<Rightarrow> error + nat" where
  "positions_at p offset =
     (if offset = 0 then Inr (ip_first p)
      else if offset - 1 < length (ip_rest p) then Inr (ip_rest p ! (offset - 1)) else Inl (Panic ''index out of bounds''))"

definition positions_iter :: "inline_positions \<Rightarrow> nat list" where
  "positions_iter p = ip_first p # ip_rest p"

record missing_node_batch =
  mb_indexes :: "(cid \<times> nat) list"
  mb_cids :: "cid list"
  mb_positions :: "inline_positions list"

definition missing_empty :: missing_node_batch where
  "missing_empty = \<lparr>mb_indexes = [], mb_cids = [], mb_positions = []\<rparr>"

definition missing_record :: "cid \<Rightarrow> nat \<Rightarrow> missing_node_batch \<Rightarrow> error + missing_node_batch" where
  "missing_record cid pos b =
     (case map_of (mb_indexes b) cid of
        Some i \<Rightarrow>
          if i < length (mb_positions b)
          then Inr (b\<lparr>mb_positions := (mb_positions b)[i := positions_push pos (mb_positions b ! i)]\<rparr>)
          else Inl (Panic ''index out of bounds'')
      | None \<Rightarrow> Inr \<lparr>mb_indexes = (cid, length (mb_cids b)) # mb_indexes b, mb_cids = mb_cids b @ [cid],
          mb_positions = mb_positions b @ [positions_new pos]\<rparr>)"

primrec plan_cached_loop ::
  "(cid \<Rightarrow> 'e \<Rightarrow> 'n option \<times> 'e) \<Rightarrow> cid list \<Rightarrow> nat \<Rightarrow> 'n option list \<Rightarrow> missing_node_batch \<Rightarrow> nat \<Rightarrow> 'e \<Rightarrow>
   error + ('n option list \<times> missing_node_batch \<times> nat) \<times> 'e" where
  "plan_cached_loop look_up [] pos nodes missing cache_hits en = Inr ((nodes, missing, cache_hits), en)"
| "plan_cached_loop look_up (cid # cids) pos nodes missing cache_hits en =
     (case look_up cid en of
        (Some node, en) \<Rightarrow> plan_cached_loop look_up cids (pos + 1) (nodes @ [Some node]) missing (cache_hits + 1) en
      | (None, en) \<Rightarrow> and_then (missing_record cid pos missing) (\<lambda>missing.
          plan_cached_loop look_up cids (pos + 1) (nodes @ [None]) missing cache_hits en))"

definition plan_cached_nodes ::
  "(cid \<Rightarrow> 'e \<Rightarrow> 'n option \<times> 'e) \<Rightarrow> cid list \<Rightarrow> 'e \<Rightarrow> error + ('n option list \<times> missing_node_batch option \<times> nat) \<times> 'e" where
  "plan_cached_nodes look_up cids en =
     and_then (plan_cached_loop look_up cids 0 [] missing_empty 0 en) (\<lambda>((nodes, missing, cache_hits), en).
     Inr ((nodes, if mb_cids missing \<noteq> [] then Some missing else None, cache_hits), en))"

definition set_slot :: "nat \<Rightarrow> 'a \<Rightarrow> 'a list \<Rightarrow> error + 'a list" where
  "set_slot i v xs = (if i < length xs then Inr (xs[i := v]) else Inl (Panic ''index out of bounds''))"

primrec set_slots :: "nat list \<Rightarrow> 'a \<Rightarrow> 'a list \<Rightarrow> error + 'a list" where
  "set_slots [] v xs = Inr xs"
| "set_slots (i # is) v xs = and_then (set_slot i v xs) (set_slots is v)"

primrec decode_batch ::
  "hash256 \<Rightarrow> tree_format \<Rightarrow> (cid \<times> shared_read option) list \<Rightarrow> operation_context \<Rightarrow>
   (error + (cid \<times> read_node \<times> nat) list) \<times> operation_context" where
  "decode_batch sha256 f [] op = (Inr [], op)"
| "decode_batch sha256 f (p # ps) op =
     (case p of (cid, rd) \<Rightarrow>
      case ok_or rd (NotFound cid) of
        Inl e \<Rightarrow> (Inl e, op)
      | Inr rd \<Rightarrow>
          let op = record_read (length (sr_bytes rd)) op in
          case decode_validated_read sha256 cid f rd of
            Inl e \<Rightarrow> (Inl e, op)
          | Inr node \<Rightarrow> (case decode_batch sha256 f ps op of
              (Inl e, op) \<Rightarrow> (Inl e, op)
            | (Inr decoded, op) \<Rightarrow> (Inr ((cid, node, length (sr_bytes rd)) # decoded), op)))"

primrec place_batch ::
  "((cid \<times> read_node \<times> nat) \<times> inline_positions) list \<Rightarrow> nat \<Rightarrow> read_node option list \<Rightarrow> 's engine \<Rightarrow>
   (error + nat \<times> read_node option list) \<times> 's engine" where
  "place_batch [] evictions nodes en = (Inr (evictions, nodes), en)"
| "place_batch (d # ds) evictions nodes en =
     (case d of ((cid, node, n), positions) \<Rightarrow>
      case (if en_cache_poisoned en then (evictions, en)
            else case insert_read cid node (en_node_cache en) of (n, c) \<Rightarrow> (evictions + n, en\<lparr>en_node_cache := c\<rparr>)) of
        (evictions, en) \<Rightarrow>
          (case set_slots (positions_iter positions) (Some node) nodes of
             Inl e \<Rightarrow> (Inl e, en\<lparr>en_cache_poisoned := True\<rparr>)
           | Inr nodes \<Rightarrow> place_batch ds evictions nodes en))"

definition load_missing ::
  "'s read_store \<Rightarrow> hash256 \<Rightarrow> tree_format \<Rightarrow> missing_node_batch \<Rightarrow> read_node option list \<Rightarrow> 's engine \<times> operation_context \<Rightarrow>
   (error + read_node option list) \<times> 's engine \<times> operation_context" where
  "load_missing ops sha256 f b nodes = (\<lambda>(en, op).
     let missing_cids = mb_cids b; n = length missing_cids;
         op = observe_in_flight_reads n ((record_cache_miss ^^ n) op); en = on_metrics (add_cache_misses n) en in
     case st_batch_get_validated_shared_ordered_unique ops (en_store en) missing_cids of
       Inl e \<Rightarrow> (Inl e, en, op)
     | Inr loaded \<Rightarrow>
         if length loaded \<noteq> n then (Inl InvalidNode, en, op)
         else case decode_batch sha256 f (zip missing_cids loaded) op of
           (Inl e, op) \<Rightarrow> (Inl e, en, op)
         | (Inr decoded, op) \<Rightarrow>
             let en = on_metrics (record_batch_read n (sum_list (map (\<lambda>(cid, node, bytes). bytes) decoded)) (length decoded)) en in
             case place_batch (zip decoded (mb_positions b)) 0 nodes en of
               (Inl e, en) \<Rightarrow> (Inl e, en, op)
             | (Inr (evictions, nodes), en) \<Rightarrow> (Inr nodes, on_metrics (add_cache_evictions evictions) en, op))"

definition load_many_engine_read_ordered ::
  "'s read_store \<Rightarrow> hash256 \<Rightarrow> tree \<Rightarrow> cid list \<Rightarrow> 's engine \<times> operation_context \<Rightarrow>
   (error + read_node list) \<times> 's engine \<times> operation_context" where
  "load_many_engine_read_ordered ops sha256 t cids = (\<lambda>(en, op).
     case plan_cached_nodes cache_get_read cids en of
       Inl e \<Rightarrow> (Inl e, en, op)
     | Inr ((nodes, missing, hits), en) \<Rightarrow>
         let en = on_metrics (add_cache_hits hits) en; op = (record_cache_hit ^^ hits) op in
         case (case missing of None \<Rightarrow> (Inr nodes, en, op)
               | Some b \<Rightarrow> load_missing ops sha256 (cfg_format (tr_config t)) b nodes (en, op)) of
           (Inl e, en, op) \<Rightarrow> (Inl e, en, op)
         | (Inr nodes, en, op) \<Rightarrow> (ok_or (collect_opt nodes) InvalidNode, en, op))"

end
