(* ===== verification/Engine_Read.thy ===== *)
theory Engine_Read
  imports Engine_State Tree_Spec
begin

text \<open>
  Point lookups of the engine (\<open>ProllyEngine::get\<close> of \<^verbatim>\<open>src/src/prolly/engine/mod.rs\<close>): the shortcut
  through the leaf read last, and the descent from the root, which loads, checks and searches
  one node per level.  The descent does not check that levels decrease, so it is a partial
  function; on a tree that holds its entries it returns, with the value of the key.
\<close>

section \<open>Definitions\<close>

definition search_index :: "read_node \<Rightarrow> bytes \<Rightarrow> error + nat option" where
  "search_index node key =
     (case read_search node key of
        None \<Rightarrow> Inl (Panic ''slice out of range'')
      | Some (Inr index) \<Rightarrow> Inr (Some index)
      | Some (Inl index) \<Rightarrow> Inr (if index = 0 then None else Some (index - 1)))"

partial_function (option) get_loop ::
  "'s read_store \<Rightarrow> hash256 \<Rightarrow> tree \<Rightarrow> bytes \<Rightarrow> cid \<Rightarrow> bool \<Rightarrow> cid \<Rightarrow> 's engine \<times> operation_context \<Rightarrow>
   ((error + bytes option) \<times> 's engine) option" where
  "get_loop ops sha256 t key root recent_leaf_enabled cid st =
     (case load_read ops sha256 t cid st of
        (Inl e, en, op) \<Rightarrow> Some (Inl e, en)
      | (Inr node, en, op) \<Rightarrow>
          (case and_then (validate_cached_read_node sha256 node (cfg_format (tr_config t))) (\<lambda>_. search_index node key) of
             Inl e \<Rightarrow> Some (Inl e, en)
           | Inr None \<Rightarrow> Some (Inr None, en)
           | Inr (Some index) \<Rightarrow>
               if rn_leaf node then
                 Some (Inr (if read_key node index = Some key then read_value node index else None),
                   if recent_leaf_enabled \<and> \<not> en_recent_poisoned en then en\<lparr>en_recent_leaf := Some (root, node)\<rparr> else en)
               else (case child_cid node index of
                 Inl e \<Rightarrow> Some (Inl e, en)
               | Inr cid \<Rightarrow> get_loop ops sha256 t key root recent_leaf_enabled cid (en, op))))"

definition in_leaf_range :: "read_node \<Rightarrow> bytes \<Rightarrow> bool" where
  "in_leaf_range leaf key =
     (case (read_key leaf 0, read_key leaf (read_len leaf - 1)) of
        (Some first, Some final) \<Rightarrow> first \<le> key \<and> key \<le> final
      | _ \<Rightarrow> False)"

definition recent_leaf_value :: "read_node \<Rightarrow> bytes \<Rightarrow> error + bytes option" where
  "recent_leaf_value leaf key =
     (case read_search leaf key of
        None \<Rightarrow> Inl (Panic ''slice out of range'')
      | Some (Inr index) \<Rightarrow> Inr (read_value leaf index)
      | Some (Inl index) \<Rightarrow> Inr None)"

definition engine_get ::
  "'s read_store \<Rightarrow> hash256 \<Rightarrow> tree \<Rightarrow> bytes \<Rightarrow> 's engine \<Rightarrow> ((error + bytes option) \<times> 's engine) option" where
  "engine_get ops sha256 t key en =
     (case tr_root t of
        None \<Rightarrow> Some (Inr None, en)
      | Some root \<Rightarrow>
          let recent_leaf_enabled = (\<not> en_cache_poisoned en \<and> \<not> is_disabled (en_node_cache en));
              recent = (if recent_leaf_enabled \<and> \<not> en_recent_poisoned en
                then (case en_recent_leaf en of Some (recent_root, node) \<Rightarrow> if recent_root = root then Some node else None | None \<Rightarrow> None)
                else None);
              descend = get_loop ops sha256 t key root recent_leaf_enabled root (en, operation_new (en_execution en)) in
          (case recent of
             None \<Rightarrow> descend
           | Some leaf \<Rightarrow>
               (case validate_cached_read_node sha256 leaf (cfg_format (tr_config t)) of
                  Inl e \<Rightarrow> Some (Inl e, en)
                | Inr _ \<Rightarrow>
                    if in_leaf_range leaf key then Some (recent_leaf_value leaf key, on_metrics (add_cache_hits 1) en)
                    else descend)))"

text \<open>Lookups one after the other on one engine, as a client issues them.\<close>

primrec engine_gets ::
  "'s read_store \<Rightarrow> hash256 \<Rightarrow> tree \<Rightarrow> bytes list \<Rightarrow> 's engine \<Rightarrow> (bytes option list \<times> 's engine) option" where
  "engine_gets ops sha256 t [] en = Some ([], en)"
| "engine_gets ops sha256 t (key # keys) en =
     (case engine_get ops sha256 t key en of
        Some (Inr v, en) \<Rightarrow> map_option (\<lambda>(vs, en). (v # vs, en)) (engine_gets ops sha256 t keys en)
      | _ \<Rightarrow> None)"

section \<open>Cached nodes\<close>

text \<open>What a cache may hold: for an identifier, the packed form of the stored bytes or an owned node that encodes to them.\<close>

definition cached_entry :: "(cid \<Rightarrow> bytes option) \<Rightarrow> cid \<Rightarrow> node_cache_entry \<Rightarrow> bool" where
  "cached_entry look cid e \<longleftrightarrow>
     (\<forall>r. ce_read e = Some r \<longrightarrow> (\<exists>bs. look cid = Some bs \<and> from_shared bs = Inr r)) \<and>
     (ce_read e = None \<longrightarrow> (\<exists>n bs r. ce_owned e = Some n \<and> look cid = Some bs \<and> to_bytes n = Inr bs \<and>
        from_shared bs = Inr r \<and> nd_format n = rn_format r))"

definition cached_ok :: "(cid \<Rightarrow> bytes option) \<Rightarrow> node_cache \<Rightarrow> bool" where
  "cached_ok look c \<longleftrightarrow> (\<forall>(cid, e) \<in> set (nc_nodes c). cached_entry look cid e)"

lemma cached_ok_new: "cached_ok look (cache_new max_nodes max_bytes)"
  by (simp add: cached_ok_def cache_new_def)

lemma cached_ok_subset: "cached_ok look c \<Longrightarrow> set (nc_nodes c') \<subseteq> set (nc_nodes c) \<Longrightarrow> cached_ok look c'"
  by (auto simp: cached_ok_def)

lemma set_alist_update: "set (AList.update k v xs) \<subseteq> insert (k, v) (set xs)"
  by (induction xs) auto

lemma cached_ok_update:
  assumes "cached_ok look c" "cached_entry look cid e" "nc_nodes c' = AList.update cid e (nc_nodes c)"
  shows "cached_ok look c'"
  using assms set_alist_update [of cid e "nc_nodes c"] by (auto simp: cached_ok_def)

lemma cached_entry_found: "cached_ok look c \<Longrightarrow> map_of (nc_nodes c) cid = Some e \<Longrightarrow> cached_entry look cid e"
  using map_of_SomeD [of "nc_nodes c" cid e] by (auto simp: cached_ok_def)

lemma cached_entry_updates [simp]:
  "cached_entry look cid (e\<lparr>ce_generation := g\<rparr>) = cached_entry look cid e"
  "ce_read e = Some r \<Longrightarrow> cached_entry look cid (e\<lparr>ce_owned := n\<rparr>) = cached_entry look cid e"
  by (simp_all add: cached_entry_def)

lemma compact_nodes [simp]: "nc_nodes (compact_access_log_if_needed c) = nc_nodes c"
  by (simp add: compact_access_log_if_needed_def)

lemma evict_loop_nodes: "set (nc_nodes (snd (evict_loop evicted scanned c))) \<subseteq> set (nc_nodes c)"
proof -
  have del: "set (nc_nodes (snd (remove_entry cid d))) \<subseteq> set (nc_nodes d)" for cid d
    by (auto simp: remove_entry_def AList.delete_eq split: option.split)
  have "\<exists>n. set (nc_nodes (snd (evict_loop evicted scanned c))) \<subseteq> set (nc_nodes c) \<and>
    (exceeds_limit (snd (evict_loop evicted scanned c)) \<longrightarrow> length (nc_access_log (snd (evict_loop evicted scanned c))) \<le> n)"
  proof (rule evict_loop_invariant [where I = "\<lambda>n d. set (nc_nodes d) \<subseteq> set (nc_nodes c)"])
    fix d :: node_cache and cid rest assume "set (nc_nodes d) \<subseteq> set (nc_nodes c)"
    then show "set (nc_nodes (snd (remove_entry cid (d\<lparr>nc_access_log := rest\<rparr>)))) \<subseteq> set (nc_nodes c)"
      using del [of cid "d\<lparr>nc_access_log := rest\<rparr>"] by simp
  qed simp_all
  then show ?thesis by blast
qed

lemma cached_ok_finish:
  "cached_ok look c \<Longrightarrow> cached_ok look (compact_access_log_if_needed (snd (evict_to_limit (c\<lparr>nc_access_log := l\<rparr>))))"
  by (rule cached_ok_subset) (use evict_loop_nodes [of 0 0 "c\<lparr>nc_access_log := l\<rparr>"] in \<open>auto simp: evict_to_limit_def\<close>)

lemma get_read_cached:
  assumes "cached_ok look c"
  shows "cached_ok look (snd (get_read cid c))" "fst (get_read cid c) = Some r \<Longrightarrow> \<exists>bs. look cid = Some bs \<and> from_shared bs = Inr r"
proof -
  show "cached_ok look (snd (get_read cid c))"
  proof (cases "is_unbounded c \<or> map_of (nc_nodes c) cid = None \<or> (\<exists>e. map_of (nc_nodes c) cid = Some e \<and> ce_read e = None)")
    case True
    then show ?thesis using assms by (auto simp: get_read_def)
  next
    case False
    then obtain e r where e: "map_of (nc_nodes c) cid = Some e" "ce_read e = Some r" "\<not> is_unbounded c" by auto
    have "cached_entry look cid (e\<lparr>ce_generation := nc_next_generation c + 1\<rparr>)" using cached_entry_found [OF assms e(1)] by simp
    then show ?thesis by (rule cached_ok_update [OF assms]) (simp add: get_read_def e next_generation_def)
  qed
  show "\<exists>bs. look cid = Some bs \<and> from_shared bs = Inr r" if "fst (get_read cid c) = Some r"
    using that cached_entry_found [OF assms]
    by (auto simp: get_read_def peek_read_def next_generation_def cached_entry_def bind_eq_Some_conv split: if_splits option.splits)
qed

lemma get_read_miss: "get_read cid c = (None, c') \<Longrightarrow> c' = c"
  by (auto simp: get_read_def next_generation_def split: if_splits option.splits)

lemma insert_read_cached:
  assumes "cached_ok look c" "look cid = Some bs" "from_shared bs = Inr node"
  shows "cached_ok look (snd (insert_read cid node c))"
proof (cases "is_disabled c")
  case True
  then show ?thesis by (simp add: insert_read_def insert_read_with_pin_def cache_clear_def cached_ok_def)
next
  case False
  let ?e = "\<lparr>ce_owned = None, ce_read = Some node, ce_generation = nc_next_generation c + 1, ce_bytes = of_nat (retained_bytes node),
    ce_pinned = kept_pin cid c\<rparr>"
  let ?c = "placed cid ?e (if old_read cid (nc_nodes c) = 0 then saturating_add (nc_read_nodes c) 1 else nc_read_nodes c) c"
  have "cached_ok look ?c"
    by (rule cached_ok_update [OF assms(1)]) (use assms(2,3) in \<open>simp_all add: cached_entry_def placed_def\<close>)
  moreover have "snd (insert_read cid node c) = snd (insert_read_with_pin cid node False c)"
    by (simp add: insert_read_def case_prod_unfold)
  ultimately show ?thesis
    using cached_ok_finish by (simp add: insert_read_eq [OF False] finish_insert_def Let_def)
qed

lemma owned_cached:
  assumes "cached_ok look c" "\<And>r. fst (get_read cid c) \<noteq> Some r"
  obtains r c' where "node_cache_get cid c = Inr (r, c')" "cached_ok look c'"
    "\<And>n. r = Some n \<Longrightarrow> \<exists>bs r. look cid = Some bs \<and> to_bytes n = Inr bs \<and> from_shared bs = Inr r \<and> nd_format n = rn_format r"
proof (cases "map_of (nc_nodes c) cid")
  case None
  then show ?thesis using assms(1) by (intro that [of None c]) (auto simp: node_cache_get_def cache_peek_def)
next
  case (Some e)
  have "fst (get_read cid c) = ce_read e"
    using Some by (auto simp: get_read_def peek_read_def next_generation_def split: option.split)
  then have read: "ce_read e = None" using assms(2) by (cases "ce_read e") auto
  then obtain n bs r where n: "ce_owned e = Some n" "look cid = Some bs" "to_bytes n = Inr bs" "from_shared bs = Inr r" "nd_format n = rn_format r"
    using cached_entry_found [OF assms(1) Some] by (auto simp: cached_entry_def)
  let ?g = "if is_unbounded c then ce_generation e else nc_next_generation c + 1"
  have "\<exists>c'. node_cache_get cid c = Inr (Some n, c') \<and> nc_nodes c' = AList.update cid (e\<lparr>ce_generation := ?g\<rparr>) (nc_nodes c)"
    using Some n(1) by (cases "is_unbounded c") (simp_all add: node_cache_get_def cache_peek_def owned_or_init_def next_generation_def)
  then obtain c' where c': "node_cache_get cid c = Inr (Some n, c')" "nc_nodes c' = AList.update cid (e\<lparr>ce_generation := ?g\<rparr>) (nc_nodes c)"
    by blast
  have "cached_ok look c'"
    by (rule cached_ok_update [OF assms(1) _ c'(2)]) (use cached_entry_found [OF assms(1) Some] in simp)
  then show ?thesis using that [OF c'(1)] n by blast
qed

section \<open>Trees\<close>

lemma holds_bytes:
  assumes "holds look f l cid es"
  obtains bs r n where "look cid = Some bs" "from_shared bs = Inr r" "read_to_owned r = Some n" "nd_format n = f" "rn_format r = f"
    "rn_leaf r = (l = 0)" "nd_keys n \<noteq> []"
  using assms
proof (cases rule: holds.cases)
  case (holds_leaf bs r n)
  then show ?thesis using that owned_access(5,7) [OF holds_leaf(4)] by auto
next
  case (holds_node bs r n l' kids)
  then show ?thesis using that owned_access(5,7) [OF holds_node(4)] shared_valid(4) [OF holds_node(3,4)] by auto
qed

lemma holds_unique:
  assumes "holds look f l cid es" "holds look f' l' cid es'"
  shows "f' = f \<and> l' = l \<and> es' = es"
  using assms
proof (induction arbitrary: l' es' f' rule: holds.induct)
  case (holds_leaf cid bs r n es)
  from holds_leaf.prems show ?case
    by (cases rule: holds.cases) (use holds_leaf.hyps in auto)
next
  case (holds_node cid bs r n l kids es)
  note h = holds_node.hyps and ih = holds_node.IH
  from holds_node.prems show ?case
  proof (cases rule: holds.cases)
    case (holds_leaf bs' r' n')
    then show ?thesis using h by auto
  next
    case (holds_node bs' r' n' m kids')
    have n: "n' = n" using holds_node(2-4) h(1-3) by simp
    have "of_nat (Suc l) = (of_nat (Suc m) :: u8)" using holds_node h n by simp
    moreover have "unat (of_nat k :: u8) = k" if "k < 256" for k using that by (simp add: unat_of_nat)
    ultimately have "Suc l = Suc m" using holds_node(8) h(7) by metis
    then have "l = m" by simp
    moreover have "kids' = kids"
    proof (rule nth_equalityI)
      show "length kids' = length kids" using holds_node(9) h(8) n by simp
      fix i assume "i < length kids'"
      then show "kids' ! i = kids ! i"
        using holds_node(9,10) h(8) ih n by auto
    qed
    ultimately show ?thesis using holds_node h n by auto
  qed
qed

lemma search_ref_cases:
  assumes "sorted_wrt (<) (keys :: bytes list)"
  obtains i where "search_ref keys key = Inr i" "i < length keys" "keys ! i = key"
  | i where "search_ref keys key = Inl i" "i \<le> length keys" "\<forall>j < i. keys ! j < key" "\<forall>j. i \<le> j \<longrightarrow> j < length keys \<longrightarrow> key < keys ! j"
proof -
  define i where "i = length (takeWhile (\<lambda>k. k < key) keys)"
  have le: "i \<le> length keys" "\<forall>j < i. keys ! j < key" unfolding i_def
    by (simp add: length_takeWhile_le, metis nth_mem set_takeWhileD takeWhile_nth)
  have ge: "key \<le> keys ! j" if "i \<le> j" "j < length keys" for j
  proof -
    have "\<not> keys ! i < key" unfolding i_def by (rule nth_length_takeWhile) (use that i_def in simp)
    then show ?thesis using sorted_wrt_nth_le [OF assms that] by auto
  qed
  show thesis
  proof (cases "i < length keys \<and> keys ! i = key")
    case True
    then show ?thesis by (intro that(1) [of i]) (simp_all add: search_ref_def i_def)
  next
    case False
    have "key < keys ! j" if j: "i \<le> j" "j < length keys" for j
    proof -
      have "key < keys ! i" using False ge [of i] j by (auto simp: order_less_le)
      then show ?thesis using sorted_wrt_nth_le [OF assms j] by simp
    qed
    with False le show ?thesis by (intro that(2) [of i]) (auto simp: search_ref_def i_def)
  qed
qed

lemma search_index_cases:
  assumes "from_shared bs = Inr r" "read_to_owned r = Some n"
  obtains "search_index r key = Inr None" "\<forall>j < length (nd_keys n). key < nd_keys n ! j"
  | i where "search_index r key = Inr (Some i)" "i < length (nd_keys n)" "nd_keys n ! i \<le> key"
    "i + 1 < length (nd_keys n) \<Longrightarrow> key < nd_keys n ! (i + 1)"
proof -
  note v = shared_valid [OF assms]
  from v(1) show thesis
  proof (cases rule: search_ref_cases [of _ key])
    case (1 i)
    then show ?thesis
      using v(1) by (intro that(2) [of i]) (auto simp: search_index_def v(3) sorted_wrt_iff_nth_less)
  next
    case (2 i)
    show ?thesis
    proof (cases "i = 0")
      case True
      then show ?thesis using 2 by (intro that(1)) (simp_all add: search_index_def v(3))
    next
      case False
      then show ?thesis using 2 by (intro that(2) [of "i - 1"]) (auto simp: search_index_def v(3) less_imp_le)
    qed
  qed
qed

lemma sorted_first: "sorted_wrt (<) (map fst es) \<Longrightarrow> x \<in> set es \<Longrightarrow> fst (hd es) \<le> (fst x :: bytes)"
  by (cases es) (auto intro: less_imp_le)

lemma map_of_kid:
  fixes kids :: "entry list list"
  assumes "sorted_wrt (<) (map fst (concat kids))" "[] \<notin> set kids" "i < length kids" "fst (hd (kids ! i)) \<le> key"
    "i + 1 < length kids \<Longrightarrow> key < fst (hd (kids ! (i + 1)))"
  shows "map_of (concat kids) key = map_of (kids ! i) (key :: bytes)"
proof -
  let ?a = "concat (take i kids)" and ?b = "concat (drop (i + 1) kids)"
  have split: "concat kids = ?a @ kids ! i @ ?b" using id_take_nth_drop [OF assms(3)] by (metis concat.simps(2) concat_append add.commute plus_1_eq_Suc)
  note sorted = assms(1) [unfolded split]
  have ne: "kids ! i \<noteq> []" using assms(2,3) nth_mem by fastforce
  have "fst x < key" if x: "x \<in> set ?a" for x
  proof -
    have "fst x < fst (hd (kids ! i))" using sorted x hd_in_set [OF ne] by (simp add: sorted_wrt_append del: set_concat)
    then show ?thesis using assms(4) by simp
  qed
  then have "map_of ?a key = None" by (auto simp: map_of_eq_None_iff)
  moreover have "key < fst x" if x: "x \<in> set ?b" for x
  proof -
    have i: "i + 1 < length kids" using x by (cases "i + 1 < length kids") auto
    have ne': "kids ! (i + 1) \<noteq> []" using assms(2) i nth_mem by fastforce
    have d: "?b = kids ! (i + 1) @ concat (drop (i + 2) kids)" using Cons_nth_drop_Suc [OF i] by (metis concat.simps(2) Suc_eq_plus1 add_2_eq_Suc')
    have b: "sorted_wrt (<) (map fst ?b)" using sorted by (simp add: sorted_wrt_append del: set_concat)
    from sorted_first [OF b x] have "fst (hd (kids ! (i + 1))) \<le> fst x" using d ne' by (simp add: hd_append)
    then show ?thesis using assms(5) [OF i] by simp
  qed
  then have "map_of ?b key = None" by (auto simp: map_of_eq_None_iff)
  ultimately show ?thesis unfolding split by (simp add: map_add_def split: option.split)
qed

lemma map_of_below:
  assumes "sorted_wrt (<) (map fst es)" "key < fst (hd es)"
  shows "map_of es (key :: bytes) = None"
  using sorted_first [OF assms(1)] assms(2) by (fastforce simp: map_of_eq_None_iff)

lemma holds_kids:
  assumes "holds look f (Suc l) cid es"
  obtains bs r n kids where "look cid = Some bs" "from_shared bs = Inr r" "read_to_owned r = Some n" "nd_format n = f" "\<not> nd_leaf n"
    "length kids = length (nd_keys n)"
    "\<And>i. i < length kids \<Longrightarrow> holds look f l (nd_vals n ! i) (kids ! i) \<and> length (nd_vals n ! i) = 32 \<and> nd_keys n ! i = fst (hd (kids ! i))"
    "es = concat kids" "sorted_wrt (<) (map fst es)"
  using assms
proof (cases rule: holds.cases)
  case (holds_node bs r n kids)
  then show ?thesis by (intro that [of bs r n kids]) simp_all
qed

text \<open>A leaf that lies in the tree under \<open>root\<close>, whatever entries that tree is said to hold.\<close>

definition leaf_of :: "(cid \<Rightarrow> bytes option) \<Rightarrow> cid \<Rightarrow> read_node \<Rightarrow> bool" where
  "leaf_of look root leaf \<longleftrightarrow>
     (\<forall>f l es. holds look f l root es \<longrightarrow> (\<exists>bs n before after. from_shared bs = Inr leaf \<and> read_to_owned leaf = Some n \<and>
        nd_format n = f \<and> nd_keys n \<noteq> [] \<and> es = before @ zip (nd_keys n) (nd_vals n) @ after))"

definition engine_ok :: "(cid \<Rightarrow> bytes option) \<Rightarrow> 's engine \<Rightarrow> bool" where
  "engine_ok look en \<longleftrightarrow> cached_ok look (en_node_cache en) \<and>
     (case en_recent_leaf en of None \<Rightarrow> True | Some (root, leaf) \<Rightarrow> leaf_of look root leaf)"

lemma leaf_value:
  assumes "from_shared bs = Inr r" "read_to_owned r = Some n"
  shows "i < length (nd_keys n) \<Longrightarrow> nd_keys n ! i = key \<Longrightarrow> map_of (zip (nd_keys n) (nd_vals n)) key = Some (nd_vals n ! i)"
    "key \<notin> set (nd_keys n) \<Longrightarrow> map_of (zip (nd_keys n) (nd_vals n)) key = None"
proof -
  note v = shared_valid [OF assms]
  have "distinct (nd_keys n)" using v(1) strict_sorted_iff by blast
  then show "i < length (nd_keys n) \<Longrightarrow> nd_keys n ! i = key \<Longrightarrow> map_of (zip (nd_keys n) (nd_vals n)) key = Some (nd_vals n ! i)"
    using v(2) map_of_zip_nth [of "nd_keys n" "nd_vals n" i] by simp
  show "key \<notin> set (nd_keys n) \<Longrightarrow> map_of (zip (nd_keys n) (nd_vals n)) key = None"
    by (auto simp: map_of_eq_None_iff dest: set_zip_leftD)
qed

lemma map_of_middle:
  fixes key :: bytes
  assumes "sorted_wrt (<) (map fst (before @ es @ after))" "es \<noteq> []" "fst (hd es) \<le> key" "key \<le> fst (last es)"
  shows "map_of (before @ es @ after) key = map_of es key"
proof -
  note sorted = assms(1) [unfolded map_append sorted_wrt_append]
  have "fst x < key" if "x \<in> set before" for x
  proof -
    have "fst x < fst (hd es)" using sorted that hd_in_set [OF assms(2)] by simp
    then show ?thesis using assms(3) by simp
  qed
  moreover have "key < fst x" if "x \<in> set after" for x
  proof -
    have "fst (last es) < fst x" using sorted that last_in_set [OF assms(2)] by simp
    then show ?thesis using assms(4) by simp
  qed
  ultimately have "map_of before key = None" "map_of after key = None" by (auto simp: map_of_eq_None_iff)
  then show ?thesis by (simp add: map_add_def split: option.split)
qed

lemma recent_leaf_correct:
  assumes "from_shared bs = Inr leaf" "read_to_owned leaf = Some n" "nd_keys n \<noteq> []"
    "es = before @ zip (nd_keys n) (nd_vals n) @ after \<and> sorted_wrt (<) (map fst es)" "in_leaf_range leaf key"
  shows "recent_leaf_value leaf key = Inr (map_of es key)"
proof -
  note acc = owned_access [OF assms(2)] and v = shared_valid [OF assms(1,2)]
  let ?l = "zip (nd_keys n) (nd_vals n)" let ?m = "length (nd_keys n) - 1"
  have m: "0 < length (nd_keys n)" "?m < length (nd_keys n)" using assms(3) by auto
  then have ends: "nd_keys n ! 0 \<le> key" "key \<le> nd_keys n ! ?m"
    using assms(5) acc(1) acc(3) [OF m(1)] acc(3) [OF m(2)] by (simp_all add: in_leaf_range_def)
  have "?l \<noteq> []" using m v(2) by (cases "nd_keys n"; cases "nd_vals n") auto
  then have "map_of es key = map_of ?l key"
    using assms(4) ends m v(2) map_of_middle [of before ?l after key] by (auto simp: hd_conv_nth last_conv_nth)
  moreover from v(1) have "recent_leaf_value leaf key = Inr (map_of ?l key)"
  proof (cases rule: search_ref_cases [of _ key])
    case (1 i)
    then show ?thesis using acc(4) leaf_value(1) [OF assms(1,2)] by (simp add: recent_leaf_value_def v(3))
  next
    case (2 i)
    have "key \<notin> set (nd_keys n)"
    proof
      assume "key \<in> set (nd_keys n)"
      then obtain j where j: "j < length (nd_keys n)" "nd_keys n ! j = key" by (auto simp: in_set_conv_nth)
      then show False using spec [OF 2(3), of j] spec [OF 2(4), of j] by (cases "j < i") auto
    qed
    then show ?thesis using 2(1) leaf_value(2) [OF assms(1,2)] by (simp add: recent_leaf_value_def v(3))
  qed
  ultimately show ?thesis by simp
qed

lemma admit_read_ok:
  assumes "engine_ok look en" "look cid = Some bs" "from_shared bs = Inr r"
  shows "engine_ok look (admit_read cid r en)" "en_store (admit_read cid r en) = en_store en"
  using assms insert_read_cached [where look = look, OF _ assms(2,3), of "en_node_cache en"]
  by (auto simp: engine_ok_def admit_read_def on_metrics_def split: prod.split)

lemma cache_get_read_ok:
  assumes "engine_ok look en"
  shows "engine_ok look (snd (cache_get_read cid en))" "en_store (snd (cache_get_read cid en)) = en_store en"
    "fst (cache_get_read cid en) = Some r \<Longrightarrow> \<exists>bs. look cid = Some bs \<and> from_shared bs = Inr r"
  using assms get_read_cached [of look "en_node_cache en" cid]
  by (auto simp: engine_ok_def cache_get_read_def split: prod.splits if_splits)

lemma cache_get_owned_ok:
  assumes "engine_ok look en" "cache_get_read cid en = (None, en1)"
  shows "\<exists>owned en2. cache_get_owned cid en1 = (Inr owned, en2) \<and> engine_ok look en2 \<and> en_store en2 = en_store en \<and>
    (\<forall>n. owned = Some n \<longrightarrow> (\<exists>bs r. look cid = Some bs \<and> to_bytes n = Inr bs \<and> from_shared bs = Inr r \<and> nd_format n = rn_format r))"
proof (cases "en_cache_poisoned en")
  case True
  then show ?thesis using assms by (auto simp: cache_get_read_def cache_get_owned_def)
next
  case False
  then obtain c' where g: "get_read cid (en_node_cache en) = (None, c')" "en1 = en\<lparr>en_node_cache := c'\<rparr>"
    using assms(2) by (auto simp: cache_get_read_def split: prod.splits)
  have c': "c' = en_node_cache en" by (rule get_read_miss [OF g(1)])
  obtain r c2 where "node_cache_get cid (en_node_cache en) = Inr (r, c2)" "cached_ok look c2"
    "\<And>n. r = Some n \<Longrightarrow> \<exists>bs r. look cid = Some bs \<and> to_bytes n = Inr bs \<and> from_shared bs = Inr r \<and> nd_format n = rn_format r"
    by (rule owned_cached [of look "en_node_cache en" cid]) (use assms(1) g(1) in \<open>auto simp: engine_ok_def\<close>)
  then show ?thesis using False assms(1) by (auto simp: cache_get_owned_def g(2) c' engine_ok_def)
qed

section \<open>The contract of a store that serves reads\<close>

locale read_backend =
  fixes ops :: "'s read_store" and healthy :: "'s \<Rightarrow> bool" and sha256 :: hash256
  assumes get_total: "healthy s \<Longrightarrow> \<exists>v. st_get ops s k = Inr v"
    and shared_get: "healthy s \<Longrightarrow> map_ok (map_option sr_bytes) (st_get_validated_shared ops s k) = st_get ops s k"
    and shared_verified: "healthy s \<Longrightarrow> st_get_validated_shared ops s k = Inr (Some rd) \<Longrightarrow> sr_cid_verified rd \<Longrightarrow> sha256 (sr_bytes rd) = k"
    and batch_get: "healthy s \<Longrightarrow> st_batch_get_validated_shared_ordered_unique ops s ks = collect_results (map (st_get_validated_shared ops s) ks)"
begin

definition stored :: "'s \<Rightarrow> cid \<Rightarrow> bytes option" where
  "stored s cid = (case st_get ops s cid of Inr v \<Rightarrow> v | Inl e \<Rightarrow> None)"

lemma stored_shared:
  assumes "healthy s" "stored s cid = Some bs"
  obtains rd where "st_get_validated_shared ops s cid = Inr (Some rd)" "sr_bytes rd = bs"
proof -
  have "st_get ops s cid = Inr (Some bs)" using assms by (auto simp: stored_def split: sum.splits)
  then have "map_ok (map_option sr_bytes) (st_get_validated_shared ops s cid) = Inr (Some bs)" using shared_get [OF assms(1)] by simp
  then show thesis using that by (cases "st_get_validated_shared ops s cid") (auto simp: map_option_eq_Some)
qed

lemma decode_stored:
  assumes "stored s cid = Some bs" "from_shared bs = Inr r" "rn_format r = f" "sha256 bs = cid"
    "sr_bytes rd = bs"
  shows "decode_validated_read sha256 cid f rd = Inr r" "decode_read sha256 cid f bs = Inr r"
  using assms by (auto simp: decode_validated_read_def decode_read_def decode_cid_verified_read_def validate_cid_def cid_from_bytes_def)

lemma load_read_ok:
  assumes "healthy (en_store en)" "engine_ok (stored (en_store en)) en" "stored (en_store en) cid = Some bs" "from_shared bs = Inr r"
    "rn_format r = cfg_format (tr_config t)" "sha256 bs = cid"
  obtains en' op' where "load_read ops sha256 t cid (en, op) = (Inr r, en', op')" "engine_ok (stored (en_store en)) en'" "en_store en' = en_store en"
proof -
  let ?look = "stored (en_store en)"
  obtain hit en1 where c1: "cache_get_read cid en = (hit, en1)" by (cases "cache_get_read cid en")
  note e1 = cache_get_read_ok [OF assms(2), of cid, unfolded c1, simplified]
  show thesis
  proof (cases hit)
    case (Some r')
    then have "r' = r" using e1(3) assms(3,4) by auto
    then have "load_read ops sha256 t cid (en, op) = (Inr r, on_metrics (add_cache_hits 1) en1, record_cache_hit op)"
      by (simp add: load_read_def c1 Some)
    then show ?thesis by (rule that) (use e1 in \<open>simp_all add: engine_ok_def on_metrics_def\<close>)
  next
    case None
    have fetched: "\<exists>en' op'. fetch_read ops sha256 (cfg_format (tr_config t)) cid (en2, op) = (Inr r, en', op') \<and> engine_ok ?look en' \<and> en_store en' = en_store en"
      if e2: "engine_ok ?look en2" "en_store en2 = en_store en" for en2
    proof -
      obtain rd where rd: "st_get_validated_shared ops (en_store en) cid = Inr (Some rd)" "sr_bytes rd = bs"
        by (rule stored_shared [OF assms(1,3)])
      note dec = decode_stored(1) [OF assms(3-6) rd(2)]
      have e3: "engine_ok ?look (on_metrics (record_point_read (length bs)) (on_metrics (add_cache_misses 1) en2))"
        using e2 by (simp add: engine_ok_def on_metrics_def)
      show ?thesis
        using admit_read_ok [OF e3 assms(3,4)] e2(2) rd dec by (simp add: fetch_read_def on_metrics_def Let_def ok_or_def)
    qed
    show ?thesis
    proof (cases "st_has_native_shared_reads ops")
      case True
      then have "load_read ops sha256 t cid (en, op) = fetch_read ops sha256 (cfg_format (tr_config t)) cid (en1, op)"
        by (simp add: load_read_def c1 None)
      then show ?thesis using fetched [OF e1(1,2)] that by auto
    next
      case False
      obtain owned en2 where o: "cache_get_owned cid en1 = (Inr owned, en2)" "engine_ok ?look en2" "en_store en2 = en_store en"
        "\<And>n. owned = Some n \<Longrightarrow> \<exists>bs r. ?look cid = Some bs \<and> to_bytes n = Inr bs \<and> from_shared bs = Inr r \<and> nd_format n = rn_format r"
        using cache_get_owned_ok [OF assms(2) c1 [unfolded None]] by blast
      have native: "load_read ops sha256 t cid (en, op) = (case owned of
          None \<Rightarrow> fetch_read ops sha256 (cfg_format (tr_config t)) cid (en2, op)
        | Some n \<Rightarrow> (case repack_owned sha256 (cfg_format (tr_config t)) cid n of Inl e \<Rightarrow> (Inl e, en2, op)
            | Inr node \<Rightarrow> (Inr node, on_metrics (add_cache_hits 1) (admit_read cid node en2), record_cache_hit op)))"
        using False by (simp add: load_read_def c1 None o(1) split: option.split)
      show ?thesis
      proof (cases owned)
        case None
        then show ?thesis using fetched [OF o(2,3)] native that by auto
      next
        case (Some n)
        then have "to_bytes n = Inr bs" "nd_format n = cfg_format (tr_config t)" using o(4) assms(3-5) by auto
        then have "repack_owned sha256 (cfg_format (tr_config t)) cid n = Inr r"
          using decode_stored(2) [OF assms(3-6), of "unverified bs"] by (simp add: repack_owned_def validate_cached_node_def unverified_def)
        then have "load_read ops sha256 t cid (en, op) = (Inr r, on_metrics (add_cache_hits 1) (admit_read cid r en2), record_cache_hit op)"
          using native Some by simp
        then show ?thesis
          by (rule that) (use admit_read_ok [OF o(2) assms(3,4)] o(3) in \<open>simp_all add: engine_ok_def on_metrics_def\<close>)
      qed
    qed
  qed
qed

lemma get_loop_ok:
  assumes "healthy (en_store en)" "\<And>cid bs. stored (en_store en) cid = Some bs \<Longrightarrow> sha256 bs = cid" "engine_ok (stored (en_store en)) en"
    "holds (stored (en_store en)) (cfg_format (tr_config t)) l cid es" "holds (stored (en_store en)) (cfg_format (tr_config t)) m root (before @ es @ after)"
  shows "\<exists>en'. get_loop ops sha256 t key root enabled cid (en, op) = Some (Inr (map_of es key), en') \<and>
    engine_ok (stored (en_store en)) en' \<and> en_store en' = en_store en"
  using assms
proof (induction l arbitrary: cid es en op before after)
  case 0
  let ?look = "stored (en_store en)" and ?f = "cfg_format (tr_config t)"
  from 0(4) obtain bs r n where n: "?look cid = Some bs" "from_shared bs = Inr r" "read_to_owned r = Some n" "nd_format n = ?f" "nd_leaf n"
    "nd_keys n \<noteq> []" "es = zip (nd_keys n) (nd_vals n)" by (rule holds_leafE)
  note acc = owned_access [OF n(3)]
  obtain en' op' where load: "load_read ops sha256 t cid (en, op) = (Inr r, en', op')" "engine_ok ?look en'" "en_store en' = en_store en"
    by (rule load_read_ok [OF 0(1,3) n(1,2) _ 0(2) [OF n(1)], of t op]) (use acc(7) n(4) in auto)
  have valid: "validate_cached_read_node sha256 r ?f = Inr ()" using acc(7) n(4) by (simp add: validate_cached_read_node_def)
  have recent: "leaf_of ?look root r"
    using holds_unique [OF 0(5)] n by (fastforce simp: leaf_of_def)
  show ?case
  proof (cases rule: search_index_cases [OF n(2,3), of key])
    case 1
    then have "key \<notin> set (nd_keys n)" by (auto simp: in_set_conv_nth)
    then show ?thesis
      using load valid 1(1) leaf_value(2) [OF n(2,3)] by (subst get_loop.simps) (simp add: n(7))
  next
    case (2 i)
    have "map_of es key = (if read_key r i = Some key then read_value r i else None)"
    proof (cases "nd_keys n ! i = key")
      case True
      then show ?thesis using acc(3,4) [OF 2(2)] leaf_value(1) [OF n(2,3) 2(2)] n(7) by simp
    next
      case False
      have "key \<notin> set (nd_keys n)"
      proof
        assume "key \<in> set (nd_keys n)"
        then obtain j where j: "j < length (nd_keys n)" "nd_keys n ! j = key" by (auto simp: in_set_conv_nth)
        note sorted = shared_valid(1) [OF n(2,3)]
        have "\<not> j < i" using sorted_wrt_nth_less [OF sorted, of j i] 2(2,3) j False by auto
        moreover have "\<not> i + 1 \<le> j" using sorted_wrt_nth_le [OF sorted, of "i + 1" j] 2(4) j by auto
        ultimately have "i = j" by simp
        then show False using j False by simp
      qed
      then show ?thesis using acc(3) [OF 2(2)] leaf_value(2) [OF n(2,3)] n(7) False by simp
    qed
    then show ?thesis
      using load valid 2(1) recent acc(5) n(5) by (subst get_loop.simps) (auto simp: engine_ok_def)
  qed
next
  case (Suc l)
  let ?look = "stored (en_store en)" and ?f = "cfg_format (tr_config t)"
  from Suc.prems(4) obtain bs r n kids where n: "?look cid = Some bs" "from_shared bs = Inr r" "read_to_owned r = Some n" "nd_format n = ?f" "\<not> nd_leaf n"
    "length kids = length (nd_keys n)"
    "\<And>i. i < length kids \<Longrightarrow> holds ?look ?f l (nd_vals n ! i) (kids ! i) \<and> length (nd_vals n ! i) = 32 \<and> nd_keys n ! i = fst (hd (kids ! i))"
    "es = concat kids" "sorted_wrt (<) (map fst es)"
    by (rule holds_kids) blast
  note acc = owned_access [OF n(3)]
  obtain en' op' where load: "load_read ops sha256 t cid (en, op) = (Inr r, en', op')" "engine_ok ?look en'" "en_store en' = en_store en"
    by (rule load_read_ok [OF Suc.prems(1,3) n(1,2) _ Suc.prems(2) [OF n(1)], of t op]) (use acc(7) n(4) in auto)
  have valid: "validate_cached_read_node sha256 r ?f = Inr ()" using acc(7) n(4) by (simp add: validate_cached_read_node_def)
  have ne: "[] \<notin> set kids" using n(7) holds_nonempty by (metis in_set_conv_nth)
  show ?case
  proof (cases rule: search_index_cases [OF n(2,3), of key])
    case 1
    have "map_of es key = None"
    proof (rule map_of_below [OF n(9)])
      have "0 < length (nd_keys n)" using shared_valid(4) [OF n(2,3,5)] by simp
      then have "0 < length kids" "key < nd_keys n ! 0" using 1(2) n(6) by auto
      then have "key < fst (hd (kids ! 0))" "0 < length kids" using n(7) [of 0] by auto
      then show "key < fst (hd es)" unfolding n(8) using ne by (cases kids) (auto simp: hd_append)
    qed
    then show ?thesis using load valid 1(1) by (simp add: get_loop.simps [of _ _ _ _ _ _ cid])
  next
    case (2 i)
    have i: "i < length kids" using 2(2) n(6) by simp
    have "child_cid r i = Inr (nd_vals n ! i)"
      using acc(4) [OF 2(2)] n(7) [OF i] by (simp add: child_cid_def ok_or_def cid_of_value_def)
    then have step: "get_loop ops sha256 t key root enabled cid (en, op) = get_loop ops sha256 t key root enabled (nd_vals n ! i) (en', op')"
      using load valid 2(1) acc(5) n(5) by (subst get_loop.simps) simp
    have "map_of es key = map_of (kids ! i) key"
      unfolding n(8) by (rule map_of_kid) (use n(6-9) ne 2 i in auto)
    moreover have "before @ es @ after = (before @ concat (take i kids)) @ kids ! i @ (concat (drop (Suc i) kids) @ after)"
      using id_take_nth_drop [OF i] n(8) by (metis append.assoc concat.simps(2) concat_append)
    ultimately show ?thesis
      unfolding step using Suc.IH [of en' "nd_vals n ! i" "kids ! i" "before @ concat (take i kids)" "concat (drop (Suc i) kids) @ after" op']
        Suc.prems(1,2,5) n(7) [OF i] load by simp
  qed
qed

lemma engine_get_ok:
  assumes "healthy (en_store en)" "\<And>cid bs. stored (en_store en) cid = Some bs \<Longrightarrow> sha256 bs = cid" "engine_ok (stored (en_store en)) en"
    "tree_holds (stored (en_store en)) (cfg_format (tr_config t)) (tr_root t) es"
  shows "\<exists>en'. engine_get ops sha256 t key en = Some (Inr (map_of es key), en') \<and>
    engine_ok (stored (en_store en)) en' \<and> en_store en' = en_store en"
proof (cases "tr_root t")
  case None
  then show ?thesis using assms(3,4) by (simp add: engine_get_def tree_holds_def)
next
  case (Some root)
  let ?look = "stored (en_store en)" and ?f = "cfg_format (tr_config t)"
  define enabled where "enabled \<longleftrightarrow> \<not> en_cache_poisoned en \<and> \<not> is_disabled (en_node_cache en)"
  define recent where "recent = (if enabled \<and> \<not> en_recent_poisoned en
    then (case en_recent_leaf en of Some (recent_root, node) \<Rightarrow> if recent_root = root then Some node else None | None \<Rightarrow> None) else None)"
  note eq = engine_get_def [of ops sha256 t key en, unfolded Some option.case Let_def, folded enabled_def, folded recent_def]
  obtain l where root: "holds ?look ?f l root es" using assms(4) Some by (auto simp: tree_holds_def)
  then have descend: "\<exists>en'. get_loop ops sha256 t key root enabled root (en, operation_new (en_execution en)) = Some (Inr (map_of es key), en') \<and>
      engine_ok ?look en' \<and> en_store en' = en_store en"
    using get_loop_ok [OF assms(1-3) root, of l root "[]" "[]"] by simp
  show ?thesis
  proof (cases recent)
    case None
    then show ?thesis using descend by (simp add: eq)
  next
    case (Some leaf)
    then have "leaf_of ?look root leaf"
      using assms(3) by (auto simp: recent_def engine_ok_def split: if_splits option.splits)
    then obtain bs n before after where n: "from_shared bs = Inr leaf" "read_to_owned leaf = Some n" "nd_format n = ?f" "nd_keys n \<noteq> []"
      "es = before @ zip (nd_keys n) (nd_vals n) @ after"
      unfolding leaf_of_def using root by blast
    note acc = owned_access [OF n(2)]
    have valid: "validate_cached_read_node sha256 leaf ?f = Inr ()" using acc(7) n(3) by (simp add: validate_cached_read_node_def)
    show ?thesis
    proof (cases "in_leaf_range leaf key")
      case False
      then show ?thesis using descend Some valid by (simp add: eq)
    next
      case True
      have "recent_leaf_value leaf key = Inr (map_of es key)"
        by (rule recent_leaf_correct [OF n(1,2,4) _ True]) (use n(5) holds_sorted [OF root] in auto)
      then show ?thesis using Some valid True assms(3) by (simp add: eq engine_ok_def on_metrics_def)
    qed
  qed
qed

lemma engine_gets_ok:
  assumes "healthy (en_store en)" "\<And>cid bs. stored (en_store en) cid = Some bs \<Longrightarrow> sha256 bs = cid" "engine_ok (stored (en_store en)) en"
    "tree_holds (stored (en_store en)) (cfg_format (tr_config t)) (tr_root t) es"
  shows "\<exists>en'. engine_gets ops sha256 t keys en = Some (map (map_of es) keys, en') \<and>
    engine_ok (stored (en_store en)) en' \<and> en_store en' = en_store en"
  using assms
proof (induction keys arbitrary: en)
  case (Cons key keys)
  obtain en1 where g: "engine_get ops sha256 t key en = Some (Inr (map_of es key), en1)" "engine_ok (stored (en_store en)) en1" "en_store en1 = en_store en"
    using engine_get_ok [OF Cons.prems] by blast
  obtain en2 where "engine_gets ops sha256 t keys en1 = Some (map (map_of es) keys, en2)"
    "engine_ok (stored (en_store en)) en2" "en_store en2 = en_store en"
    using Cons.IH [of en1] Cons.prems g(2,3) by auto
  then show ?case using g(1) by simp
qed simp

end

interpretation mem_reads: read_backend mem_read_store mem_ok sha256 for sha256
proof
  fix s k ks rd assume ok: "mem_ok s"
  then have lock: "lock_data s = Inr (ms_data s)" by (simp add: mem_ok_def lock_data_def)
  show "\<exists>v. st_get mem_read_store s k = Inr v" by (simp add: mem_read_store_def mem_get_def lock)
  show "map_ok (map_option sr_bytes) (st_get_validated_shared mem_read_store s k) = st_get mem_read_store s k"
    by (simp add: mem_read_store_def get_validated_shared_def mem_get_shared_def mem_get_def lock unverified_def option.map_comp comp_def option.map_ident)
  show "st_get_validated_shared mem_read_store s k = Inr (Some rd) \<Longrightarrow> sr_cid_verified rd \<Longrightarrow> sha256 (sr_bytes rd) = k"
    by (auto simp: mem_read_store_def get_validated_shared_def mem_get_shared_def lock unverified_def)
  have "collect_results (map (\<lambda>k. Inr (g k)) ks) = Inr (map g ks)" for g :: "bytes \<Rightarrow> shared_read option"
    by (induction ks) auto
  moreover have "get_validated_shared mem_get_shared s = (\<lambda>k. Inr (map_option unverified (bt_get k (ms_data s))))"
    by (simp add: fun_eq_iff get_validated_shared_def mem_get_shared_def lock)
  ultimately show "st_batch_get_validated_shared_ordered_unique mem_read_store s ks = collect_results (map (st_get_validated_shared mem_read_store s) ks)"
    by (simp add: mem_read_store_def batch_get_validated_shared_ordered_unique_def mem_batch_get_shared_ordered_unique_def lock comp_def)
qed

lemma mem_stored: "mem_reads.stored s cid = (case mem_get s cid of Inr v \<Rightarrow> v | Inl e \<Rightarrow> None)"
  unfolding mem_reads.stored_def by (simp add: mem_read_store_def)

lemma engine_new_ok: "engine_ok look (engine_new sha256 store cfg)" "en_store (engine_new sha256 store cfg) = store"
  by (simp_all add: engine_ok_def engine_new_def with_execution_config_def cached_ok_new)

end
