(* ===== verification/Engine_Batch.thy ===== *)
theory Engine_Batch
  imports Engine_Read
begin

text \<open>
  Loading several nodes at once (\<open>load_many_engine_read_ordered\<close> of \<^verbatim>\<open>src/src/prolly/engine/mod.rs\<close>): a batch
  returns, in the order of the identifiers and with duplicates, the nodes that single loads
  return, whatever part of them is in the cache.
\<close>

section \<open>Planning a batch\<close>

definition batch_row :: "cid list \<Rightarrow> cid \<Rightarrow> inline_positions \<Rightarrow> bool" where
  "batch_row cids cid ps \<longleftrightarrow> cid \<in> set cids \<and> (\<forall>p \<in> set (positions_iter ps). p < length cids \<and> cids ! p = cid)"

definition batch_ok :: "cid list \<Rightarrow> missing_node_batch \<Rightarrow> bool" where
  "batch_ok cids b \<longleftrightarrow> list_all2 (batch_row cids) (mb_cids b) (mb_positions b) \<and>
     (\<forall>cid j. map_of (mb_indexes b) cid = Some j \<longrightarrow> j < length (mb_cids b) \<and> mb_cids b ! j = cid)"

definition covered :: "missing_node_batch \<Rightarrow> nat \<Rightarrow> bool" where
  "covered b p \<longleftrightarrow> (\<exists>j < length (mb_positions b). p \<in> set (positions_iter (mb_positions b ! j)))"

lemma positions_iter_simps [simp]:
  "positions_iter (positions_new p) = [p]" "positions_iter (positions_push p ps) = positions_iter ps @ [p]"
  by (simp_all add: positions_iter_def positions_new_def positions_push_def)

lemma batch_ok_empty: "batch_ok [] missing_empty"
  by (simp add: batch_ok_def missing_empty_def)

lemma batch_rows_hit: "list_all2 (batch_row cids) xs ps \<Longrightarrow> list_all2 (batch_row (cids @ [cid])) xs ps"
  by (erule list_all2_mono) (fastforce simp: batch_row_def nth_append)

lemma batch_ok_hit: "batch_ok cids b \<Longrightarrow> batch_ok (cids @ [cid]) b"
  by (simp add: batch_ok_def batch_rows_hit)

lemma missing_record_ok:
  assumes "batch_ok cids b"
  obtains b' where "missing_record cid (length cids) b = Inr b'" "batch_ok (cids @ [cid]) b'" "covered b' (length cids)"
    "\<And>p. covered b p \<Longrightarrow> covered b' p"
proof (cases "map_of (mb_indexes b) cid")
  case None
  let ?b = "\<lparr>mb_indexes = (cid, length (mb_cids b)) # mb_indexes b, mb_cids = mb_cids b @ [cid], mb_positions = mb_positions b @ [positions_new (length cids)]\<rparr>"
  show ?thesis
  proof (rule that [of ?b])
    show "missing_record cid (length cids) b = Inr ?b" using None by (simp add: missing_record_def)
    have "list_all2 (batch_row (cids @ [cid])) (mb_cids b @ [cid]) (mb_positions b @ [positions_new (length cids)])"
      using assms batch_rows_hit by (auto simp: batch_ok_def batch_row_def intro!: list_all2_appendI)
    moreover have "j < length (mb_cids b @ [cid]) \<and> (mb_cids b @ [cid]) ! j = c" if "map_of ((cid, length (mb_cids b)) # mb_indexes b) c = Some j" for c j
      using assms that by (auto simp: batch_ok_def nth_append less_Suc_eq split: if_splits)
    ultimately show "batch_ok (cids @ [cid]) ?b" by (simp add: batch_ok_def)
    show "covered ?b (length cids)" unfolding covered_def by (intro exI [of _ "length (mb_positions b)"]) simp
    show "covered ?b p" if c: "covered b p" for p
    proof -
      obtain j where "j < length (mb_positions b)" "p \<in> set (positions_iter (mb_positions b ! j))" using c by (auto simp: covered_def)
      then show ?thesis unfolding covered_def by (intro exI [of _ j]) (simp add: nth_append)
    qed
  qed
next
  case (Some i)
  then have i: "i < length (mb_cids b)" "mb_cids b ! i = cid" "length (mb_positions b) = length (mb_cids b)"
    using assms by (auto simp: batch_ok_def list_all2_lengthD)
  let ?b = "b\<lparr>mb_positions := (mb_positions b)[i := positions_push (length cids) (mb_positions b ! i)]\<rparr>"
  show ?thesis
  proof (rule that [of ?b])
    show "missing_record cid (length cids) b = Inr ?b" using Some i by (simp add: missing_record_def)
    have rows: "list_all2 (batch_row (cids @ [cid])) (mb_cids b) (mb_positions b)" using assms batch_rows_hit by (simp add: batch_ok_def)
    then have "batch_row (cids @ [cid]) cid (mb_positions b ! i)" using i by (auto simp: list_all2_conv_all_nth)
    then have "list_all2 (batch_row (cids @ [cid])) ((mb_cids b)[i := cid]) ((mb_positions b)[i := positions_push (length cids) (mb_positions b ! i)])"
      by (intro list_all2_update_cong [OF rows]) (auto simp: batch_row_def)
    then show "batch_ok (cids @ [cid]) ?b" using assms i(2) by (auto simp: batch_ok_def)
    show "covered ?b (length cids)" unfolding covered_def using i by (intro exI [of _ i]) simp
    show "covered ?b p" if c: "covered b p" for p
    proof -
      obtain j where "j < length (mb_positions b)" "p \<in> set (positions_iter (mb_positions b ! j))" using c by (auto simp: covered_def)
      then show ?thesis unfolding covered_def by (intro exI [of _ j]) (cases "j = i", auto simp: nth_list_update)
    qed
  qed
qed

text \<open>The slots of a plan: a filled slot has the node of its identifier, an empty one is in the batch.\<close>

definition slots_ok :: "(cid \<Rightarrow> bytes option) \<Rightarrow> cid list \<Rightarrow> read_node option list \<Rightarrow> bool" where
  "slots_ok look cids nodes \<longleftrightarrow> length nodes = length cids \<and>
     (\<forall>p < length cids. \<forall>r. nodes ! p = Some r \<longrightarrow> (\<exists>bs. look (cids ! p) = Some bs \<and> from_shared bs = Inr r))"

lemma plan_cached_ok:
  assumes "engine_ok look en" "batch_ok seen b" "slots_ok look seen nodes" "\<And>p. p < length seen \<Longrightarrow> nodes ! p = None \<Longrightarrow> covered b p"
  shows "\<exists>nodes' b' hits' en'. plan_cached_loop cache_get_read cids (length seen) nodes b hits en = Inr ((nodes', b', hits'), en') \<and>
    engine_ok look en' \<and> en_store en' = en_store en \<and> batch_ok (seen @ cids) b' \<and> slots_ok look (seen @ cids) nodes' \<and>
    (\<forall>p < length (seen @ cids). nodes' ! p = None \<longrightarrow> covered b' p)"
  using assms
proof (induction cids arbitrary: seen nodes b hits en)
  case Nil
  then show ?case by simp
next
  case (Cons cid cids)
  have len: "length nodes = length seen" using Cons.prems(3) by (simp add: slots_ok_def)
  obtain hit en1 where c: "cache_get_read cid en = (hit, en1)" by (cases "cache_get_read cid en")
  have e1: "engine_ok look en1" "en_store en1 = en_store en" "\<And>r. hit = Some r \<Longrightarrow> \<exists>bs. look cid = Some bs \<and> from_shared bs = Inr r"
    using cache_get_read_ok [OF Cons.prems(1), of cid] c by auto
  show ?case
  proof (cases hit)
    case (Some r)
    have "slots_ok look (seen @ [cid]) (nodes @ [Some r])"
      using Cons.prems(3) e1(3) [OF Some] len by (auto simp: slots_ok_def nth_append less_Suc_eq)
    moreover have "\<And>p. p < length (seen @ [cid]) \<Longrightarrow> (nodes @ [Some r]) ! p = None \<Longrightarrow> covered b p"
      using Cons.prems(4) len by (auto simp: nth_append less_Suc_eq split: if_splits)
    ultimately show ?thesis
      using Cons.IH [OF e1(1) batch_ok_hit [OF Cons.prems(2), of cid], of "nodes @ [Some r]" "hits + 1"] e1(2) by (simp add: c Some)
  next
    case None
    obtain b' where b': "missing_record cid (length seen) b = Inr b'" "batch_ok (seen @ [cid]) b'" "covered b' (length seen)"
      "\<And>p. covered b p \<Longrightarrow> covered b' p"
      by (rule missing_record_ok [OF Cons.prems(2)]) blast
    have "slots_ok look (seen @ [cid]) (nodes @ [None])"
      using Cons.prems(3) len by (auto simp: slots_ok_def nth_append less_Suc_eq)
    moreover have "\<And>p. p < length (seen @ [cid]) \<Longrightarrow> (nodes @ [None]) ! p = None \<Longrightarrow> covered b' p"
      using Cons.prems(4) b'(3,4) len by (auto simp: nth_append less_Suc_eq split: if_splits)
    ultimately show ?thesis
      using Cons.IH [OF e1(1) b'(2), of "nodes @ [None]" hits] e1(2) by (simp add: c None b'(1))
  qed
qed

section \<open>Decoding and placing a batch\<close>

lemma set_slots_ok:
  assumes "\<And>i. i \<in> set is \<Longrightarrow> i < length xs"
  shows "\<exists>ys. set_slots is v xs = Inr ys \<and> length ys = length xs \<and> (\<forall>p < length xs. ys ! p = (if p \<in> set is then v else xs ! p))"
  using assms
proof (induction "is" arbitrary: xs)
  case (Cons i "is")
  have "\<And>j. j \<in> set is \<Longrightarrow> j < length (xs[i := v])" and i: "i < length xs" using Cons.prems by simp_all
  from Cons.IH [OF this(1)] obtain ys where ys: "set_slots is v (xs[i := v]) = Inr ys" "length ys = length xs"
    "\<forall>p < length xs. ys ! p = (if p \<in> set is then v else xs[i := v] ! p)" by auto
  then show ?case using i by (intro exI [of _ ys]) (simp add: set_slot_def nth_list_update)
qed simp

lemma decode_batch_ok:
  assumes "\<And>cid. cid \<in> set cids \<Longrightarrow> decode_validated_read sha256 cid f (g cid) = Inr (h cid)"
  shows "\<exists>op'. decode_batch sha256 f (zip cids (map (\<lambda>cid. Some (g cid)) cids)) op =
    (Inr (map (\<lambda>cid. (cid, h cid, length (sr_bytes (g cid)))) cids), op')"
  using assms
proof (induction cids arbitrary: op)
  case (Cons cid cids)
  obtain op' where "decode_batch sha256 f (zip cids (map (\<lambda>cid. Some (g cid)) cids)) (record_read (length (sr_bytes (g cid))) op) =
      (Inr (map (\<lambda>cid. (cid, h cid, length (sr_bytes (g cid)))) cids), op')"
    using Cons.IH [OF Cons.prems] by auto
  then show ?case using Cons.prems [of cid] by (simp add: ok_or_def Let_def)
qed simp

lemma place_batch_ok:
  assumes "list_all2 (batch_row all) cids pss" "engine_ok look en" "slots_ok look all nodes"
    "\<And>cid. cid \<in> set cids \<Longrightarrow> \<exists>bs. look cid = Some bs \<and> from_shared bs = Inr (h cid)"
  shows "\<exists>ev' nodes' en'. place_batch (zip (map (\<lambda>cid. (cid, h cid, n cid)) cids) pss) ev nodes en = (Inr (ev', nodes'), en') \<and>
    engine_ok look en' \<and> en_store en' = en_store en \<and> slots_ok look all nodes' \<and>
    (\<forall>p < length all. nodes' ! p = None \<longrightarrow> nodes ! p = None \<and> (\<forall>ps \<in> set pss. p \<notin> set (positions_iter ps)))"
  using assms
proof (induction arbitrary: ev nodes en rule: list_all2_induct)
  case Nil
  then show ?case by simp
next
  case (Cons cid cids ps pss)
  obtain bs where bs: "look cid = Some bs" "from_shared bs = Inr (h cid)" using Cons.prems(3) by auto
  obtain ev1 en1 where i: "(if en_cache_poisoned en then (ev, en)
      else case insert_read cid (h cid) (en_node_cache en) of (n, c) \<Rightarrow> (ev + n, en\<lparr>en_node_cache := c\<rparr>)) = (ev1, en1)"
    "engine_ok look en1" "en_store en1 = en_store en"
  proof (rule that [OF surjective_pairing])
    let ?r = "if en_cache_poisoned en then (ev, en)
      else case insert_read cid (h cid) (en_node_cache en) of (n, c) \<Rightarrow> (ev + n, en\<lparr>en_node_cache := c\<rparr>)"
    show "engine_ok look (snd ?r)" "en_store (snd ?r) = en_store en"
      using Cons.prems(1) insert_read_cached [where look = look, OF _ bs, of "en_node_cache en"]
      by (cases "insert_read cid (h cid) (en_node_cache en)"; simp add: engine_ok_def)+
  qed
  have len: "length nodes = length all" using Cons.prems(2) by (simp add: slots_ok_def)
  have row: "p < length all" "all ! p = cid" if "p \<in> set (positions_iter ps)" for p
    using Cons.hyps(1) that by (auto simp: batch_row_def)
  obtain nodes1 where n1: "set_slots (positions_iter ps) (Some (h cid)) nodes = Inr nodes1" "length nodes1 = length all"
    "\<And>p. p < length all \<Longrightarrow> nodes1 ! p = (if p \<in> set (positions_iter ps) then Some (h cid) else nodes ! p)"
    using set_slots_ok [of "positions_iter ps" nodes "Some (h cid)"] row len by auto
  have "slots_ok look all nodes1"
    using Cons.prems(2) n1(2,3) row bs by (auto simp: slots_ok_def split: if_splits)
  from Cons.IH [OF i(2) this, of ev1] Cons.prems(3) obtain ev' nodes' en' where
    "place_batch (zip (map (\<lambda>cid. (cid, h cid, n cid)) cids) pss) ev1 nodes1 en1 = (Inr (ev', nodes'), en')"
    "engine_ok look en'" "en_store en' = en_store en1" "slots_ok look all nodes'"
    "\<forall>p < length all. nodes' ! p = None \<longrightarrow> nodes1 ! p = None \<and> (\<forall>ps \<in> set pss. p \<notin> set (positions_iter ps))" by auto
  then show ?case using i(1,3) n1 by (auto split: if_splits)
qed

lemma collect_opt_all: "\<forall>x \<in> set xs. x \<noteq> None \<Longrightarrow> collect_opt xs = Some (map the xs)"
  by (induction xs) auto

section \<open>Loading a batch\<close>

context read_backend
begin

lemma load_missing_ok:
  assumes "healthy (en_store en)" "engine_ok (stored (en_store en)) en" "batch_ok cids b" "slots_ok (stored (en_store en)) cids nodes"
    "\<And>cid. cid \<in> set cids \<Longrightarrow> \<exists>bs r. stored (en_store en) cid = Some bs \<and> from_shared bs = Inr r \<and> rn_format r = f \<and> sha256 bs = cid"
    "\<forall>p < length cids. nodes ! p = None \<longrightarrow> covered b p"
  shows "\<exists>nodes' en' op'. load_missing ops sha256 f b nodes (en, op) = (Inr nodes', en', op') \<and> engine_ok (stored (en_store en)) en' \<and>
    en_store en' = en_store en \<and> slots_ok (stored (en_store en)) cids nodes' \<and> (\<forall>x \<in> set nodes'. x \<noteq> None)"
proof -
  let ?look = "stored (en_store en)" and ?n = "length (mb_cids b)"
  have sub: "set (mb_cids b) \<subseteq> set cids" using assms(3) by (auto simp: batch_ok_def batch_row_def list_all2_conv_all_nth in_set_conv_nth)
  have "\<exists>rd r. st_get_validated_shared ops (en_store en) cid = Inr (Some rd) \<and> decode_validated_read sha256 cid f rd = Inr r \<and>
      ?look cid = Some (sr_bytes rd) \<and> from_shared (sr_bytes rd) = Inr r" if "cid \<in> set (mb_cids b)" for cid
  proof -
    from that sub assms(5) obtain bs r where r: "?look cid = Some bs" "from_shared bs = Inr r" "rn_format r = f" "sha256 bs = cid" by blast
    obtain rd where "st_get_validated_shared ops (en_store en) cid = Inr (Some rd)" "sr_bytes rd = bs" by (rule stored_shared [OF assms(1) r(1)])
    then show ?thesis using decode_stored(1) [OF r] r by auto
  qed
  then obtain g h where gh: "\<And>cid. cid \<in> set (mb_cids b) \<Longrightarrow> st_get_validated_shared ops (en_store en) cid = Inr (Some (g cid)) \<and>
      decode_validated_read sha256 cid f (g cid) = Inr (h cid) \<and> ?look cid = Some (sr_bytes (g cid)) \<and> from_shared (sr_bytes (g cid)) = Inr (h cid)"
    by metis
  have "collect_results (map (st_get_validated_shared ops (en_store en)) xs) = Inr (map (\<lambda>cid. Some (g cid)) xs)" if "set xs \<subseteq> set (mb_cids b)" for xs
    using that gh by (induction xs) auto
  then have loaded: "st_batch_get_validated_shared_ordered_unique ops (en_store en) (mb_cids b) = Inr (map (\<lambda>cid. Some (g cid)) (mb_cids b))"
    using batch_get [OF assms(1)] by simp
  let ?op = "observe_in_flight_reads ?n ((record_cache_miss ^^ ?n) op)"
  obtain op' where dec: "decode_batch sha256 f (zip (mb_cids b) (map (\<lambda>cid. Some (g cid)) (mb_cids b))) ?op =
      (Inr (map (\<lambda>cid. (cid, h cid, length (sr_bytes (g cid)))) (mb_cids b)), op')"
    using decode_batch_ok [of "mb_cids b" sha256 f g h ?op] gh by blast
  let ?en = "\<lambda>k. on_metrics (record_batch_read ?n k ?n) (on_metrics (add_cache_misses ?n) en)"
  have e: "engine_ok ?look (?en k)" "en_store (?en k) = en_store en" for k using assms(2) by (simp_all add: engine_ok_def on_metrics_def)
  have rows: "list_all2 (batch_row cids) (mb_cids b) (mb_positions b)" using assms(3) by (simp add: batch_ok_def)
  have full: "x \<noteq> None" if h: "slots_ok ?look cids nodes'" "x \<in> set nodes'"
    "\<forall>p < length cids. nodes' ! p = None \<longrightarrow> nodes ! p = None \<and> (\<forall>ps \<in> set (mb_positions b). p \<notin> set (positions_iter ps))" for nodes' x
  proof -
    obtain p where p: "p < length cids" "x = nodes' ! p" using h(1,2) by (auto simp: slots_ok_def in_set_conv_nth)
    have "\<not> (covered b p \<and> (\<forall>ps \<in> set (mb_positions b). p \<notin> set (positions_iter ps)))" by (auto simp: covered_def)
    then show ?thesis using h(3) p assms(6) by blast
  qed
  let ?k = "sum_list (map (\<lambda>cid. length (sr_bytes (g cid))) (mb_cids b))"
  obtain ev' nodes' en' where pl: "place_batch (zip (map (\<lambda>cid. (cid, h cid, length (sr_bytes (g cid)))) (mb_cids b)) (mb_positions b)) 0 nodes (?en ?k) =
      (Inr (ev', nodes'), en')" "engine_ok ?look en'" "en_store en' = en_store en" "slots_ok ?look cids nodes'"
      "\<forall>p < length cids. nodes' ! p = None \<longrightarrow> nodes ! p = None \<and> (\<forall>ps \<in> set (mb_positions b). p \<notin> set (positions_iter ps))"
    using place_batch_ok [where h = h and n = "\<lambda>cid. length (sr_bytes (g cid))" and ev = 0, OF rows e(1) [of ?k] assms(4)] gh
    unfolding e(2) by blast
  have "load_missing ops sha256 f b nodes (en, op) = (Inr nodes', on_metrics (add_cache_evictions ev') en', op')"
    using pl(1) loaded dec by (simp add: load_missing_def on_metrics_def Let_def comp_def)
  then show ?thesis using pl(2-5) full by (auto simp: engine_ok_def on_metrics_def)
qed

lemma load_many_ok:
  assumes "healthy (en_store en)" "engine_ok (stored (en_store en)) en"
    "\<And>cid. cid \<in> set cids \<Longrightarrow> \<exists>bs r. stored (en_store en) cid = Some bs \<and> from_shared bs = Inr r \<and> rn_format r = cfg_format (tr_config t) \<and> sha256 bs = cid"
  shows "\<exists>nodes en' op'. load_many_engine_read_ordered ops sha256 t cids (en, op) = (Inr nodes, en', op') \<and>
    engine_ok (stored (en_store en)) en' \<and> en_store en' = en_store en \<and>
    list_all2 (\<lambda>cid r. \<exists>bs. stored (en_store en) cid = Some bs \<and> from_shared bs = Inr r) cids nodes"
proof -
  let ?look = "stored (en_store en)"
  obtain nodes b hits en1 where plan: "plan_cached_loop cache_get_read cids 0 [] missing_empty 0 en = Inr ((nodes, b, hits), en1)"
    "engine_ok ?look en1" "en_store en1 = en_store en" "batch_ok cids b" "slots_ok ?look cids nodes"
    "\<forall>p < length cids. nodes ! p = None \<longrightarrow> covered b p"
    using plan_cached_ok [OF assms(2) batch_ok_empty, of "[]" cids 0] by (auto simp: slots_ok_def)
  let ?en = "on_metrics (add_cache_hits hits) en1" let ?op = "(record_cache_hit ^^ hits) op"
  have e1: "engine_ok ?look ?en" "en_store ?en = en_store en" using plan(2,3) by (simp_all add: engine_ok_def on_metrics_def)
  have all: "list_all2 (\<lambda>cid r. \<exists>bs. ?look cid = Some bs \<and> from_shared bs = Inr r) cids (map the nodes')"
    if "slots_ok ?look cids nodes'" "\<And>x. x \<in> set nodes' \<Longrightarrow> x \<noteq> None" for nodes'
    using that by (auto simp: slots_ok_def list_all2_conv_all_nth)
  show ?thesis
  proof (cases "mb_cids b = []")
    case True
    then have "mb_positions b = []" using plan(4) by (simp add: batch_ok_def)
    then have full: "x \<noteq> None" if "x \<in> set nodes" for x
      using plan(5,6) that by (auto simp: slots_ok_def covered_def in_set_conv_nth)
    then show ?thesis
      using all [OF plan(5)] e1 True
      by (simp add: load_many_engine_read_ordered_def plan_cached_nodes_def plan(1) collect_opt_all ok_or_def)
  next
    case False
    obtain nodes' en' op' where l: "load_missing ops sha256 (cfg_format (tr_config t)) b nodes (?en, ?op) = (Inr nodes', en', op')"
      "engine_ok ?look en'" "en_store en' = en_store en" "slots_ok ?look cids nodes'" "\<And>x. x \<in> set nodes' \<Longrightarrow> x \<noteq> None"
      using load_missing_ok [of ?en cids b nodes "cfg_format (tr_config t)" ?op] assms(1,3) e1 plan(4-6) by auto
    then show ?thesis
      using all [OF l(4,5)] False
      by (simp add: load_many_engine_read_ordered_def plan_cached_nodes_def plan(1) collect_opt_all ok_or_def Let_def)
  qed
qed

end

end
