(* ===== verification/Engine_Many.thy ===== *)
theory Engine_Many
  imports Engine_Batch "HOL-Library.Product_Lexorder"
begin

text \<open>
  Lookups of many keys (\<open>ProllyEngine::get_many\<close> of \<^verbatim>\<open>src/src/prolly/engine/mod.rs\<close> and its helpers in
  \<^verbatim>\<open>mod.rs\<close>): the positions of the keys are sorted by key, one frame per visited node carries
  the positions that belong to it, and every round loads the nodes of all frames and routes
  their positions to the children, by a linear walk or, for many positions, by a binary search
  for every boundary.
\<close>

section \<open>Definitions\<close>

fun keys_are_sorted :: "bytes list \<Rightarrow> bool" where
  "keys_are_sorted (a # b # rest) = (a \<le> b \<and> keys_are_sorted (b # rest))"
| "keys_are_sorted _ = True"

definition sorted_key_positions :: "bytes list \<Rightarrow> nat list" where
  "sorted_key_positions keys =
     (let positions = [0..<length keys] in
      if keys_are_sorted keys then positions else sort_key (\<lambda>p. (keys ! p, p)) positions)"

record key_lookup_frame =
  kf_cid :: cid
  kf_positions :: inline_positions

definition key_at :: "bytes list \<Rightarrow> nat \<Rightarrow> error + bytes" where
  "key_at keys p = (if p < length keys then Inr (keys ! p) else Inl (Panic ''index out of bounds''))"

function lower_bound_position_key :: "inline_positions \<Rightarrow> bytes list \<Rightarrow> nat \<Rightarrow> nat \<Rightarrow> bytes \<Rightarrow> error + nat" where
  "lower_bound_position_key positions keys left right key =
     (if left < right then
        let mid = left + (right - left) div 2 in
        and_then (and_then (positions_at positions mid) (key_at keys)) (\<lambda>k.
        if k < key then lower_bound_position_key positions keys (mid + 1) right key
        else lower_bound_position_key positions keys left mid key)
      else Inr left)"
  by pat_completeness auto

termination
  by (relation "measure (\<lambda>(_, _, left, right, _). right - left)") auto

declare lower_bound_position_key.simps [simp del]

primrec push_range :: "inline_positions \<Rightarrow> nat list \<Rightarrow> inline_positions \<Rightarrow> error + inline_positions" where
  "push_range positions [] bucket = Inr bucket"
| "push_range positions (offset # offsets) bucket =
     and_then (positions_at positions offset) (\<lambda>p. push_range positions offsets (positions_push p bucket))"

definition inline_positions_from_range :: "inline_positions \<Rightarrow> nat \<Rightarrow> nat \<Rightarrow> error + inline_positions" where
  "inline_positions_from_range positions start final =
     (if \<not> start < final then Inl (Panic ''assertion failed: range.start < range.end'')
      else and_then (positions_at positions start) (\<lambda>first.
        push_range positions [start + 1..<final] (positions_new first)))"

function skip_lower :: "read_node \<Rightarrow> bytes \<Rightarrow> nat \<Rightarrow> error + nat" where
  "skip_lower node key i =
     (if i < read_len node
      then and_then (ok_or (read_key node i) InvalidNode) (\<lambda>k. if k < key then skip_lower node key (i + 1) else Inr i)
      else Inr i)"
  by pat_completeness auto

termination
  by (relation "measure (\<lambda>(node, _, i). read_len node - i)") auto

declare skip_lower.simps [simp del]

function fill_loop :: "read_node \<Rightarrow> bytes list \<Rightarrow> nat list \<Rightarrow> nat \<Rightarrow> bytes option list \<Rightarrow> error + bytes option list" where
  "fill_loop node keys [] leaf_index vals = Inr vals"
| "fill_loop node keys (p # positions) leaf_index vals =
     and_then (key_at keys p) (\<lambda>key.
     and_then (skip_lower node key leaf_index) (\<lambda>leaf_index.
     let found = (if leaf_index < read_len node \<and> read_key node leaf_index = Some key then read_value node leaf_index else None);
         same = takeWhile (\<lambda>next. key_at keys next = Inr key) positions in
     and_then (set_slots (p # same) found vals) (\<lambda>vals.
     fill_loop node keys (dropWhile (\<lambda>next. key_at keys next = Inr key) positions) leaf_index vals)))"
  by pat_completeness auto

termination
  by (relation "measure (\<lambda>(_, _, positions, _, _). length positions)") (auto simp: less_Suc_eq_le length_dropWhile_le)

definition fill_read_leaf_lookup_values ::
  "read_node \<Rightarrow> inline_positions \<Rightarrow> bytes list \<Rightarrow> bytes option list \<Rightarrow> error + bytes option list" where
  "fill_read_leaf_lookup_values node positions keys vals = fill_loop node keys (positions_iter positions) 0 vals"

definition read_child_index :: "read_node \<Rightarrow> bytes \<Rightarrow> error + nat" where
  "read_child_index node key =
     (case read_search node key of
        None \<Rightarrow> Inl (Panic ''slice out of range'')
      | Some (Inr index) \<Rightarrow> Inr index
      | Some (Inl index) \<Rightarrow> Inr (index - 1))"

function advance_child :: "read_node \<Rightarrow> bytes \<Rightarrow> nat \<Rightarrow> error + nat" where
  "advance_child node key child_index =
     (if child_index + 1 < read_len node
      then and_then (ok_or (read_key node (child_index + 1)) InvalidNode) (\<lambda>k.
        if k \<le> key then advance_child node key (child_index + 1) else Inr child_index)
      else Inr child_index)"
  by pat_completeness auto

termination
  by (relation "measure (\<lambda>(node, _, i). read_len node - i)") auto

declare advance_child.simps [simp del]

primrec route_loop ::
  "read_node \<Rightarrow> bytes list \<Rightarrow> nat list \<Rightarrow> nat \<Rightarrow> nat option \<Rightarrow> key_lookup_frame list \<Rightarrow> error + key_lookup_frame list" where
  "route_loop node keys [] child_index last_child_index frames = Inr frames"
| "route_loop node keys (p # positions) child_index last_child_index frames =
     and_then (key_at keys p) (\<lambda>key.
     and_then (advance_child node key child_index) (\<lambda>child_index.
     if last_child_index = Some child_index
     then (if frames = [] then Inl InvalidNode
       else route_loop node keys positions child_index last_child_index
         (butlast frames @ [(last frames)\<lparr>kf_positions := positions_push p (kf_positions (last frames))\<rparr>]))
     else and_then (child_cid node child_index) (\<lambda>cid.
       route_loop node keys positions child_index (Some child_index) (frames @ [\<lparr>kf_cid = cid, kf_positions = positions_new p\<rparr>]))))"

definition push_bucket ::
  "read_node \<Rightarrow> inline_positions \<Rightarrow> nat \<Rightarrow> nat \<Rightarrow> nat \<Rightarrow> key_lookup_frame list \<Rightarrow> error + key_lookup_frame list" where
  "push_bucket node positions child_index bucket_start bucket_end frames =
     (if bucket_start < bucket_end
      then and_then (child_cid node child_index) (\<lambda>cid.
        and_then (inline_positions_from_range positions bucket_start bucket_end) (\<lambda>bucket.
        Inr (frames @ [\<lparr>kf_cid = cid, kf_positions = bucket\<rparr>])))
      else Inr frames)"

function boundary_loop ::
  "read_node \<Rightarrow> inline_positions \<Rightarrow> bytes list \<Rightarrow> nat \<Rightarrow> nat \<Rightarrow> nat \<Rightarrow> key_lookup_frame list \<Rightarrow> error + nat \<times> key_lookup_frame list" where
  "boundary_loop node positions keys child_index last_child_index bucket_start frames =
     (if child_index < last_child_index
      then and_then (ok_or (read_key node (child_index + 1)) InvalidNode) (\<lambda>boundary.
        and_then (lower_bound_position_key positions keys bucket_start (positions_len positions) boundary) (\<lambda>bucket_end.
        and_then (push_bucket node positions child_index bucket_start bucket_end frames) (\<lambda>frames.
        boundary_loop node positions keys (child_index + 1) last_child_index bucket_end frames)))
      else Inr (bucket_start, frames))"
  by pat_completeness auto

termination
  by (relation "measure (\<lambda>(_, _, _, child_index, last_child_index, _, _). last_child_index - child_index)") auto

declare boundary_loop.simps [simp del]

definition route_read_key_positions_to_children_by_boundary ::
  "read_node \<Rightarrow> inline_positions \<Rightarrow> bytes list \<Rightarrow> error + key_lookup_frame list" where
  "route_read_key_positions_to_children_by_boundary node positions keys =
     (let count = positions_len positions in
      and_then (and_then (and_then (positions_at positions 0) (key_at keys)) (read_child_index node)) (\<lambda>child_index.
      and_then (and_then (and_then (positions_at positions (count - 1)) (key_at keys)) (read_child_index node)) (\<lambda>last_child_index.
      and_then (boundary_loop node positions keys child_index last_child_index 0 []) (\<lambda>(bucket_start, frames).
      push_bucket node positions last_child_index bucket_start count frames))))"

definition get_many_boundary_route_min_positions :: nat where
  "get_many_boundary_route_min_positions = 32"

definition route_read_key_positions_to_children ::
  "read_node \<Rightarrow> inline_positions \<Rightarrow> bytes list \<Rightarrow> error + key_lookup_frame list" where
  "route_read_key_positions_to_children node positions keys =
     (if read_is_empty node then Inl InvalidNode
      else if get_many_boundary_route_min_positions \<le> positions_len positions \<and> 1 < read_len node
      then route_read_key_positions_to_children_by_boundary node positions keys
      else and_then (and_then (key_at keys (ip_first positions)) (read_child_index node)) (\<lambda>child_index.
        route_loop node keys (positions_iter positions) child_index None []))"

definition async_node_prefetch_batch_size :: nat where
  "async_node_prefetch_batch_size = 64"

definition read_chunk_size :: "'s read_store \<Rightarrow> execution_config \<Rightarrow> nat \<Rightarrow> nat" where
  "read_chunk_size ops execution n =
     (let parallelism = ec_read_parallelism execution in
      if st_prefers_batch_reads ops then min n (max (min (parallelism * async_node_prefetch_batch_size) (2 ^ 64 - 1)) 1)
      else if n \<le> parallelism then n
      else min ((n + parallelism - 1) div parallelism) async_node_prefetch_batch_size)"

function list_chunks :: "nat \<Rightarrow> 'a list \<Rightarrow> 'a list list" where
  "list_chunks n xs = (if xs = [] \<or> n = 0 then [] else take n xs # list_chunks n (drop n xs))"
  by pat_completeness auto

termination
  by (relation "measure (\<lambda>(_, xs). length xs)") auto

declare list_chunks.simps [simp del]

primrec load_chunks ::
  "'s read_store \<Rightarrow> hash256 \<Rightarrow> tree \<Rightarrow> cid list list \<Rightarrow> read_node list \<Rightarrow> 's engine \<times> operation_context \<Rightarrow>
   (error + read_node list) \<times> 's engine \<times> operation_context" where
  "load_chunks ops sha256 t [] nodes st = (Inr nodes, st)"
| "load_chunks ops sha256 t (chunk # chunks) nodes st =
     (case load_many_engine_read_ordered ops sha256 t chunk st of
        (Inl e, st) \<Rightarrow> (Inl e, st)
      | (Inr loaded, st) \<Rightarrow> load_chunks ops sha256 t chunks (nodes @ loaded) st)"

primrec visit_frames ::
  "hash256 \<Rightarrow> tree_format \<Rightarrow> bytes list \<Rightarrow> (key_lookup_frame \<times> read_node) list \<Rightarrow> bytes option list \<Rightarrow> key_lookup_frame list \<Rightarrow>
   error + bytes option list \<times> key_lookup_frame list" where
  "visit_frames sha256 f keys [] vals next_frames = Inr (vals, next_frames)"
| "visit_frames sha256 f keys (v # visits) vals next_frames =
     (case v of (frame, node) \<Rightarrow>
      and_then (validate_cached_read_node sha256 node f) (\<lambda>_.
      if rn_leaf node
      then and_then (fill_read_leaf_lookup_values node (kf_positions frame) keys vals) (\<lambda>vals.
        visit_frames sha256 f keys visits vals next_frames)
      else and_then (route_read_key_positions_to_children node (kf_positions frame) keys) (\<lambda>frames.
        visit_frames sha256 f keys visits vals (next_frames @ frames))))"

partial_function (option) get_many_loop ::
  "'s read_store \<Rightarrow> hash256 \<Rightarrow> tree \<Rightarrow> bytes list \<Rightarrow> key_lookup_frame list \<Rightarrow> bytes option list \<Rightarrow> 's engine \<times> operation_context \<Rightarrow>
   ((error + bytes option list) \<times> 's engine) option" where
  "get_many_loop ops sha256 t keys frames vals st =
     (if frames = [] then Some (Inr vals, fst st)
      else let cids = map kf_cid frames; chunk_size = read_chunk_size ops (en_execution (fst st)) (length cids) in
        (case load_chunks ops sha256 t (list_chunks (max chunk_size 1) cids) [] st of
           (Inl e, en, op) \<Rightarrow> Some (Inl e, en)
         | (Inr nodes, en, op) \<Rightarrow>
             (case visit_frames sha256 (cfg_format (tr_config t)) keys (zip frames nodes) vals [] of
                Inl e \<Rightarrow> Some (Inl e, en)
              | Inr (vals, next_frames) \<Rightarrow> get_many_loop ops sha256 t keys next_frames vals (en, op))))"

definition engine_get_many ::
  "'s read_store \<Rightarrow> hash256 \<Rightarrow> tree \<Rightarrow> bytes list \<Rightarrow> 's engine \<Rightarrow> ((error + bytes option list) \<times> 's engine) option" where
  "engine_get_many ops sha256 t keys en =
     (let vals = replicate (length keys) None in
      case tr_root t of
        None \<Rightarrow> Some (Inr vals, en)
      | Some root \<Rightarrow>
          if keys = [] then Some (Inr vals, en)
          else (case positions_from_vec (sorted_key_positions keys) of
              None \<Rightarrow> Some (Inl (Panic ''keys is non-empty after early return''), en)
            | Some positions \<Rightarrow>
                get_many_loop ops sha256 t keys [\<lparr>kf_cid = root, kf_positions = positions\<rparr>] vals (en, operation_new (en_execution en))))"

section \<open>Reading a node\<close>

text \<open>A packed node that decodes to an owned node.\<close>

definition decodes :: "read_node \<Rightarrow> node \<Rightarrow> bool" where
  "decodes r n \<longleftrightarrow> (\<exists>bs. from_shared bs = Inr r) \<and> read_to_owned r = Some n"

lemma decodes_simps:
  assumes "decodes r n"
  shows "read_len r = length (nd_keys n)" "i < length (nd_keys n) \<Longrightarrow> read_key r i = Some (nd_keys n ! i)"
    "i < length (nd_keys n) \<Longrightarrow> read_value r i = Some (nd_vals n ! i)" "sorted_wrt (<) (nd_keys n)"
    "length (nd_vals n) = length (nd_keys n)" "read_search r key = Some (search_ref (nd_keys n) key)"
    "i < length (nd_keys n) \<Longrightarrow> length (nd_vals n ! i) = 32 \<Longrightarrow> child_cid r i = Inr (nd_vals n ! i)"
    "read_is_empty r \<longleftrightarrow> nd_keys n = []"
proof -
  obtain bs where b: "from_shared bs = Inr r" "read_to_owned r = Some n" using assms by (auto simp: decodes_def)
  note acc = owned_access [OF b(2)] and v = shared_valid [OF b]
  show "read_len r = length (nd_keys n)" "i < length (nd_keys n) \<Longrightarrow> read_key r i = Some (nd_keys n ! i)"
    "i < length (nd_keys n) \<Longrightarrow> read_value r i = Some (nd_vals n ! i)" "sorted_wrt (<) (nd_keys n)"
    "length (nd_vals n) = length (nd_keys n)" "read_search r key = Some (search_ref (nd_keys n) key)"
    using acc v by simp_all
  show "i < length (nd_keys n) \<Longrightarrow> length (nd_vals n ! i) = 32 \<Longrightarrow> child_cid r i = Inr (nd_vals n ! i)"
    using acc(4) by (simp add: child_cid_def ok_or_def cid_of_value_def)
  show "read_is_empty r \<longleftrightarrow> nd_keys n = []"
    using acc(1) by (auto simp: read_is_empty_def read_len_def)
qed

lemma decodes_value:
  assumes "decodes r n"
  shows "i < length (nd_keys n) \<Longrightarrow> nd_keys n ! i = key \<Longrightarrow> map_of (zip (nd_keys n) (nd_vals n)) key = Some (nd_vals n ! i)"
    "key \<notin> set (nd_keys n) \<Longrightarrow> map_of (zip (nd_keys n) (nd_vals n)) key = None"
  using assms leaf_value by (auto simp: decodes_def)

section \<open>Filling the values of a leaf\<close>

lemma skip_lower_ok:
  assumes "decodes r n" "i \<le> length (nd_keys n)" "\<forall>j < i. nd_keys n ! j < key"
  shows "\<exists>i'. skip_lower r key i = Inr i' \<and> i' \<le> length (nd_keys n) \<and> (\<forall>j < i'. nd_keys n ! j < key) \<and>
    (i' < length (nd_keys n) \<longrightarrow> key \<le> nd_keys n ! i')"
  using assms
proof (induction r key i rule: skip_lower.induct)
  case (1 r key i)
  note d = decodes_simps [OF "1.prems"(1)]
  show ?case
  proof (cases "i < length (nd_keys n) \<and> nd_keys n ! i < key")
    case True
    have "skip_lower r key i = skip_lower r key (i + 1)"
      using True d(1,2) by (subst skip_lower.simps) (simp add: ok_or_def)
    moreover have "\<forall>j < i + 1. nd_keys n ! j < key" using "1.prems"(3) True by (auto simp: less_Suc_eq)
    ultimately show ?thesis using "1.IH" [of "nd_keys n ! i"] "1.prems"(1) True d(1,2) by (simp add: ok_or_def)
  next
    case False
    then have "skip_lower r key i = Inr i" using d(1,2) by (subst skip_lower.simps) (auto simp: ok_or_def)
    then show ?thesis using False "1.prems"(2,3) by auto
  qed
qed

lemma found_value:
  assumes "decodes r n" "i \<le> length (nd_keys n)" "\<forall>j < i. nd_keys n ! j < key" "i < length (nd_keys n) \<Longrightarrow> key \<le> nd_keys n ! i"
  shows "(if i < read_len r \<and> read_key r i = Some key then read_value r i else None) = map_of (zip (nd_keys n) (nd_vals n)) key"
proof (cases "i < length (nd_keys n) \<and> nd_keys n ! i = key")
  case True
  then show ?thesis using decodes_simps(1-3) [OF assms(1)] decodes_value(1) [OF assms(1), of i key] by simp
next
  case False
  have "key \<notin> set (nd_keys n)"
  proof
    assume "key \<in> set (nd_keys n)"
    then obtain j where j: "j < length (nd_keys n)" "nd_keys n ! j = key" by (auto simp: in_set_conv_nth)
    have "\<not> j < i" using spec [OF assms(3), of j] j(2) by auto
    then have "i \<le> j" by simp
    then have "i < length (nd_keys n)" "nd_keys n ! i \<le> nd_keys n ! j"
      using j sorted_wrt_nth_le [OF decodes_simps(4) [OF assms(1)]] by auto
    then show False using assms(4) j False by auto
  qed
  then show ?thesis using False decodes_simps(1,2) [OF assms(1)] decodes_value(2) [OF assms(1)] by auto
qed

lemma fill_loop_ok:
  assumes "decodes r n" "\<forall>p \<in> set ps. p < length keys" "sorted (map (\<lambda>p. keys ! p) ps)" "length vals = length keys"
    "i \<le> length (nd_keys n)" "\<forall>p \<in> set ps. \<forall>j < i. nd_keys n ! j < keys ! p"
  shows "\<exists>vs. fill_loop r keys ps i vals = Inr vs \<and> length vs = length keys \<and>
    (\<forall>p < length keys. vs ! p = (if p \<in> set ps then map_of (zip (nd_keys n) (nd_vals n)) (keys ! p) else vals ! p))"
  using assms
proof (induction "length ps" arbitrary: ps i vals rule: less_induct)
  case less
  show ?case
  proof (cases ps)
    case Nil
    then show ?thesis using less.prems(4) by simp
  next
    case (Cons p rest)
    let ?key = "keys ! p" let ?P = "\<lambda>q. key_at keys q = Inr ?key"
    have k: "key_at keys q = Inr (keys ! q)" if "q \<in> set ps" for q using less.prems(2) that by (simp add: key_at_def)
    obtain i' where i': "skip_lower r ?key i = Inr i'" "i' \<le> length (nd_keys n)" "\<forall>j < i'. nd_keys n ! j < ?key"
      "i' < length (nd_keys n) \<Longrightarrow> ?key \<le> nd_keys n ! i'"
      using skip_lower_ok [OF less.prems(1,5), of ?key] less.prems(6) Cons by auto
    let ?found = "map_of (zip (nd_keys n) (nd_vals n)) ?key"
    note found = found_value [OF less.prems(1) i'(2-4)]
    obtain vs where vs: "set_slots (p # takeWhile ?P rest) ?found vals = Inr vs" "length vs = length keys"
      "\<And>q. q < length keys \<Longrightarrow> vs ! q = (if q \<in> set (p # takeWhile ?P rest) then ?found else vals ! q)"
      using set_slots_ok [of "p # takeWhile ?P rest" vals ?found] less.prems(2,4) Cons by (auto dest: set_takeWhileD)
    let ?rest = "dropWhile ?P rest"
    have sub: "set ?rest \<subseteq> set ps" using set_dropWhileD [of _ ?P rest] by (auto simp: Cons)
    have sorted: "sorted (map (\<lambda>p. keys ! p) ?rest)"
      using less.prems(3) unfolding Cons by (simp add: dropWhile_eq_drop flip: drop_map)
    have later: "?key \<le> keys ! q" if "q \<in> set ?rest" for q
      using less.prems(3) that set_dropWhileD [of q ?P rest] by (auto simp: Cons)
    have len: "length ?rest < length ps" using length_dropWhile_le [of ?P rest] by (simp add: Cons)
    have ps': "\<forall>q \<in> set ?rest. \<forall>j < i'. nd_keys n ! j < keys ! q" using later i'(3) by (meson order_less_le_trans)
    obtain us where us: "fill_loop r keys ?rest i' vs = Inr us" "length us = length keys"
      "\<And>q. q < length keys \<Longrightarrow> us ! q = (if q \<in> set ?rest then map_of (zip (nd_keys n) (nd_vals n)) (keys ! q) else vs ! q)"
      using less.hyps [OF len less.prems(1) _ sorted vs(2) i'(2) ps'] less.prems(2) sub by blast
    have all: "set ps = set (p # takeWhile ?P rest) \<union> set ?rest"
      unfolding Cons using takeWhile_dropWhile_id [of ?P rest] by (metis insert_is_Un list.simps(15) set_append sup_assoc)
    have same: "keys ! q = ?key" if "q \<in> set (p # takeWhile ?P rest)" for q
      using that k set_takeWhileD [of q ?P rest] by (auto simp: Cons)
    have "fill_loop r keys ps i vals = Inr us"
      using us(1) vs(1) k [of p] i'(1) found by (simp add: Cons Let_def)
    moreover have "us ! q = (if q \<in> set ps then map_of (zip (nd_keys n) (nd_vals n)) (keys ! q) else vals ! q)" if "q < length keys" for q
      using us(3) [OF that] vs(3) [OF that] same [of q] all by auto
    ultimately show ?thesis using us(2) by blast
  qed
qed

section \<open>Routing to the children of a node\<close>

text \<open>Child \<open>i\<close> of a node is the one whose range of keys has the key; keys below the first belong to child 0.\<close>

definition owns :: "bytes list \<Rightarrow> nat \<Rightarrow> bytes \<Rightarrow> bool" where
  "owns ks i key \<longleftrightarrow> i < length ks \<and> (i = 0 \<or> ks ! i \<le> key) \<and> (i + 1 < length ks \<longrightarrow> key < ks ! (i + 1))"

lemma owns_mono:
  assumes "sorted_wrt (<) ks" "owns ks i key" "owns ks j key'" "key \<le> key'"
  shows "i \<le> j"
proof (rule ccontr)
  assume "\<not> i \<le> j"
  then have "key' < ks ! (j + 1)" "ks ! (j + 1) \<le> ks ! i" "ks ! i \<le> key"
    using assms(2,3) sorted_wrt_nth_le [OF assms(1), of "j + 1" i] by (auto simp: owns_def)
  then show False using assms(4) by simp
qed

lemma read_child_index_ok:
  assumes "decodes r n" "nd_keys n \<noteq> []"
  obtains i where "read_child_index r key = Inr i" "owns (nd_keys n) i key"
proof -
  note d = decodes_simps [OF assms(1)]
  from d(4) show thesis
  proof (cases rule: search_ref_cases [of _ key])
    case (1 i)
    then show ?thesis
      using d(4) by (intro that [of i]) (auto simp: read_child_index_def d(6) owns_def sorted_wrt_iff_nth_less)
  next
    case (2 i)
    then show ?thesis
      using assms(2) by (intro that [of "i - 1"]) (cases i; auto simp: read_child_index_def d(6) owns_def less_imp_le)+
  qed
qed

lemma advance_child_ok:
  assumes "decodes r n" "i < length (nd_keys n)" "i = 0 \<or> nd_keys n ! i \<le> key"
  shows "\<exists>j. advance_child r key i = Inr j \<and> owns (nd_keys n) j key"
  using assms
proof (induction r key i rule: advance_child.induct)
  case (1 r key i)
  note d = decodes_simps [OF "1.prems"(1)]
  show ?case
  proof (cases "i + 1 < length (nd_keys n) \<and> nd_keys n ! (i + 1) \<le> key")
    case True
    have "advance_child r key i = advance_child r key (i + 1)"
      using True d(1,2) by (subst advance_child.simps) (simp add: ok_or_def)
    then show ?thesis using "1.IH" [of "nd_keys n ! (i + 1)"] "1.prems"(1) True d(1,2) by (simp add: ok_or_def)
  next
    case False
    then have "advance_child r key i = Inr i" using d(1,2) by (subst advance_child.simps) (auto simp: ok_or_def)
    then show ?thesis using False "1.prems"(2,3) by (auto simp: owns_def)
  qed
qed

text \<open>Frames that carry the positions \<open>ps\<close> in order, each to the child that owns their keys.\<close>

definition frame_owned :: "node \<Rightarrow> bytes list \<Rightarrow> nat \<Rightarrow> key_lookup_frame \<Rightarrow> bool" where
  "frame_owned n keys i fr \<longleftrightarrow> i < length (nd_keys n) \<and> kf_cid fr = nd_vals n ! i \<and>
     (\<forall>p \<in> set (positions_iter (kf_positions fr)). owns (nd_keys n) i (keys ! p))"

definition frames_ok :: "node \<Rightarrow> bytes list \<Rightarrow> nat list \<Rightarrow> key_lookup_frame list \<Rightarrow> bool" where
  "frames_ok n keys ps frames \<longleftrightarrow> concat (map (positions_iter \<circ> kf_positions) frames) = ps \<and>
     (\<forall>fr \<in> set frames. \<exists>i. frame_owned n keys i fr)"

lemma frames_ok_snoc: "frames_ok n keys ps frames \<Longrightarrow> frame_owned n keys i fr \<Longrightarrow> frames_ok n keys (ps @ positions_iter (kf_positions fr)) (frames @ [fr])"
  by (auto simp: frames_ok_def)

definition child_ids :: "node \<Rightarrow> bool" where
  "child_ids n \<longleftrightarrow> (\<forall>i < length (nd_keys n). length (nd_vals n ! i) = 32)"

lemma route_loop_ok:
  assumes "decodes r n" "child_ids n" "\<forall>p \<in> set ps. p < length keys" "sorted (map (\<lambda>p. keys ! p) ps)"
    "i < length (nd_keys n)" "i = 0 \<or> (\<forall>p \<in> set ps. nd_keys n ! i \<le> keys ! p)" "frames_ok n keys seen frames"
    "case lst of None \<Rightarrow> True | Some c \<Rightarrow> frames \<noteq> [] \<and> frame_owned n keys c (last frames)"
  shows "\<exists>fs. route_loop r keys ps i lst frames = Inr fs \<and> frames_ok n keys (seen @ ps) fs"
  using assms
proof (induction ps arbitrary: i lst frames seen)
  case Nil
  then show ?case by simp
next
  case (Cons p ps)
  note d = decodes_simps [OF Cons.prems(1)]
  have k: "key_at keys p = Inr (keys ! p)" using Cons.prems(3) by (simp add: key_at_def)
  have "i = 0 \<or> nd_keys n ! i \<le> keys ! p" using Cons.prems(6) by auto
  from advance_child_ok [OF Cons.prems(1,5) this] obtain j where j: "advance_child r (keys ! p) i = Inr j" "owns (nd_keys n) j (keys ! p)" by blast
  have jl: "j < length (nd_keys n)" using j(2) by (simp add: owns_def)
  have later: "j = 0 \<or> (\<forall>q \<in> set ps. nd_keys n ! j \<le> keys ! q)"
    using j(2) Cons.prems(4) by (auto simp: owns_def)
  show ?case
  proof (cases "lst = Some j")
    case True
    let ?fr = "(last frames)\<lparr>kf_positions := positions_push p (kf_positions (last frames))\<rparr>"
    let ?frames = "butlast frames @ [?fr]"
    have fr: "frames \<noteq> []" "frame_owned n keys j (last frames)" using Cons.prems(8) True by auto
    have owned: "frame_owned n keys j ?fr" using fr(2) j(2) by (auto simp: frame_owned_def)
    obtain gs g where g: "frames = gs @ [g]" using fr(1) by (cases frames rule: rev_cases) auto
    have "frames_ok n keys (seen @ [p]) ?frames"
      using Cons.prems(7) owned by (auto simp: frames_ok_def g)
    from Cons.IH [OF Cons.prems(1,2) _ _ jl later this, of lst] Cons.prems(3,4) True owned
    show ?thesis using fr(1) by (simp add: k j(1))
  next
    case False
    let ?fr = "\<lparr>kf_cid = nd_vals n ! j, kf_positions = positions_new p\<rparr>"
    have owned: "frame_owned n keys j ?fr" using j(2) jl by (simp add: frame_owned_def)
    have cid: "child_cid r j = Inr (nd_vals n ! j)" using d(7) [OF jl] Cons.prems(2) jl by (simp add: child_ids_def)
    have "frames_ok n keys (seen @ [p]) (frames @ [?fr])" using frames_ok_snoc [OF Cons.prems(7) owned] by simp
    from Cons.IH [OF Cons.prems(1,2) _ _ jl later this, of "Some j"] Cons.prems(3,4) owned
    show ?thesis using False by (simp add: k j(1) cid)
  qed
qed

subsection \<open>By boundaries\<close>

lemma positions_iter_at: "i < length (positions_iter ps) \<Longrightarrow> positions_at ps i = Inr (positions_iter ps ! i)"
  by (cases i) (auto simp: positions_at_def positions_iter_def)

lemma positions_len_iter: "positions_len ps = length (positions_iter ps)"
  by (simp add: positions_len_def positions_iter_def)

definition positions_sorted :: "bytes list \<Rightarrow> nat list \<Rightarrow> bool" where
  "positions_sorted keys ps \<longleftrightarrow> (\<forall>p \<in> set ps. p < length keys) \<and> sorted (map (\<lambda>p. keys ! p) ps)"

lemma positions_sorted_nth:
  assumes "positions_sorted keys ps" "i \<le> j" "j < length ps"
  shows "keys ! (ps ! i) \<le> keys ! (ps ! j)" "ps ! i < length keys"
  using assms sorted_nth_mono [of "map (\<lambda>p. keys ! p) ps" i j] by (auto simp: positions_sorted_def)

lemma lower_bound_ok:
  assumes "positions_sorted keys (positions_iter ps)" "right \<le> length (positions_iter ps)" "left \<le> right"
  shows "\<exists>b. lower_bound_position_key ps keys left right key = Inr b \<and> left \<le> b \<and> b \<le> right \<and>
    (\<forall>i. left \<le> i \<longrightarrow> i < b \<longrightarrow> keys ! (positions_iter ps ! i) < key) \<and> (\<forall>i. b \<le> i \<longrightarrow> i < right \<longrightarrow> key \<le> keys ! (positions_iter ps ! i))"
  using assms
proof (induction ps keys left right key rule: lower_bound_position_key.induct)
  case (1 ps keys left right key)
  show ?case
  proof (cases "left < right")
    case False
    then show ?thesis using "1.prems"(3) by (subst lower_bound_position_key.simps) auto
  next
    case True
    let ?m = "left + (right - left) div 2" let ?k = "keys ! (positions_iter ps ! ?m)"
    have m: "left \<le> ?m" "?m < right" "?m < length (positions_iter ps)" using True "1.prems"(2) by auto
    have at: "and_then (positions_at ps ?m) (key_at keys) = Inr ?k"
      using positions_iter_at [OF m(3)] positions_sorted_nth(2) [OF "1.prems"(1) order_refl m(3)] by (simp add: key_at_def)
    show ?thesis
    proof (cases "?k < key")
      case True
      have eq: "lower_bound_position_key ps keys left right key = lower_bound_position_key ps keys (?m + 1) right key"
        using \<open>left < right\<close> True at by (subst lower_bound_position_key.simps) (simp add: Let_def)
      have below: "keys ! (positions_iter ps ! i) < key" if "i \<le> ?m" for i
        using positions_sorted_nth(1) [OF "1.prems"(1) that m(3)] True by simp
      obtain b where b: "lower_bound_position_key ps keys (?m + 1) right key = Inr b" "?m + 1 \<le> b" "b \<le> right"
        "\<forall>i. ?m + 1 \<le> i \<longrightarrow> i < b \<longrightarrow> keys ! (positions_iter ps ! i) < key" "\<forall>i. b \<le> i \<longrightarrow> i < right \<longrightarrow> key \<le> keys ! (positions_iter ps ! i)"
        using "1.IH"(1) [OF \<open>left < right\<close> refl at True "1.prems"(1,2)] m(2) by auto
      have "keys ! (positions_iter ps ! i) < key" if "i < b" for i
        using b(4) below that by (cases "i \<le> ?m") auto
      then show ?thesis using eq m(1) b(1,2,3,5) by (intro exI [of _ b] conjI) auto
    next
      case False
      have eq: "lower_bound_position_key ps keys left right key = lower_bound_position_key ps keys left ?m key"
        using \<open>left < right\<close> False at by (subst lower_bound_position_key.simps) (simp add: Let_def)
      have above: "key \<le> keys ! (positions_iter ps ! i)" if "?m \<le> i" "i < right" for i
        using positions_sorted_nth(1) [OF "1.prems"(1) that(1)] that(2) "1.prems"(2) False by (meson dual_order.trans less_le_trans not_le)
      obtain b where b: "lower_bound_position_key ps keys left ?m key = Inr b" "left \<le> b" "b \<le> ?m"
        "\<forall>i. left \<le> i \<longrightarrow> i < b \<longrightarrow> keys ! (positions_iter ps ! i) < key" "\<forall>i. b \<le> i \<longrightarrow> i < ?m \<longrightarrow> key \<le> keys ! (positions_iter ps ! i)"
        using "1.IH"(2) [OF \<open>left < right\<close> refl at False "1.prems"(1)] m by auto
      have "key \<le> keys ! (positions_iter ps ! i)" if "b \<le> i" "i < right" for i
        using b(5) above that by (cases "?m \<le> i") auto
      then show ?thesis using eq m(2) b(1-4) by (intro exI [of _ b] conjI) auto
    qed
  qed
qed

lemma push_range_ok:
  assumes "\<forall>i \<in> set is. i < length (positions_iter ps)"
  shows "\<exists>q. push_range ps is b = Inr q \<and> positions_iter q = positions_iter b @ map (\<lambda>i. positions_iter ps ! i) is"
  using assms
proof (induction "is" arbitrary: b)
  case (Cons i "is")
  obtain q where "push_range ps is (positions_push (positions_iter ps ! i) b) = Inr q"
    "positions_iter q = positions_iter (positions_push (positions_iter ps ! i) b) @ map (\<lambda>i. positions_iter ps ! i) is"
    using Cons.IH [of "positions_push (positions_iter ps ! i) b"] Cons.prems by (meson list.set_intros(2))
  then show ?case using Cons.prems by (simp add: positions_iter_at)
qed simp

lemma from_range_ok:
  assumes "start < final" "final \<le> length (positions_iter ps)"
  obtains q where "inline_positions_from_range ps start final = Inr q" "positions_iter q = take (final - start) (drop start (positions_iter ps))"
proof -
  let ?xs = "positions_iter ps"
  obtain q where q: "push_range ps [start + 1..<final] (positions_new (?xs ! start)) = Inr q"
    "positions_iter q = ?xs ! start # map (\<lambda>i. ?xs ! i) [start + 1..<final]"
    using push_range_ok [of "[start + 1..<final]" ps "positions_new (?xs ! start)"] assms by auto
  have "?xs ! start # map (\<lambda>i. ?xs ! i) [start + 1..<final] = map (\<lambda>i. ?xs ! i) [start..<final]"
    using assms(1) by (simp add: upt_conv_Cons)
  also have "\<dots> = take (final - start) (drop start ?xs)"
    using assms by (auto intro!: nth_equalityI)
  finally show thesis using that q assms positions_iter_at [of start ps] by (auto simp: inline_positions_from_range_def)
qed

lemma push_bucket_ok:
  assumes "decodes r n" "child_ids n" "i < length (nd_keys n)" "frames_ok n keys (take start (positions_iter ps)) frames"
    "start \<le> final" "final \<le> length (positions_iter ps)" "\<forall>k. start \<le> k \<longrightarrow> k < final \<longrightarrow> owns (nd_keys n) i (keys ! (positions_iter ps ! k))"
  shows "\<exists>fs. push_bucket r ps i start final frames = Inr fs \<and> frames_ok n keys (take final (positions_iter ps)) fs"
proof (cases "start < final")
  case False
  then show ?thesis using assms(4,5) by (simp add: push_bucket_def)
next
  case True
  let ?xs = "positions_iter ps"
  obtain q where q: "inline_positions_from_range ps start final = Inr q" "positions_iter q = take (final - start) (drop start ?xs)"
    by (rule from_range_ok [OF True assms(6)])
  let ?fr = "\<lparr>kf_cid = nd_vals n ! i, kf_positions = q\<rparr>"
  have cid: "child_cid r i = Inr (nd_vals n ! i)"
    using decodes_simps(7) [OF assms(1,3)] assms(2,3) by (simp add: child_ids_def)
  have "frame_owned n keys i ?fr"
    using assms(3,6,7) True by (auto simp: frame_owned_def q(2) in_set_conv_nth)
  moreover have "take start ?xs @ take (final - start) (drop start ?xs) = take final ?xs"
    using True by (metis less_imp_le le_add_diff_inverse take_add)
  ultimately show ?thesis
    using frames_ok_snoc [OF assms(4), of i ?fr] True q cid by (simp add: push_bucket_def)
qed

lemma boundary_loop_ok:
  assumes "decodes r n" "child_ids n" "positions_sorted keys (positions_iter ps)" "owns (nd_keys n) lst (keys ! last (positions_iter ps))"
    "ci \<le> lst" "start \<le> length (positions_iter ps)" "frames_ok n keys (take start (positions_iter ps)) frames"
    "ci = 0 \<or> (\<forall>k. start \<le> k \<longrightarrow> k < length (positions_iter ps) \<longrightarrow> nd_keys n ! ci \<le> keys ! (positions_iter ps ! k))"
  shows "\<exists>start' fs. boundary_loop r ps keys ci lst start frames = Inr (start', fs) \<and> start' \<le> length (positions_iter ps) \<and>
    frames_ok n keys (take start' (positions_iter ps)) fs \<and>
    (lst = 0 \<or> (\<forall>k. start' \<le> k \<longrightarrow> k < length (positions_iter ps) \<longrightarrow> nd_keys n ! lst \<le> keys ! (positions_iter ps ! k)))"
  using assms
proof (induction r ps keys ci lst start frames rule: boundary_loop.induct)
  case (1 r ps keys ci lst start frames)
  let ?xs = "positions_iter ps"
  show ?case
  proof (cases "ci < lst")
    case False
    then show ?thesis using "1.prems"(5-8) by (subst boundary_loop.simps) auto
  next
    case True
    have l: "lst < length (nd_keys n)" using "1.prems"(4) by (simp add: owns_def)
    let ?b = "nd_keys n ! (ci + 1)"
    have key: "ok_or (read_key r (ci + 1)) InvalidNode = Inr ?b"
      using decodes_simps(2) [OF "1.prems"(1), of "ci + 1"] True l by (simp add: ok_or_def)
    obtain e where e: "lower_bound_position_key ps keys start (positions_len ps) ?b = Inr e" "start \<le> e" "e \<le> length ?xs"
      "\<forall>i. start \<le> i \<longrightarrow> i < e \<longrightarrow> keys ! (?xs ! i) < ?b" "\<forall>i. e \<le> i \<longrightarrow> i < length ?xs \<longrightarrow> ?b \<le> keys ! (?xs ! i)"
      using lower_bound_ok [OF "1.prems"(3) order_refl "1.prems"(6), of ?b] by (auto simp: positions_len_iter)
    have "\<forall>k. start \<le> k \<longrightarrow> k < e \<longrightarrow> owns (nd_keys n) ci (keys ! (?xs ! k))"
      using "1.prems"(8) e(3,4) True l by (auto simp: owns_def)
    then obtain fs where fs: "push_bucket r ps ci start e frames = Inr fs" "frames_ok n keys (take e ?xs) fs"
      using push_bucket_ok [OF "1.prems"(1,2) _ "1.prems"(7) e(2,3), of ci] True l by auto
    have "boundary_loop r ps keys ci lst start frames = boundary_loop r ps keys (ci + 1) lst e fs"
      using True key e(1) fs(1) by (subst boundary_loop.simps) simp
    then show ?thesis
      using "1.IH" [OF True key e(1) fs(1) "1.prems"(1-4) _ e(3) fs(2)] e(5) True by simp
  qed
qed

lemma route_ok:
  assumes "decodes r n" "child_ids n" "nd_keys n \<noteq> []" "positions_sorted keys (positions_iter ps)"
  shows "\<exists>fs. route_read_key_positions_to_children r ps keys = Inr fs \<and> frames_ok n keys (positions_iter ps) fs"
proof -
  let ?xs = "positions_iter ps"
  have ne: "?xs \<noteq> []" "?xs ! 0 = ip_first ps" by (simp_all add: positions_iter_def)
  have bound: "p < length keys" if "p \<in> set ?xs" for p using assms(4) that by (simp add: positions_sorted_def)
  obtain i where i: "read_child_index r (keys ! (?xs ! 0)) = Inr i" "owns (nd_keys n) i (keys ! (?xs ! 0))"
    by (rule read_child_index_ok [OF assms(1,3)])
  have il: "i < length (nd_keys n)" using i(2) by (simp add: owns_def)
  have first: "keys ! (?xs ! 0) \<le> keys ! (?xs ! k)" if "k < length ?xs" for k
    using positions_sorted_nth(1) [OF assms(4) _ that, of 0] by simp
  then have low: "i = 0 \<or> (\<forall>k. 0 \<le> k \<longrightarrow> k < length ?xs \<longrightarrow> nd_keys n ! i \<le> keys ! (?xs ! k))"
    using i(2) by (fastforce simp: owns_def)
  show ?thesis
  proof (cases "get_many_boundary_route_min_positions \<le> positions_len ps \<and> 1 < read_len r")
    case False
    have "\<exists>fs. route_loop r keys ?xs i None [] = Inr fs \<and> frames_ok n keys ([] @ ?xs) fs"
      by (rule route_loop_ok [OF assms(1,2) _ _ il]) (use assms(4) low in \<open>auto simp: positions_sorted_def frames_ok_def in_set_conv_nth\<close>)
    then show ?thesis
      using False i(1) bound [of "ip_first ps"] ne decodes_simps(8) [OF assms(1)] assms(3)
      by (auto simp: route_read_key_positions_to_children_def key_at_def positions_iter_def)
  next
    case True
    have lst: "?xs ! (length ?xs - 1) = last ?xs" using ne(1) by (simp add: last_conv_nth)
    obtain j where j: "read_child_index r (keys ! last ?xs) = Inr j" "owns (nd_keys n) j (keys ! last ?xs)"
      by (rule read_child_index_ok [OF assms(1,3)])
    have jl: "j < length (nd_keys n)" using j(2) by (simp add: owns_def)
    have le: "i \<le> j"
      by (rule owns_mono [OF decodes_simps(4) [OF assms(1)] i(2) j(2)]) (use first [of "length ?xs - 1"] lst ne(1) in simp)
    obtain st fs where b: "boundary_loop r ps keys i j 0 [] = Inr (st, fs)" "st \<le> length ?xs" "frames_ok n keys (take st ?xs) fs"
      "j = 0 \<or> (\<forall>k. st \<le> k \<longrightarrow> k < length ?xs \<longrightarrow> nd_keys n ! j \<le> keys ! (?xs ! k))"
      using boundary_loop_ok [OF assms(1,2,4) j(2) le, of 0 "[]"] low by (auto simp: frames_ok_def)
    have "owns (nd_keys n) j (keys ! (?xs ! k))" if "st \<le> k" "k < length ?xs" for k
    proof -
      have "keys ! (?xs ! k) \<le> keys ! last ?xs"
        using positions_sorted_nth(1) [OF assms(4), of k "length ?xs - 1"] that lst by simp
      then show ?thesis using b(4) that j(2) by (auto simp: owns_def)
    qed
    then obtain gs where gs: "push_bucket r ps j st (length ?xs) fs = Inr gs" "frames_ok n keys ?xs gs"
      using push_bucket_ok [OF assms(1,2) jl b(3,2) order_refl] by auto
    have at: "and_then (positions_at ps k) (key_at keys) = Inr (keys ! (?xs ! k))" if "k < length ?xs" for k
      using positions_iter_at [OF that] bound [OF nth_mem [OF that]] by (simp add: key_at_def)
    have "route_read_key_positions_to_children_by_boundary r ps keys = Inr gs"
      using at [of 0] at [of "length ?xs - 1"] ne(1) i(1) j(1) b(1) gs(1) lst
      by (simp add: route_read_key_positions_to_children_by_boundary_def positions_len_iter Let_def)
    then show ?thesis
      using True gs(2) decodes_simps(8) [OF assms(1)] assms(3) by (simp add: route_read_key_positions_to_children_def)
  qed
qed

section \<open>Rounds of frames\<close>

lemma map_of_owned_kid:
  fixes kids :: "entry list list"
  assumes "sorted_wrt (<) (map fst (concat kids))" "[] \<notin> set kids" "length kids = length ks"
    "\<And>i. i < length kids \<Longrightarrow> ks ! i = fst (hd (kids ! i))" "owns ks i key"
  shows "map_of (concat kids) key = map_of (kids ! i) key"
proof (cases "ks ! i \<le> key")
  case True
  then show ?thesis using assms by (intro map_of_kid) (auto simp: owns_def)
next
  case False
  then have i: "i = 0" "0 < length kids" "key < fst (hd (kids ! 0))" using assms(3,4,5) by (auto simp: owns_def)
  then obtain k kids' where k: "kids = k # kids'" "k \<noteq> []" using assms(2) by (cases kids) auto
  have "key < fst (hd (concat kids))" "key < fst (hd k)" using i k by simp_all
  moreover have "sorted_wrt (<) (map fst k)" using assms(1) by (simp add: k sorted_wrt_append)
  ultimately show ?thesis using map_of_below [OF assms(1)] map_of_below [of k key] i(1) k(1) by simp
qed

text \<open>A frame whose node, at height \<open>l\<close>, decides the values of the frame's keys in the whole tree.\<close>

definition frame_ok :: "(cid \<Rightarrow> bytes option) \<Rightarrow> tree_format \<Rightarrow> entry list \<Rightarrow> bytes list \<Rightarrow> nat \<Rightarrow> key_lookup_frame \<Rightarrow> bool" where
  "frame_ok look f es keys l fr \<longleftrightarrow> positions_sorted keys (positions_iter (kf_positions fr)) \<and>
     (\<exists>es'. holds look f l (kf_cid fr) es' \<and> (\<forall>p \<in> set (positions_iter (kf_positions fr)). map_of es (keys ! p) = map_of es' (keys ! p)))"

abbreviation frame_positions :: "key_lookup_frame list \<Rightarrow> nat set" where
  "frame_positions frames \<equiv> set (concat (map (positions_iter \<circ> kf_positions) frames))"

definition loaded :: "(cid \<Rightarrow> bytes option) \<Rightarrow> cid \<Rightarrow> read_node \<Rightarrow> bool" where
  "loaded look cid r \<longleftrightarrow> (\<exists>bs. look cid = Some bs \<and> from_shared bs = Inr r)"

lemma visit_leaf_ok:
  assumes "frame_ok look f es keys 0 fr" "loaded look (kf_cid fr) r" "length vals = length keys"
  obtains vs where "validate_cached_read_node sha256 r f = Inr ()" "rn_leaf r" "fill_read_leaf_lookup_values r (kf_positions fr) keys vals = Inr vs"
    "length vs = length keys" "\<And>p. p < length keys \<Longrightarrow> vs ! p = (if p \<in> set (positions_iter (kf_positions fr)) then map_of es (keys ! p) else vals ! p)"
proof -
  let ?ps = "positions_iter (kf_positions fr)"
  obtain es' where es': "holds look f 0 (kf_cid fr) es'" "\<And>p. p \<in> set ?ps \<Longrightarrow> map_of es (keys ! p) = map_of es' (keys ! p)"
    and sorted: "positions_sorted keys ?ps" using assms(1) by (auto simp: frame_ok_def)
  from es'(1) assms(2) obtain bs n where n: "from_shared bs = Inr r" "read_to_owned r = Some n" "nd_format n = f" "nd_leaf n"
    "es' = zip (nd_keys n) (nd_vals n)" by (auto simp: loaded_def elim!: holds_leafE)
  have dec: "decodes r n" using n by (auto simp: decodes_def)
  obtain vs where "fill_loop r keys ?ps 0 vals = Inr vs" "length vs = length keys"
    "\<forall>p < length keys. vs ! p = (if p \<in> set ?ps then map_of es' (keys ! p) else vals ! p)"
    using fill_loop_ok [OF dec _ _ assms(3), of ?ps 0] sorted n(5) by (auto simp: positions_sorted_def)
  then show thesis
    using that owned_access(5,7) [OF n(2)] n(3,4) es'(2) by (simp add: validate_cached_read_node_def fill_read_leaf_lookup_values_def)
qed

lemma visit_leaves_ok:
  assumes "list_all2 (\<lambda>fr r. frame_ok look f es keys 0 fr \<and> loaded look (kf_cid fr) r) frames nodes" "length vals = length keys"
  shows "\<exists>vs. visit_frames sha256 f keys (zip frames nodes) vals nf = Inr (vs, nf) \<and> length vs = length keys \<and>
    (\<forall>p < length keys. vs ! p = (if p \<in> frame_positions frames then map_of es (keys ! p) else vals ! p))"
  using assms
proof (induction arbitrary: vals rule: list_all2_induct)
  case (Cons fr frames r nodes)
  obtain us where us: "validate_cached_read_node sha256 r f = Inr ()" "rn_leaf r" "fill_read_leaf_lookup_values r (kf_positions fr) keys vals = Inr us"
    "length us = length keys" "\<And>p. p < length keys \<Longrightarrow> us ! p = (if p \<in> set (positions_iter (kf_positions fr)) then map_of es (keys ! p) else vals ! p)"
    by (rule visit_leaf_ok [OF _ _ Cons.prems, of look f es fr r sha256]) (use Cons.hyps in auto)
  from Cons.IH [OF us(4)] obtain vs where "visit_frames sha256 f keys (zip frames nodes) us nf = Inr (vs, nf)" "length vs = length keys"
    "\<forall>p < length keys. vs ! p = (if p \<in> frame_positions frames then map_of es (keys ! p) else us ! p)" by blast
  then show ?case using us by simp
qed simp

lemma visit_node_ok:
  assumes "frame_ok look f es keys (Suc l) fr" "loaded look (kf_cid fr) r"
  obtains fs where "validate_cached_read_node sha256 r f = Inr ()" "\<not> rn_leaf r" "route_read_key_positions_to_children r (kf_positions fr) keys = Inr fs"
    "\<forall>g \<in> set fs. frame_ok look f es keys l g" "frame_positions fs = set (positions_iter (kf_positions fr))"
proof -
  let ?ps = "positions_iter (kf_positions fr)"
  obtain es' where es': "holds look f (Suc l) (kf_cid fr) es'" "\<And>p. p \<in> set ?ps \<Longrightarrow> map_of es (keys ! p) = map_of es' (keys ! p)"
    and sorted: "positions_sorted keys ?ps" using assms(1) by (auto simp: frame_ok_def)
  obtain bs r' n kids where n: "look (kf_cid fr) = Some bs" "from_shared bs = Inr r'" "read_to_owned r' = Some n" "nd_format n = f" "\<not> nd_leaf n"
    "length kids = length (nd_keys n)"
    "\<And>i. i < length kids \<Longrightarrow> holds look f l (nd_vals n ! i) (kids ! i) \<and> length (nd_vals n ! i) = 32 \<and> nd_keys n ! i = fst (hd (kids ! i))"
    "es' = concat kids" "sorted_wrt (<) (map fst es')" by (rule holds_kids [OF es'(1)]) blast
  have r: "r' = r" using assms(2) n(1,2) by (auto simp: loaded_def)
  have dec: "decodes r n" using n(2,3) r by (auto simp: decodes_def)
  have "child_ids n" using n(6,7) by (simp add: child_ids_def)
  then obtain fs where fs: "route_read_key_positions_to_children r (kf_positions fr) keys = Inr fs" "frames_ok n keys ?ps fs"
    using route_ok [OF dec _ shared_valid(4) [OF n(2,3,5)] sorted] by blast
  have ne: "[] \<notin> set kids" using n(7) holds_nonempty by (metis in_set_conv_nth)
  have "frame_ok look f es keys l g" if g: "g \<in> set fs" for g
  proof -
    obtain i where i: "frame_owned n keys i g" using fs(2) g by (auto simp: frames_ok_def)
    obtain xs ys where "fs = xs @ g # ys" using split_list [OF g] by blast
    then have ps: "?ps = concat (map (positions_iter \<circ> kf_positions) xs) @ positions_iter (kf_positions g) @ concat (map (positions_iter \<circ> kf_positions) ys)"
      using fs(2) by (auto simp: frames_ok_def)
    have "positions_sorted keys (positions_iter (kf_positions g))"
      using sorted unfolding ps by (auto simp: positions_sorted_def sorted_append)
    moreover have "map_of es (keys ! p) = map_of (kids ! i) (keys ! p)" if p: "p \<in> set (positions_iter (kf_positions g))" for p
    proof -
      have "map_of es (keys ! p) = map_of es' (keys ! p)" by (rule es'(2)) (use p in \<open>simp add: ps\<close>)
      then show ?thesis
        using map_of_owned_kid [of kids "nd_keys n" i "keys ! p"] n(6-9) ne i p by (auto simp: frame_owned_def)
    qed
    ultimately show ?thesis using n(6) n(7) [of i] i by (auto simp: frame_ok_def frame_owned_def)
  qed
  moreover have "frame_positions fs = set ?ps" using fs(2) by (simp add: frames_ok_def)
  ultimately show thesis
    using that fs(1) owned_access(5,7) [OF n(3)] n(4,5) r by (auto simp: validate_cached_read_node_def)
qed

lemma visit_nodes_ok:
  assumes "list_all2 (\<lambda>fr r. frame_ok look f es keys (Suc l) fr \<and> loaded look (kf_cid fr) r) frames nodes"
  shows "\<exists>fs. visit_frames sha256 f keys (zip frames nodes) vals nf = Inr (vals, nf @ fs) \<and> (\<forall>g \<in> set fs. frame_ok look f es keys l g) \<and>
    frame_positions fs = frame_positions frames"
  using assms
proof (induction arbitrary: nf rule: list_all2_induct)
  case (Cons fr frames r nodes)
  obtain gs where gs: "validate_cached_read_node sha256 r f = Inr ()" "\<not> rn_leaf r" "route_read_key_positions_to_children r (kf_positions fr) keys = Inr gs"
    "\<forall>g \<in> set gs. frame_ok look f es keys l g" "frame_positions gs = set (positions_iter (kf_positions fr))"
    by (rule visit_node_ok [of look f es keys l fr r sha256]) (use Cons.hyps in auto)
  from Cons.IH [of "nf @ gs"] obtain fs where "visit_frames sha256 f keys (zip frames nodes) vals (nf @ gs) = Inr (vals, (nf @ gs) @ fs)"
    "\<forall>g \<in> set fs. frame_ok look f es keys l g" "frame_positions fs = frame_positions frames" by blast
  then show ?case using gs by (intro exI [of _ "gs @ fs"]) auto
qed simp

section \<open>The lookup\<close>

lemma keys_are_sorted_iff: "keys_are_sorted keys = sorted keys"
  by (induction keys rule: keys_are_sorted.induct) (auto intro: order_trans)

lemma sorted_pair_fst: "sorted (map (\<lambda>x. (f x, g x)) xs) \<Longrightarrow> sorted (map f xs)"
  by (induction xs) auto

lemma sorted_key_positions_ok: "set (sorted_key_positions keys) = {..<length keys}" "positions_sorted keys (sorted_key_positions keys)"
proof -
  show set: "set (sorted_key_positions keys) = {..<length keys}"
    by (auto simp: sorted_key_positions_def Let_def)
  have "sorted (map (\<lambda>p. keys ! p) (sorted_key_positions keys))"
    using sorted_pair_fst [OF sorted_sort_key [of "\<lambda>p. (keys ! p, p)" "[0..<length keys]"]]
    by (simp add: sorted_key_positions_def Let_def keys_are_sorted_iff map_nth)
  then show "positions_sorted keys (sorted_key_positions keys)" using set by (simp add: positions_sorted_def)
qed

lemma positions_from_vec_ok: "ps \<noteq> [] \<Longrightarrow> \<exists>q. positions_from_vec ps = Some q \<and> positions_iter q = ps"
  by (cases ps) (simp_all add: positions_from_vec_def positions_iter_def)

lemma concat_list_chunks: "0 < n \<Longrightarrow> concat (list_chunks n xs) = xs"
  by (induction n xs rule: list_chunks.induct) (subst list_chunks.simps, auto)

context read_backend
begin

lemma load_chunks_ok:
  assumes "healthy (en_store en)" "engine_ok (stored (en_store en)) en"
    "\<And>cid. cid \<in> set (concat chunks) \<Longrightarrow> \<exists>bs r. stored (en_store en) cid = Some bs \<and> from_shared bs = Inr r \<and> rn_format r = cfg_format (tr_config t) \<and> sha256 bs = cid"
    "list_all2 (loaded (stored (en_store en))) before nodes"
  shows "\<exists>nodes' en' op'. load_chunks ops sha256 t chunks nodes (en, op) = (Inr nodes', en', op') \<and>
    engine_ok (stored (en_store en)) en' \<and> en_store en' = en_store en \<and> list_all2 (loaded (stored (en_store en))) (before @ concat chunks) nodes'"
  using assms
proof (induction chunks arbitrary: nodes before en op)
  case (Cons chunk chunks)
  obtain more en1 op1 where l: "load_many_engine_read_ordered ops sha256 t chunk (en, op) = (Inr more, en1, op1)"
    "engine_ok (stored (en_store en)) en1" "en_store en1 = en_store en" "list_all2 (loaded (stored (en_store en))) chunk more"
    using load_many_ok [OF Cons.prems(1,2), of chunk t op] Cons.prems(3) by (auto simp: loaded_def [abs_def])
  have "list_all2 (loaded (stored (en_store en1))) (before @ chunk) (nodes @ more)"
    using Cons.prems(4) l(3,4) by (simp add: list_all2_appendI)
  then show ?case using Cons.IH [of en1 "before @ chunk" "nodes @ more" op1] Cons.prems(1,3) l by simp
qed simp

lemma load_frames_ok:
  assumes "healthy (en_store en)" "\<And>cid bs. stored (en_store en) cid = Some bs \<Longrightarrow> sha256 bs = cid" "engine_ok (stored (en_store en)) en"
    "\<forall>fr \<in> set frames. frame_ok (stored (en_store en)) (cfg_format (tr_config t)) es keys l fr" "0 < n"
  obtains nodes en' op' where "load_chunks ops sha256 t (list_chunks n (map kf_cid frames)) [] (en, op) = (Inr nodes, en', op')"
    "engine_ok (stored (en_store en)) en'" "en_store en' = en_store en"
    "list_all2 (\<lambda>fr r. frame_ok (stored (en_store en)) (cfg_format (tr_config t)) es keys l fr \<and> loaded (stored (en_store en)) (kf_cid fr) r) frames nodes"
proof -
  have "\<exists>bs r. stored (en_store en) cid = Some bs \<and> from_shared bs = Inr r \<and> rn_format r = cfg_format (tr_config t) \<and> sha256 bs = cid"
    if "cid \<in> set (concat (list_chunks n (map kf_cid frames)))" for cid
  proof -
    have "cid \<in> kf_cid ` set frames" using that concat_list_chunks [OF assms(5), of "map kf_cid frames"] by (metis list.set_map)
    then obtain es' where "holds (stored (en_store en)) (cfg_format (tr_config t)) l cid es'" using assms(4) by (auto simp: frame_ok_def)
    then show ?thesis by (rule holds_bytes) (use assms(2) in blast)
  qed
  then obtain nodes en' op' where "load_chunks ops sha256 t (list_chunks n (map kf_cid frames)) [] (en, op) = (Inr nodes, en', op')"
    "engine_ok (stored (en_store en)) en'" "en_store en' = en_store en" "list_all2 (loaded (stored (en_store en))) (map kf_cid frames) nodes"
    using load_chunks_ok [OF assms(1,3), where chunks = "list_chunks n (map kf_cid frames)" and before = "[]" and nodes = "[]" and t = t and op = op]
    by (auto simp: concat_list_chunks [OF assms(5)])
  then show thesis using that assms(4) by (auto simp: list_all2_conv_all_nth)
qed

lemma get_many_loop_ok:
  assumes "healthy (en_store en)" "\<And>cid bs. stored (en_store en) cid = Some bs \<Longrightarrow> sha256 bs = cid" "engine_ok (stored (en_store en)) en"
    "\<forall>fr \<in> set frames. frame_ok (stored (en_store en)) (cfg_format (tr_config t)) es keys l fr" "length vals = length keys"
  shows "\<exists>vs en'. get_many_loop ops sha256 t keys frames vals (en, op) = Some (Inr vs, en') \<and> length vs = length keys \<and>
    (\<forall>p < length keys. vs ! p = (if p \<in> frame_positions frames then map_of es (keys ! p) else vals ! p)) \<and>
    engine_ok (stored (en_store en)) en' \<and> en_store en' = en_store en"
  using assms
proof (induction l arbitrary: frames en op)
  case 0
  let ?n = "max (read_chunk_size ops (en_execution en) (length frames)) 1"
  obtain nodes en' op' where l: "load_chunks ops sha256 t (list_chunks ?n (map kf_cid frames)) [] (en, op) = (Inr nodes, en', op')"
    "engine_ok (stored (en_store en)) en'" "en_store en' = en_store en"
    "list_all2 (\<lambda>fr r. frame_ok (stored (en_store en)) (cfg_format (tr_config t)) es keys 0 fr \<and> loaded (stored (en_store en)) (kf_cid fr) r) frames nodes"
    by (rule load_frames_ok [OF 0(1-4), of ?n op]) auto
  obtain vs where "visit_frames sha256 (cfg_format (tr_config t)) keys (zip frames nodes) vals [] = Inr (vs, [])" "length vs = length keys"
    "\<forall>p < length keys. vs ! p = (if p \<in> frame_positions frames then map_of es (keys ! p) else vals ! p)"
    using visit_leaves_ok [OF l(4) 0(5), of sha256 "[]"] by blast
  then show ?case
    using l(1-3) 0(3,5) by (cases "frames = []") (simp_all add: get_many_loop.simps)
next
  case (Suc l)
  let ?n = "max (read_chunk_size ops (en_execution en) (length frames)) 1"
  obtain nodes en' op' where l: "load_chunks ops sha256 t (list_chunks ?n (map kf_cid frames)) [] (en, op) = (Inr nodes, en', op')"
    "engine_ok (stored (en_store en)) en'" "en_store en' = en_store en"
    "list_all2 (\<lambda>fr r. frame_ok (stored (en_store en)) (cfg_format (tr_config t)) es keys (Suc l) fr \<and> loaded (stored (en_store en)) (kf_cid fr) r) frames nodes"
    by (rule load_frames_ok [OF Suc.prems(1-4), of ?n op]) auto
  obtain fs where fs: "visit_frames sha256 (cfg_format (tr_config t)) keys (zip frames nodes) vals [] = Inr (vals, fs)"
    "\<forall>g \<in> set fs. frame_ok (stored (en_store en)) (cfg_format (tr_config t)) es keys l g" "frame_positions fs = frame_positions frames"
    using visit_nodes_ok [OF l(4), of sha256 vals "[]"] by auto
  show ?case
  proof (cases "frames = []")
    case True
    then show ?thesis using Suc.prems(3,5) by (simp add: get_many_loop.simps)
  next
    case False
    then have "get_many_loop ops sha256 t keys frames vals (en, op) = get_many_loop ops sha256 t keys fs vals (en', op')"
      using l(1) fs(1) by (subst get_many_loop.simps) simp
    then show ?thesis
      using Suc.IH [of en' fs op', unfolded l(3), OF Suc.prems(1,2) l(2) fs(2) Suc.prems(5)] unfolding fs(3) by (simp only:)
  qed
qed

lemma engine_get_many_ok:
  assumes "healthy (en_store en)" "\<And>cid bs. stored (en_store en) cid = Some bs \<Longrightarrow> sha256 bs = cid" "engine_ok (stored (en_store en)) en"
    "tree_holds (stored (en_store en)) (cfg_format (tr_config t)) (tr_root t) es"
  shows "\<exists>en'. engine_get_many ops sha256 t keys en = Some (Inr (map (map_of es) keys), en') \<and>
    engine_ok (stored (en_store en)) en' \<and> en_store en' = en_store en"
proof (cases "tr_root t = None \<or> keys = []")
  case True
  then show ?thesis
    using assms(3,4) by (auto simp: engine_get_many_def tree_holds_def map_replicate_const [symmetric] split: option.splits)
next
  case False
  then obtain root l where root: "tr_root t = Some root" "keys \<noteq> []" "holds (stored (en_store en)) (cfg_format (tr_config t)) l root es"
    using assms(4) by (auto simp: tree_holds_def)
  have "sorted_key_positions keys \<noteq> []" using sorted_key_positions_ok(1) [of keys] root(2) by force
  then obtain q where q: "positions_from_vec (sorted_key_positions keys) = Some q" "positions_iter q = sorted_key_positions keys"
    using positions_from_vec_ok by blast
  let ?fr = "\<lparr>kf_cid = root, kf_positions = q\<rparr>"
  have "frame_ok (stored (en_store en)) (cfg_format (tr_config t)) es keys l ?fr"
    using root(3) sorted_key_positions_ok(2) by (auto simp: frame_ok_def q(2))
  then obtain vs en' where "get_many_loop ops sha256 t keys [?fr] (replicate (length keys) None) (en, operation_new (en_execution en)) = Some (Inr vs, en')"
    and vs: "length vs = length keys" "\<forall>p < length keys. vs ! p = map_of es (keys ! p)"
    and "engine_ok (stored (en_store en)) en'" "en_store en' = en_store en"
    using get_many_loop_ok [OF assms(1-3), of "[?fr]" t es keys l "replicate (length keys) None" "operation_new (en_execution en)"]
      sorted_key_positions_ok(1) [of keys] by (auto simp: q(2))
  moreover have "vs = map (map_of es) keys" using vs by (simp add: nth_equalityI)
  ultimately show ?thesis using root(1,2) q(1) by (simp add: engine_get_many_def)
qed

end

end
