(* ===== verification/Spec2Isabelle.thy ===== *)
theory Spec2Isabelle
  imports Keys Build_Progress Engine_Many
begin

text \<open>
  \<^bold>\<open>A verification library for the prolly tree map.\<close>

  The program is a content-addressed ordered map (\<^verbatim>\<open>src/src/prolly/\<close>).  Entries are byte strings,
  sorted by key; the entries of a level are cut into nodes by a boundary detector that looks
  at the contents only; a node is encoded to bytes, stored under the SHA-256 digest of the
  bytes, and named by that digest in its parent.  A tree is the digest of its root together
  with the format it was built with, and named roots map names to trees.

  \<^bold>\<open>Theories and the code they model.\<close>

  \<^item> \<open>Prelude\<close>: machine integers, \<open>Result\<close> as a sum type (\<open>and_then\<close> is the \<open>?\<close> operator, a
    panic is the error value \<open>Panic\<close>), checked and saturating arithmetic, byte order, varints.
    \<open>Cursor\<close>: the byte reader of the decoders.  \<open>Errors\<close>: \<^verbatim>\<open>cid.rs\<close>, the errors and the
    conflict resolvers of \<^verbatim>\<open>error.rs\<close>.
  \<^item> \<open>Keys\<close>: \<^verbatim>\<open>key.rs\<close>, prefix ranges, numeric and composite keys.
  \<^item> \<open>Tree_Format\<close>: \<^verbatim>\<open>format.rs\<close>, \<^verbatim>\<open>encoding.rs\<close>, \<^verbatim>\<open>chunking.rs\<close>, \<^verbatim>\<open>config.rs\<close>; the format
    descriptor, its validation, its canonical bytes and their decoder.
  \<^item> \<open>Node_Codec\<close>: the owned \<open>Node\<close> of \<^verbatim>\<open>node.rs\<close>, encoding in three layouts, decoding,
    validation, exact length.  \<open>Read_Node\<close> and \<open>Read_Decode\<close>: the packed \<open>ReadNode\<close>, its
    decoder, its accessors and its word-accelerated binary search.
  \<^item> \<open>Boundary\<close>: \<^verbatim>\<open>boundary.rs\<close>, the detector, the rolling hash, the fixed-point thresholds.
  \<^item> \<open>Node_Sizer\<close>: \<^verbatim>\<open>builder/size.rs\<close>, the incremental encoded size of a node.
  \<^item> \<open>Chunk_Ranges\<close>: the loops of \<^verbatim>\<open>builder.rs\<close> that cut a level into nodes.
    \<open>Level_Emitter\<close>: the streaming emitter of one level of \<^verbatim>\<open>builder/streaming.rs\<close>.
    \<open>Builder\<close>: the bulk builder \<open>BatchBuilder\<close> and the serial builders of levels of \<^verbatim>\<open>builder.rs\<close>.
  \<^item> \<open>Tree_Spec\<close>: what it means that a tree in a store holds given entries.  \<open>Built_Trees\<close>: the bulk
    builder publishes a tree that holds the entries it was given.  \<open>Build_Progress\<close>: it always
    reaches a root, and the serial builder of the upper levels agrees with it.
  \<^item> \<open>Node_Cache\<close>: the cache of immutable nodes of \<^verbatim>\<open>mod.rs\<close>, with pins and eviction.
  \<^item> \<open>Engine_State\<close>: the engine of \<^verbatim>\<open>engine/mod.rs\<close> with its metrics, execution limits
    (\<^verbatim>\<open>engine/execution.rs\<close>), node checks (\<^verbatim>\<open>engine/validation.rs\<close>) and node loaders.
    \<open>Engine_Read\<close>: point lookups; \<open>Engine_Batch\<close>: batched loads; \<open>Engine_Many\<close>: lookups of many
    keys, routed down the tree round by round.
  \<^item> \<open>Ordered_Map\<close>: the standard library's ordered map as a sorted association list.
    \<open>Manifests\<close>: \<^verbatim>\<open>tree.rs\<close>, \<^verbatim>\<open>manifest.rs\<close> and the named-root operations of \<^verbatim>\<open>mod.rs\<close>.
    \<open>Stores\<close>: \<^verbatim>\<open>store/mod.rs\<close> (read plan, default methods, overlapped reads), the in-memory
    store \<^verbatim>\<open>store/memory.rs\<close>, and its transactions.

  \<^bold>\<open>How code becomes definitions.\<close>  A struct is a record, an enum a datatype, \<open>u8\<close> to \<open>u128\<close>
  are words; a loop is a recursive function whose arguments are the loop's variables; \<open>&mut
  self\<close> is a state passed in and returned; where a method fails and its caller drops the object, as
  in \<open>push_sized\<close>, the partly updated state is not returned.  Slice indexing that may fail returns
  \<open>Panic\<close>, and so do arithmetic that may overflow and debug assertions, as in a build with overflow
  checks; without them such a step wraps (\<open>build_levels\<close>, \<open>sum_counts\<close>) or goes on.
  SHA-256 and xxHash64 are parameters; a store used through its trait is a parameter of the
  caller, with its laws in the locales \<open>node_store\<close>, \<open>manifest_store\<close>, \<open>publishing_store\<close> (what the
  builders need) and \<open>read_backend\<close> (what the engine's reads need), all interpreted on the
  in-memory store.  Vectors and slices are lists; a length that is converted to \<open>u64\<close> is
  checked where the code checks it.

  \<^bold>\<open>What is shown.\<close>  Keys: ranges of a prefix are exact, encodings preserve order, decoding
  inverts encoding.  Codec: what is written is read back, whatever is accepted is valid, the
  packed decoder accepts what the owned decoder accepts with the same contents, the packed
  search is binary search.  Boundaries: no panic, minimum and maximum are respected, the
  rolling hash is the hash of the window, the fixed-point ratio is exact division.  Chunking:
  a level is covered exactly once, in order, by nodes within the byte cap; its errors are
  classified (unmatched or zero child counts, an invalid format, a layout without codec, an
  oversized entry); parallel hashing agrees with the serial loop.  Stores: batched reads
  answer as single reads do, overlapped reads take at most one step per key in every order of
  answers, a commit is all or nothing, named-root swaps and page cursors are correct.  Cache: no operation panics, the
  counters are exact, a hit is a node that was inserted, eviction keeps the limits.  Builders: a
  bulk build ends, and the published tree holds the last value added for every key.  Engine: over
  such a tree, single and batched lookups end and answer as the map of the entries does, whatever
  is cached.

  \<^bold>\<open>Bounds and fuel.\<close>  No definition uses fuel: loops recurse over the data they consume, and
  the loops that do not (\<open>halve_loop\<close>, the varint length loop, \<open>evict_loop\<close>) have termination proofs.
  The descents \<open>get_loop\<close> and \<open>get_many_loop\<close> follow identifiers found in a store, which need not
  lead to a leaf; they are partial functions into \<open>option\<close>, and that they end on a tree of the
  store is part of what is proved.
  \<open>level_ok\<close> asks that the encoded entries of a level fit the 64-bit address space, which holds
  for every value that exists in memory.

  \<^bold>\<open>Not modelled.\<close>  File, network and database stores, foreign-function bindings,
  scheduling of futures and threads (their results are modelled, as
  functions of the order of answers), serde's CBOR, floating-point vector search, secondary
  indexes, the incremental mutation engine, difference and merge.
\<close>

section \<open>Reading what was built\<close>

text \<open>The store of a finished build, seen by the engine.\<close>

lemma stored_look: "mem_reads.stored s = look_of mem_get s"
  by (simp add: fun_eq_iff mem_stored look_of_def)

lemma stored_addressed: "mem.addressed sha256 s \<Longrightarrow> mem_reads.stored s cid = Some bs \<Longrightarrow> sha256 bs = cid"
  by (auto simp: mem_stored mem.addressed_def split: sum.splits)

lemma built_gets:
  assumes "mem_ok s" "mem.addressed sha256 s" "tr_config t = cfg" "tree_holds (look_of mem_get s) (cfg_format cfg) (tr_root t) es"
  shows "\<exists>en. engine_gets mem_read_store sha256 t keys (engine_new sha256 s (tr_config t)) = Some (map (map_of es) keys, en) \<and>
    engine_ok (mem_reads.stored s) en \<and> en_store en = s"
  using mem_reads.engine_gets_ok [of "engine_new sha256 s (tr_config t)" sha256 t es keys] stored_addressed [OF assms(2)] assms
  by (simp add: engine_new_ok stored_look)

text \<open>
  C1 (\<open>BatchBuilder::add\<close>, \<open>BatchBuilder::build\<close>, \<open>ProllyEngine::get\<close>).  What was built can be read: on a new
  engine over the store of a finished bulk build, lookups in any order and number, with
  whatever the node cache and the leaf shortcut keep between them, all return, and return for
  every key the value added last for it, or nothing when the key was never added.  The hypotheses
  are those of the build.
\<close>

theorem get_after_build:
  assumes "mem_ok (bb_store b)" "mem.addressed sha256 (bb_store b)" "digest_32 sha256"
    "tree_room (cfg_format (bb_config b)) (sorted_unique (bb_entries b))" "readable (bb_config b) (map fst (sorted_unique (bb_entries b)))"
    "batch_build sha256 xxh64 publish_log (log_builder b) = Inr (t, nodes)"
    "inj_on sha256 ({v. \<exists>k. mem_get (bb_store b) k = Inr (Some v)} \<union> snd ` set nodes)"
  shows "\<exists>s. batch_build sha256 xxh64 mem_publish_nodes b = Inr (t, s) \<and>
    (\<forall>keys. \<exists>en. engine_gets mem_read_store sha256 t keys (engine_new sha256 s (tr_config t)) = Some (map (map_of (rev (bb_entries b))) keys, en))"
proof (rule mem_publish.batch_build_in_store [OF assms])
  fix s
  assume s: "batch_build sha256 xxh64 mem_publish_nodes b = Inr (t, s)" "mem_ok s" "mem.addressed sha256 s" "tr_config t = bb_config b"
    "tree_holds (look_of mem_get s) (cfg_format (bb_config b)) (tr_root t) (sorted_unique (bb_entries b))"
  have "\<exists>en. engine_gets mem_read_store sha256 t keys (engine_new sha256 s (tr_config t)) = Some (map (map_of (sorted_unique (bb_entries b))) keys, en)" for keys
    using built_gets [OF s(2-5)] by blast
  then show ?thesis using s(1) by (simp add: sorted_unique_ok(2))
qed

theorem get_after_build_witness:
  "\<exists>t s en. batch_build zero_sha (\<lambda>seed bs. 0) mem_publish_nodes one_entry = Inr (t, s) \<and>
    engine_gets mem_read_store zero_sha t [[1], [7], [1]] (engine_new zero_sha s (tr_config t)) =
      Some ([Some [2], None, Some [2]], en)"
proof -
  obtain t nodes where r: "mem_ok (bb_store one_entry)" "mem.addressed zero_sha (bb_store one_entry)" "digest_32 zero_sha"
    "tree_room (cfg_format (bb_config one_entry)) (sorted_unique (bb_entries one_entry))"
    "readable (bb_config one_entry) (map fst (sorted_unique (bb_entries one_entry)))"
    "batch_build zero_sha (\<lambda>seed bs. 0) publish_log (log_builder one_entry) = Inr (t, nodes)"
    "inj_on zero_sha ({v. \<exists>k. mem_get (bb_store one_entry) k = Inr (Some v)} \<union> snd ` set nodes)" by (rule one_entry_ready)
  obtain s where s: "batch_build zero_sha (\<lambda>seed bs. 0) mem_publish_nodes one_entry = Inr (t, s)"
    "\<And>keys. \<exists>en. engine_gets mem_read_store zero_sha t keys (engine_new zero_sha s (tr_config t)) =
      Some (map (map_of (rev (bb_entries one_entry))) keys, en)" using get_after_build [OF r] by blast
  from s(2) [of "[[1], [7], [1]]"] s(1) show ?thesis by auto
qed

text \<open>
  C2 (\<open>BatchBuilder::build\<close>, \<open>ProllyEngine::get_many\<close>).  A lookup of many keys answers as the map does: over the
  store of a finished bulk build, on an engine that has served any lookups before, \<open>get_many\<close>
  ends without an error or a panic and returns, position by position, the value added last for
  the key there.  The keys may be in any order, repeated or absent; their positions are sorted, routed
  down the tree by either strategy, and the nodes of a round are read in chunks.
\<close>

theorem get_many_after_build:
  assumes "mem_ok (bb_store b)" "mem.addressed sha256 (bb_store b)" "digest_32 sha256"
    "tree_room (cfg_format (bb_config b)) (sorted_unique (bb_entries b))" "readable (bb_config b) (map fst (sorted_unique (bb_entries b)))"
    "batch_build sha256 xxh64 publish_log (log_builder b) = Inr (t, nodes)"
    "inj_on sha256 ({v. \<exists>k. mem_get (bb_store b) k = Inr (Some v)} \<union> snd ` set nodes)"
  shows "\<exists>s. batch_build sha256 xxh64 mem_publish_nodes b = Inr (t, s) \<and>
    (\<forall>earlier keys. \<exists>vs en en'. engine_gets mem_read_store sha256 t earlier (engine_new sha256 s (tr_config t)) = Some (vs, en) \<and>
      engine_get_many mem_read_store sha256 t keys en = Some (Inr (map (map_of (rev (bb_entries b))) keys), en'))"
proof (rule mem_publish.batch_build_in_store [OF assms])
  fix s
  assume s: "batch_build sha256 xxh64 mem_publish_nodes b = Inr (t, s)" "mem_ok s" "mem.addressed sha256 s" "tr_config t = bb_config b"
    "tree_holds (look_of mem_get s) (cfg_format (bb_config b)) (tr_root t) (sorted_unique (bb_entries b))"
  have "\<exists>vs en en'. engine_gets mem_read_store sha256 t earlier (engine_new sha256 s (tr_config t)) = Some (vs, en) \<and>
      engine_get_many mem_read_store sha256 t keys en = Some (Inr (map (map_of (sorted_unique (bb_entries b))) keys), en')" for earlier keys
  proof -
    obtain vs en where en: "engine_gets mem_read_store sha256 t earlier (engine_new sha256 s (tr_config t)) = Some (vs, en)"
      "engine_ok (mem_reads.stored s) en" "en_store en = s" using built_gets [OF s(2-5)] by blast
    then show ?thesis
      using mem_reads.engine_get_many_ok [of en sha256 t "sorted_unique (bb_entries b)" keys] s stored_addressed [OF s(3)]
      by (auto simp: stored_look)
  qed
  then show ?thesis using s(1) by (simp add: sorted_unique_ok(2))
qed

theorem get_many_after_build_witness:
  "\<exists>t s vs en en'. batch_build zero_sha (\<lambda>seed bs. 0) mem_publish_nodes one_entry = Inr (t, s) \<and>
    engine_gets mem_read_store zero_sha t [[1]] (engine_new zero_sha s (tr_config t)) = Some (vs, en) \<and>
    engine_get_many mem_read_store zero_sha t [[7], [1], [0], [1]] en = Some (Inr [None, Some [2], None, Some [2]], en')"
proof -
  obtain t nodes where r: "mem_ok (bb_store one_entry)" "mem.addressed zero_sha (bb_store one_entry)" "digest_32 zero_sha"
    "tree_room (cfg_format (bb_config one_entry)) (sorted_unique (bb_entries one_entry))"
    "readable (bb_config one_entry) (map fst (sorted_unique (bb_entries one_entry)))"
    "batch_build zero_sha (\<lambda>seed bs. 0) publish_log (log_builder one_entry) = Inr (t, nodes)"
    "inj_on zero_sha ({v. \<exists>k. mem_get (bb_store one_entry) k = Inr (Some v)} \<union> snd ` set nodes)" by (rule one_entry_ready)
  obtain s where s: "batch_build zero_sha (\<lambda>seed bs. 0) mem_publish_nodes one_entry = Inr (t, s)"
    "\<And>earlier keys. \<exists>vs en en'. engine_gets mem_read_store zero_sha t earlier (engine_new zero_sha s (tr_config t)) =
      Some (vs, en) \<and> engine_get_many mem_read_store zero_sha t keys en = Some (Inr (map (map_of (rev (bb_entries one_entry))) keys), en')"
    using get_many_after_build [OF r] by blast
  from s(2) [of "[[1]]" "[[7], [1], [0], [1]]"] s(1) show ?thesis by auto
qed

end
